(* ===== verification/Rsyslog_Prelude.thy ===== *)
theory Rsyslog_Prelude
imports Main "HOL-Library.Word" "HOL-Library.Monad_Syntax" "HOL-Library.Signed_Division"
begin

text \<open>
  What the component theories share: the return codes of the runtime
  (\<^verbatim>\<open>runtime/rsyslog.h\<close>), byte-addressed C buffers whose out-of-bounds and
  uninitialised accesses are visible as \<^term>\<open>None\<close>, the \<^verbatim>\<open>ctype.h\<close> and
  \<^verbatim>\<open>string.h\<close> routines the sources call, conversions between machine bytes and
  characters, and generic facts on lists and options.
\<close>

section \<open>Collections of facts\<close>

named_theorems mem_simps \<open>reads and writes of C buffers\<close>
named_theorems wf_intros \<open>operations that keep a component's invariant\<close>

section \<open>Return codes\<close>

text \<open>The codes of \<^verbatim>\<open>enum rsRetVal_\<close> that the modelled components return.\<close>

datatype rsRetVal =
    RS_RET_OK
  | RS_RET_ERR
  | RS_RET_OUT_OF_MEMORY
  | RS_TRUNCAT_TOO_LARGE
  | RS_RET_FOUND_AT_STRING_END
  | RS_RET_NOT_FOUND
  | RS_RET_MISSING_TRAIL_QUOTE
  | RS_RET_NO_DIGIT
  | RS_RET_NO_MORE_DATA
  | RS_RET_INVALID_IP
  | RS_RET_END_OF_LINKEDLIST
  | RS_RET_EMPTY_LIST
  | RS_RET_INVALID_VALUE
  | RS_RET_OK_DELETE_LISTENTRY
  | RS_RET_INVLD_TIME
  | RS_RET_FILE_TOO_LARGE
  | RS_RET_PARAM_ERROR
  | RS_RET_COULD_NOT_PARSE
  | RS_RET_EMPTY_MSG
  | RS_RET_PARSER_NOT_FOUND
  | RS_RET_DISCARDMSG
  | RS_RET_OVERSIZE_MSG
  | RS_RET_SERVER_NO_TLS
  | RS_RET_FILE_NOT_FOUND
  | RS_RET_INTERNAL_ERROR
  | RS_RET_IO_ERROR
  | RS_RET_NO_DATA
  | RS_RET_RATE_LIMITED

section \<open>C buffers\<close>

text \<open>
  An object obtained from \<^verbatim>\<open>malloc\<close> is a list of cells. A cell that has not been
  written since its allocation is \<^term>\<open>None\<close>. Every access of the model goes through
  the routines below, whose result \<^term>\<open>None\<close> stands for undefined behaviour: an access
  out of bounds, or the use of an uninitialised byte.
\<close>

type_synonym buf = "char option list"

abbreviation NUL :: char where
  "NUL \<equiv> CHR 0x00"

definition buf_new :: "nat \<Rightarrow> buf" where
  "buf_new n = replicate n None"

definition buf_get :: "buf \<Rightarrow> nat \<Rightarrow> char option" where
  "buf_get b i = (if i < length b then b ! i else None)"

definition buf_put :: "buf \<Rightarrow> nat \<Rightarrow> char \<Rightarrow> buf option" where
  "buf_put b i c = (if i < length b then Some (b[i := Some c]) else None)"

definition buf_memcpy :: "buf \<Rightarrow> nat \<Rightarrow> char list \<Rightarrow> buf option" where
  "buf_memcpy b off cs =
     (if off + length cs \<le> length b
      then Some (take off b @ map Some cs @ drop (off + length cs) b) else None)"

definition buf_realloc :: "buf \<Rightarrow> nat \<Rightarrow> buf" where
  "buf_realloc b n = take n b @ replicate (n - length b) None"

primrec all_init :: "buf \<Rightarrow> char list option" where
  "all_init [] = Some []"
| "all_init (x # xs) = do { c \<leftarrow> x; cs \<leftarrow> all_init xs; Some (c # cs) }"

text \<open>The \<^term>\<open>n\<close> bytes from offset \<^term>\<open>off\<close> on, as \<^verbatim>\<open>memcpy\<close> or \<^verbatim>\<open>memcmp\<close> read them.\<close>

definition buf_read :: "buf \<Rightarrow> nat \<Rightarrow> nat \<Rightarrow> char list option" where
  "buf_read b off n =
     (if off + n \<le> length b then all_init (take n (drop off b)) else None)"

text \<open>The C string at the start of a buffer, as \<^verbatim>\<open>strlen\<close> and \<^verbatim>\<open>strcpy\<close> read it.\<close>

fun buf_sz :: "buf \<Rightarrow> char list option" where
  "buf_sz [] = None"
| "buf_sz (None # xs) = None"
| "buf_sz (Some c # xs) = (if c = NUL then Some [] else map_option ((#) c) (buf_sz xs))"

section \<open>The C library routines the sources call\<close>

definition strlen :: "char list \<Rightarrow> nat" where
  "strlen s = length (takeWhile (\<lambda>c. c \<noteq> NUL) s)"

text \<open>
  \<^verbatim>\<open>memcmp\<close> and \<^verbatim>\<open>strncmp\<close> promise only the sign of their result; the model returns
  the sign itself.
\<close>

fun memcmp :: "char list \<Rightarrow> char list \<Rightarrow> int" where
  "memcmp (x # xs) (y # ys) =
     (if x = y then memcmp xs ys
      else if (of_char x :: nat) < of_char y then -1 else 1)"
| "memcmp xs ys = 0"

fun strncmp :: "char list \<Rightarrow> char list \<Rightarrow> nat \<Rightarrow> int" where
  "strncmp (x # xs) (y # ys) (Suc n) =
     (if x = y then (if x = NUL then 0 else strncmp xs ys n)
      else if (of_char x :: nat) < of_char y then -1 else 1)"
| "strncmp xs ys n = 0"

definition isspace :: "char \<Rightarrow> bool" where
  "isspace c \<longleftrightarrow> (of_char c :: nat) = 32 \<or> (9 \<le> (of_char c :: nat) \<and> (of_char c :: nat) \<le> 13)"

definition isdigit :: "char \<Rightarrow> bool" where
  "isdigit c \<longleftrightarrow> 48 \<le> (of_char c :: nat) \<and> (of_char c :: nat) \<le> 57"

definition isalpha :: "char \<Rightarrow> bool" where
  "isalpha c \<longleftrightarrow> (65 \<le> (of_char c :: nat) \<and> (of_char c :: nat) \<le> 90)
     \<or> (97 \<le> (of_char c :: nat) \<and> (of_char c :: nat) \<le> 122)"

definition isalnum :: "char \<Rightarrow> bool" where
  "isalnum c \<longleftrightarrow> isalpha c \<or> isdigit c"

definition iscntrl :: "char \<Rightarrow> bool" where
  "iscntrl c \<longleftrightarrow> (of_char c :: nat) < 32 \<or> (of_char c :: nat) = 127"

definition tolower :: "char \<Rightarrow> char" where
  "tolower c = (if 65 \<le> (of_char c :: nat) \<and> (of_char c :: nat) \<le> 90
     then char_of ((of_char c :: nat) + 32) else c)"

text \<open>The value of a digit character, the source's \<^verbatim>\<open>c - '0'\<close>, and its inverse.\<close>

definition digit_val :: "char \<Rightarrow> int" where
  "digit_val c = int (of_char c) - 48"

definition digit_chr :: "int \<Rightarrow> char" where
  "digit_chr d = char_of (nat (48 + d))"

text \<open>The number a sequence of digits stands for, read after the value \<^term>\<open>v\<close>.\<close>

fun dec_val :: "int \<Rightarrow> char list \<Rightarrow> int" where
  "dec_val v [] = v"
| "dec_val v (d # ds) = dec_val (v * 10 + digit_val d) ds"

text \<open>An element of an array of the program; an index outside it is undefined behaviour.\<close>

definition arr :: "'a list \<Rightarrow> int \<Rightarrow> 'a option" where
  "arr xs i = (if 0 \<le> i \<and> i < int (length xs) then Some (xs ! nat i) else None)"

text \<open>Truncation of a mathematical integer to a C \<^verbatim>\<open>int\<close>.\<close>

definition int32 :: "int \<Rightarrow> int" where
  "int32 x = signed_take_bit 31 x"

text \<open>The values a \<^verbatim>\<open>char\<close> (\<^verbatim>\<open>intTiny\<close>) and a \<^verbatim>\<open>short\<close> variable take on assignment.\<close>

definition int8 :: "int \<Rightarrow> int" where
  "int8 x = signed_take_bit 7 x"

definition int16 :: "int \<Rightarrow> int" where
  "int16 x = signed_take_bit 15 x"

text \<open>Signed arithmetic on \<^verbatim>\<open>int\<close>: a result outside the range is undefined behaviour.\<close>

definition ck_int :: "int \<Rightarrow> int option" where
  "ck_int x = (if - (2 ^ 31) \<le> x \<and> x < 2 ^ 31 then Some x else None)"

section \<open>Fallible code\<close>

text \<open>
  The result of code that may return early with a code: \<^term>\<open>None\<close> is undefined
  behaviour, \<^term>\<open>Some (Inl e)\<close> an \<^verbatim>\<open>ABORT_FINALIZE(e)\<close> and \<^term>\<open>Some (Inr x)\<close> the
  normal completion. \<^verbatim>\<open>rbind\<close> is \<^verbatim>\<open>CHKiRet\<close>: it continues after a normal completion only.
\<close>

type_synonym 'a res = "(rsRetVal + 'a) option"

abbreviation ret :: "'a \<Rightarrow> 'a res" where
  "ret x \<equiv> Some (Inr x)"

abbreviation abort :: "rsRetVal \<Rightarrow> 'a res" where
  "abort e \<equiv> Some (Inl e)"

fun rbind :: "'a res \<Rightarrow> ('a \<Rightarrow> 'b res) \<Rightarrow> 'b res" where
  "rbind None f = None"
| "rbind (Some (Inl e)) f = Some (Inl e)"
| "rbind (Some (Inr x)) f = f x"

text \<open>Code that is free of undefined behaviour and whose normal completions satisfy \<^verbatim>\<open>Q\<close>.\<close>

fun returns :: "'a res \<Rightarrow> ('a \<Rightarrow> bool) \<Rightarrow> bool" where
  "returns None Q \<longleftrightarrow> False"
| "returns (Some (Inl e)) Q \<longleftrightarrow> True"
| "returns (Some (Inr x)) Q \<longleftrightarrow> Q x"

text \<open>The bytes from a pointer on, to the end of the object; reading none of them is out of bounds.\<close>

fun deref :: "char list \<Rightarrow> char option" where
  "deref [] = None"
| "deref (c # s) = Some c"

section \<open>Facts on buffers\<close>

lemma length_buf_new [simp, mem_simps]: "length (buf_new n) = n"
  by (simp add: buf_new_def)

lemma length_buf_realloc [simp, mem_simps]: "length (buf_realloc b n) = n"
  by (simp add: buf_realloc_def)

lemma buf_put_Some [mem_simps]: "i < length b \<Longrightarrow> buf_put b i c = Some (b[i := Some c])"
  by (simp add: buf_put_def)

lemma buf_put_None_iff [simp]: "buf_put b i c = None \<longleftrightarrow> length b \<le> i"
  by (auto simp: buf_put_def)

lemma all_init_map_Some [simp, mem_simps]: "all_init (map Some cs) = Some cs"
  by (induction cs) auto

lemma all_init_SomeD: "all_init xs = Some cs \<Longrightarrow> xs = map Some cs"
  by (induction xs arbitrary: cs) (auto simp: bind_eq_Some_conv)

lemma all_init_Some_iff [mem_simps]: "all_init xs = Some cs \<longleftrightarrow> xs = map Some cs"
  using all_init_SomeD by force

lemma buf_read_Some_iff:
  "buf_read b off n = Some cs \<longleftrightarrow>
     off + n \<le> length b \<and> take n (drop off b) = map Some cs"
  by (auto simp: buf_read_def all_init_Some_iff)

lemma buf_read_length: "buf_read b off n = Some cs \<Longrightarrow> length cs = n"
proof -
  assume "buf_read b off n = Some cs"
  then have le: "off + n \<le> length b" and eq: "take n (drop off b) = map Some cs"
    by (auto simp: buf_read_Some_iff)
  have "length cs = length (take n (drop off b))"
    using eq by simp
  with le show ?thesis
    by simp
qed

lemma buf_read_prefix_iff:
  "buf_read b 0 n = Some cs \<longleftrightarrow> n \<le> length b \<and> take n b = map Some cs"
  by (simp add: buf_read_Some_iff)

text \<open>Reads after writes, on disjoint and on equal ranges, and reads of adjacent ranges.\<close>

lemma buf_memcpy_Some_iff: "buf_memcpy b k xs = Some b' \<longleftrightarrow>
    k + length xs \<le> length b \<and> b' = take k b @ map Some xs @ drop (k + length xs) b"
  by (auto simp: buf_memcpy_def)

lemma buf_memcpy_ex: "k + length xs \<le> length b \<Longrightarrow> \<exists>b'. buf_memcpy b k xs = Some b'"
  by (simp add: buf_memcpy_def)

lemma buf_memcpy_length: "buf_memcpy b k xs = Some b' \<Longrightarrow> length b' = length b"
  by (auto simp: buf_memcpy_Some_iff)

lemma buf_read_memcpy_same: "buf_memcpy b k xs = Some b' \<Longrightarrow> n = length xs \<Longrightarrow> buf_read b' k n = Some xs"
  by (auto simp: buf_memcpy_Some_iff buf_read_Some_iff)

lemma buf_read_memcpy_before:
  assumes "buf_memcpy b k xs = Some b'" "j + n \<le> k"
  shows "buf_read b' j n = buf_read b j n"
proof -
  have b': "b' = take k b @ map Some xs @ drop (k + length xs) b" "k + length xs \<le> length b"
    using assms(1) by (auto simp: buf_memcpy_Some_iff)
  have "take n (drop j (take k b)) = take n (drop j b)"
    using assms(2) by (simp add: take_drop min_def)
  then have "take n (drop j b') = take n (drop j b)"
    using assms(2) b' by simp
  moreover have "length b' = length b"
    using assms(1) by (rule buf_memcpy_length)
  ultimately show ?thesis
    by (simp add: buf_read_def)
qed

lemma buf_read_memcpy_after:
  assumes "buf_memcpy b k xs = Some b'" "k + length xs \<le> j"
  shows "buf_read b' j n = buf_read b j n"
proof -
  have b': "b' = take k b @ map Some xs @ drop (k + length xs) b" "k + length xs \<le> length b"
    using assms(1) by (auto simp: buf_memcpy_Some_iff)
  have "drop j b' = drop j b"
    using assms(2) b' by simp
  moreover have "length b' = length b"
    using assms(1) by (rule buf_memcpy_length)
  ultimately show ?thesis
    by (simp add: buf_read_def)
qed

lemma buf_read_join:
  assumes "buf_read b k n = Some xs" "buf_read b (k + n) n' = Some ys"
  shows "buf_read b k (n + n') = Some (xs @ ys)"
proof -
  have "take (n + n') (drop k b) = take n (drop k b) @ take n' (drop n (drop k b))"
    by (rule take_add)
  then show ?thesis
    using assms by (simp add: buf_read_Some_iff add.commute)
qed

lemma buf_read_part:
  assumes "buf_read b k n = Some xs" "i + n' \<le> n"
  shows "buf_read b (k + i) n' = Some (take n' (drop i xs))"
proof -
  have *: "k + n \<le> length b" "take n (drop k b) = map Some xs"
    using assms(1) by (auto simp: buf_read_Some_iff)
  have "take n' (drop i (take n (drop k b))) = take n' (drop (k + i) b)"
    using assms(2) by (simp add: drop_take min_def add.commute)
  then show ?thesis
    using * assms(2) by (simp add: buf_read_Some_iff take_map drop_map)
qed

lemma buf_read_realloc: "k + n \<le> length b \<Longrightarrow> k + n \<le> m \<Longrightarrow> buf_read (buf_realloc b m) k n = buf_read b k n"
  by (simp add: buf_read_def buf_realloc_def drop_take min_def)

lemma buf_read_le: "buf_read b k n = Some xs \<Longrightarrow> k + n \<le> length b"
  by (simp add: buf_read_Some_iff)

lemma buf_sz_prefix:
  "take n b = map Some cs \<Longrightarrow> length cs = n \<Longrightarrow> n < length b \<Longrightarrow> b ! n = Some NUL
    \<Longrightarrow> buf_sz b = Some (takeWhile (\<lambda>c. c \<noteq> NUL) cs)"
proof (induction cs arbitrary: b n)
  case Nil
  then show ?case
    by (cases b) auto
next
  case (Cons c cs)
  then obtain b' where b: "b = Some c # b'" and n: "n = Suc (length cs)"
    by (cases b; cases n) auto
  show ?case
    using Cons.prems Cons.IH [of "length cs" b'] by (auto simp: b n)
qed

section \<open>Facts on the C library routines\<close>

lemma takeWhile_no_NUL [simp]:
  "NUL \<notin> set s \<Longrightarrow> takeWhile (\<lambda>c. c \<noteq> NUL) s = s"
  by (auto simp: takeWhile_eq_all_conv)

lemma strlen_no_NUL: "NUL \<notin> set s \<Longrightarrow> strlen s = length s"
  by (simp add: strlen_def)

lemma memcmp_eq_0_iff: "length xs = length ys \<Longrightarrow> memcmp xs ys = 0 \<longleftrightarrow> xs = ys"
  by (induction xs ys rule: memcmp.induct) auto

lemma memcmp_self [simp]: "memcmp xs xs = 0"
  by (induction xs) auto

lemma strncmp_eq_0_iff:
  "length xs = n \<Longrightarrow> length ys = n \<Longrightarrow> NUL \<notin> set ys \<Longrightarrow> strncmp xs ys n = 0 \<longleftrightarrow> xs = ys"
  by (induction xs ys n rule: strncmp.induct) auto

lemma digit_val_bounds: "isdigit c \<Longrightarrow> 0 \<le> digit_val c \<and> digit_val c \<le> 9"
  by (simp add: isdigit_def digit_val_def)

lemma digit_val_chr [simp]: "0 \<le> d \<Longrightarrow> d \<le> 9 \<Longrightarrow> digit_val (digit_chr d) = d"
  by (simp add: digit_val_def digit_chr_def of_char_of nat_mod_distrib)

lemma isdigit_chr [simp]: "0 \<le> d \<Longrightarrow> d \<le> 9 \<Longrightarrow> isdigit (digit_chr d)"
  by (simp add: isdigit_def digit_chr_def nat_less_iff nat_le_iff)

lemma dec_val_ge: "0 \<le> v \<Longrightarrow> \<forall>d \<in> set ds. isdigit d \<Longrightarrow> v \<le> dec_val v ds"
proof (induction ds arbitrary: v)
  case (Cons d ds)
  have "0 \<le> digit_val d"
    using Cons.prems digit_val_bounds by simp
  then show ?case
    using Cons.IH [of "v * 10 + digit_val d"] Cons.prems by simp
qed simp

lemma dec_val_append: "dec_val v (xs @ ys) = dec_val (dec_val v xs) ys"
  by (induction xs arbitrary: v) simp_all

lemma isdigit_not_NUL: "isdigit c \<Longrightarrow> c \<noteq> NUL"
  by (auto simp: isdigit_def)

lemma int32_id: "- (2 ^ 31) \<le> x \<Longrightarrow> x < 2 ^ 31 \<Longrightarrow> int32 x = x"
  unfolding int32_def by (rule signed_take_bit_int_eq_self) simp_all

lemma int8_id [simp]: "- 128 \<le> x \<Longrightarrow> x \<le> 127 \<Longrightarrow> int8 x = x"
  unfolding int8_def by (rule signed_take_bit_int_eq_self) simp_all

lemma int16_id [simp]: "- 32768 \<le> x \<Longrightarrow> x \<le> 32767 \<Longrightarrow> int16 x = x"
  unfolding int16_def by (rule signed_take_bit_int_eq_self) simp_all

lemma int8_range: "- 128 \<le> int8 x \<and> int8 x \<le> 127"
  unfolding int8_def
  using signed_take_bit_int_greater_eq_minus_exp [of 7 x] signed_take_bit_int_less_exp [of 7 x]
  by simp

lemma ck_int_Some [simp]: "- (2 ^ 31) \<le> x \<Longrightarrow> x < 2 ^ 31 \<Longrightarrow> ck_int x = Some x"
  by (simp add: ck_int_def)

lemma rbind_eq_ret_iff: "rbind m f = ret y \<longleftrightarrow> (\<exists>x. m = ret x \<and> f x = ret y)"
  by (cases "(m, f)" rule: rbind.cases) auto

lemma returns_rbind: "returns m Q \<Longrightarrow> (\<And>x. Q x \<Longrightarrow> returns (f x) R) \<Longrightarrow> returns (rbind m f) R"
  by (cases "(m, f)" rule: rbind.cases) auto

lemma returns_defined: "returns m Q \<Longrightarrow> m \<noteq> None"
  by (cases m) simp_all

lemma returns_mono: "returns m Q \<Longrightarrow> (\<And>x. Q x \<Longrightarrow> R x) \<Longrightarrow> returns m R"
  by (cases "(m, Q)" rule: returns.cases) auto

lemma returns_if: "(b \<Longrightarrow> returns m Q) \<Longrightarrow> (\<not> b \<Longrightarrow> returns m' Q) \<Longrightarrow> returns (if b then m else m') Q"
  by simp

lemma rbind_defined: "m \<noteq> None \<Longrightarrow> (\<And>x. m = ret x \<Longrightarrow> f x \<noteq> None) \<Longrightarrow> rbind m f \<noteq> None"
  by (cases "(m, f)" rule: rbind.cases) auto

lemma sdiv_nonneg [simp]: "0 \<le> a \<Longrightarrow> 0 \<le> b \<Longrightarrow> a sdiv b = a div b" for a b :: int
  by (cases "a = 0"; cases "b = 0") (simp_all add: signed_divide_int_def)

lemma smod_nonneg [simp]: "0 \<le> a \<Longrightarrow> 0 \<le> b \<Longrightarrow> a smod b = a mod b" for a b :: int
  by (cases "a = 0"; cases "b = 0") (simp_all add: signed_modulo_int_def)

lemma int32_range: "- (2 ^ 31) \<le> int32 x \<and> int32 x < 2 ^ 31"
  unfolding int32_def
  using signed_take_bit_int_greater_eq_minus_exp [of 31 x] signed_take_bit_int_less_exp [of 31 x]
  by simp

end
