(* ===== verification/Stringbuf.thy ===== *)
theory Stringbuf
imports Rsyslog_Prelude
begin

text \<open>
  The counted string object of \<^verbatim>\<open>runtime/stringbuf.c\<close>. A \<^verbatim>\<open>cstr_t\<close> is a record of
  the buffer pointer (\<^term>\<open>None\<close> for the null pointer), the allocated size and the string
  length; the buffer is a C buffer of the prelude, so the model keeps the byte behind
  the string that \<^verbatim>\<open>cstrFinalize\<close> fills. An operation returns \<^term>\<open>None\<close> where the code
  would touch memory it does not own or use an uninitialised byte, and otherwise the
  return code with the new object. The argument \<^verbatim>\<open>alloc\<close> says for which sizes
  \<^verbatim>\<open>malloc\<close> and \<^verbatim>\<open>realloc\<close> succeed. The release build (\<^verbatim>\<open>NDEBUG\<close>) is modelled.
\<close>

section \<open>The object\<close>

record cstr =
  pBuf :: "buf option"
  iBufSize :: nat
  iStrLen :: nat

definition RS_STRINGBUF_ALLOC_INCREMENT :: nat where
  "RS_STRINGBUF_ALLOC_INCREMENT = 128"

text \<open>The buffer as a list of cells; the null pointer has none.\<close>

definition cstr_cells :: "cstr \<Rightarrow> buf" where
  "cstr_cells s = (case pBuf s of None \<Rightarrow> [] | Some b \<Rightarrow> b)"

section \<open>Construction\<close>

definition cstr_empty :: "cstr" where
  "cstr_empty = \<lparr> pBuf = None, iBufSize = 0, iStrLen = 0 \<rparr>"

text \<open>The size of \<^verbatim>\<open>cstr_t\<close> on a 64-bit platform.\<close>

definition sizeof_cstr :: nat where
  "sizeof_cstr = 24"

definition cstrConstruct :: "(nat \<Rightarrow> bool) \<Rightarrow> rsRetVal \<times> cstr option" where
  "cstrConstruct alloc =
     (if alloc sizeof_cstr then (RS_RET_OK, Some cstr_empty) else (RS_RET_OUT_OF_MEMORY, None))"

text \<open>
  The constructors that copy a text share their shape: the buffer has room for the text
  and one byte more, and the text is copied without a terminator.
\<close>

definition cstr_of_text :: "(nat \<Rightarrow> bool) \<Rightarrow> char list \<Rightarrow> (rsRetVal \<times> cstr option) option" where
  "cstr_of_text alloc cs =
     (case cstrConstruct alloc of
        (r, None) \<Rightarrow> Some (r, None)
      | (r, Some s) \<Rightarrow>
          if alloc (length cs + 1)
          then do {
            b \<leftarrow> buf_memcpy (buf_new (length cs + 1)) 0 cs;
            Some (RS_RET_OK, Some (s \<lparr> pBuf := Some b, iBufSize := length cs + 1, iStrLen := length cs \<rparr>)) }
          else Some (RS_RET_OUT_OF_MEMORY, None))"

definition rsCStrConstructFromszStr ::
    "(nat \<Rightarrow> bool) \<Rightarrow> char list \<Rightarrow> (rsRetVal \<times> cstr option) option" where
  "rsCStrConstructFromszStr alloc sz = cstr_of_text alloc (take (strlen sz) sz)"

definition cstrConstructFromESStr ::
    "(nat \<Rightarrow> bool) \<Rightarrow> char list \<Rightarrow> (rsRetVal \<times> cstr option) option" where
  "cstrConstructFromESStr alloc es = cstr_of_text alloc es"

definition rsCStrConstructFromCStr ::
    "(nat \<Rightarrow> bool) \<Rightarrow> cstr \<Rightarrow> (rsRetVal \<times> cstr option) option" where
  "rsCStrConstructFromCStr alloc from =
     (case cstrConstruct alloc of
        (r, None) \<Rightarrow> Some (r, None)
      | (r, Some s) \<Rightarrow>
          if 0 < iStrLen from
          then if alloc (iStrLen from + 1)
            then do {
              cs \<leftarrow> buf_read (cstr_cells from) 0 (iStrLen from);
              b \<leftarrow> buf_memcpy (buf_new (iStrLen from + 1)) 0 cs;
              Some (RS_RET_OK,
                Some (s \<lparr> pBuf := Some b, iBufSize := iStrLen from + 1, iStrLen := iStrLen from \<rparr>)) }
            else Some (RS_RET_OUT_OF_MEMORY, None)
          else Some (RS_RET_OK, Some s))"

section \<open>Growing and appending\<close>

definition rsCStrExtendBuf :: "(nat \<Rightarrow> bool) \<Rightarrow> cstr \<Rightarrow> nat \<Rightarrow> rsRetVal \<times> cstr" where
  "rsCStrExtendBuf alloc s iMinNeeded =
     (let iNewSize =
        (if iMinNeeded > RS_STRINGBUF_ALLOC_INCREMENT
         then (iMinNeeded div RS_STRINGBUF_ALLOC_INCREMENT + 1) * RS_STRINGBUF_ALLOC_INCREMENT
         else iBufSize s + RS_STRINGBUF_ALLOC_INCREMENT) + iBufSize s
      in if alloc iNewSize
         then (RS_RET_OK, s \<lparr> iBufSize := iNewSize, pBuf := Some (buf_realloc (cstr_cells s) iNewSize) \<rparr>)
         else (RS_RET_OUT_OF_MEMORY, s))"

definition cstrAppendChar :: "(nat \<Rightarrow> bool) \<Rightarrow> cstr \<Rightarrow> char \<Rightarrow> (rsRetVal \<times> cstr) option" where
  "cstrAppendChar alloc s c =
     (let (r, s1) = (if iStrLen s + 1 \<ge> iBufSize s then rsCStrExtendBuf alloc s 1
                     else (RS_RET_OK, s))
      in if r = RS_RET_OK
         then do {
           b \<leftarrow> buf_put (cstr_cells s1) (iStrLen s1) c;
           Some (RS_RET_OK, s1 \<lparr> pBuf := Some b, iStrLen := iStrLen s1 + 1 \<rparr>) }
         else Some (r, s1))"

definition rsCStrAppendStrWithLen ::
    "(nat \<Rightarrow> bool) \<Rightarrow> cstr \<Rightarrow> char list \<Rightarrow> (rsRetVal \<times> cstr) option" where
  "rsCStrAppendStrWithLen alloc s cs =
     (let (r, s1) = (if iStrLen s + length cs + 1 > iBufSize s
                     then rsCStrExtendBuf alloc s (length cs + 1) else (RS_RET_OK, s))
      in if r = RS_RET_OK
         then do {
           b \<leftarrow> buf_memcpy (cstr_cells s1) (iStrLen s1) cs;
           Some (RS_RET_OK, s1 \<lparr> pBuf := Some b, iStrLen := iStrLen s1 + length cs \<rparr>) }
         else Some (r, s1))"

definition parts_total_len :: "char list list \<Rightarrow> nat" where
  "parts_total_len parts = sum_list (map length parts)"

fun cstr_copy_parts :: "buf \<Rightarrow> nat \<Rightarrow> char list list \<Rightarrow> buf option" where
  "cstr_copy_parts b dst [] = Some b"
| "cstr_copy_parts b dst (p # ps) =
     (if length p = 0 then cstr_copy_parts b dst ps
      else do { b' \<leftarrow> buf_memcpy b dst p; cstr_copy_parts b' (dst + length p) ps })"

definition rsCStrAppendParts ::
    "(nat \<Rightarrow> bool) \<Rightarrow> cstr \<Rightarrow> char list list \<Rightarrow> (rsRetVal \<times> cstr) option" where
  "rsCStrAppendParts alloc s parts =
     (let total_len = parts_total_len parts in
      if total_len = 0 then Some (RS_RET_OK, s)
      else let (r, s1) = (if iStrLen s + total_len + 1 > iBufSize s
                          then rsCStrExtendBuf alloc s (total_len + 1) else (RS_RET_OK, s))
        in if r = RS_RET_OK
           then do {
             b \<leftarrow> cstr_copy_parts (cstr_cells s1) (iStrLen s1) parts;
             Some (RS_RET_OK, s1 \<lparr> pBuf := Some b, iStrLen := iStrLen s1 + total_len \<rparr>) }
           else Some (r, s1))"

definition rsCStrAppendStr :: "(nat \<Rightarrow> bool) \<Rightarrow> cstr \<Rightarrow> char list \<Rightarrow> (rsRetVal \<times> cstr) option" where
  "rsCStrAppendStr alloc s psz = rsCStrAppendStrWithLen alloc s (take (strlen psz) psz)"

definition cstrAppendCStr :: "(nat \<Rightarrow> bool) \<Rightarrow> cstr \<Rightarrow> cstr \<Rightarrow> (rsRetVal \<times> cstr) option" where
  "cstrAppendCStr alloc s a =
     do { cs \<leftarrow> buf_read (cstr_cells a) 0 (iStrLen a); rsCStrAppendStrWithLen alloc s cs }"

section \<open>Replacing, finalizing and handing out the text\<close>

definition rsCStrSetSzStr :: "(nat \<Rightarrow> bool) \<Rightarrow> cstr \<Rightarrow> char list option \<Rightarrow> (rsRetVal \<times> cstr) option" where
  "rsCStrSetSzStr alloc s pszNew =
     (case pszNew of
        None \<Rightarrow> Some (RS_RET_OK, s \<lparr> pBuf := None, iStrLen := 0, iBufSize := 0 \<rparr>)
      | Some new \<Rightarrow>
          (let newlen = strlen new in
           if newlen > iBufSize s \<and> \<not> alloc (newlen + 1) then Some (RS_RET_OUT_OF_MEMORY, s)
           else
             let s1 = (if newlen > iBufSize s
               then s \<lparr> pBuf := Some (buf_realloc (cstr_cells s) (newlen + 1)), iBufSize := newlen + 1 \<rparr>
               else s);
               s2 = s1 \<lparr> iStrLen := newlen \<rparr>
             in if newlen = 0
                then (case pBuf s2 of
                        None \<Rightarrow> Some (RS_RET_OK, s2)
                      | Some b \<Rightarrow> do { b' \<leftarrow> buf_put b 0 NUL; Some (RS_RET_OK, s2 \<lparr> pBuf := Some b' \<rparr>) })
                else do { b' \<leftarrow> buf_memcpy (cstr_cells s2) 0 (take newlen new);
                          Some (RS_RET_OK, s2 \<lparr> pBuf := Some b' \<rparr>) }))"

definition cstrFinalize :: "cstr \<Rightarrow> cstr option" where
  "cstrFinalize s =
     (if 0 < iStrLen s
      then do { b \<leftarrow> buf_put (cstr_cells s) (iStrLen s) NUL; Some (s \<lparr> pBuf := Some b \<rparr>) }
      else Some s)"

text \<open>
  The pointer \<^verbatim>\<open>cstrGetSzStrNoNULL\<close> returns, and the C string a caller reads through it.
\<close>

definition cstrGetSzStrNoNULL :: "cstr \<Rightarrow> buf" where
  "cstrGetSzStrNoNULL s = (case pBuf s of None \<Rightarrow> [Some NUL] | Some b \<Rightarrow> b)"

definition cstrConvSzStrAndDestruct ::
    "(nat \<Rightarrow> bool) \<Rightarrow> cstr \<Rightarrow> bool \<Rightarrow> (rsRetVal \<times> buf option) option" where
  "cstrConvSzStrAndDestruct alloc s bRetNULL =
     (case pBuf s of
        None \<Rightarrow> if \<not> bRetNULL
          then if alloc 1 then Some (RS_RET_OK, Some [Some NUL]) else Some (RS_RET_OUT_OF_MEMORY, None)
          else Some (RS_RET_OK, None)
      | Some b \<Rightarrow> do { b' \<leftarrow> buf_put b (iStrLen s) NUL; Some (RS_RET_OK, Some b') })"

definition rsCStrTruncate :: "cstr \<Rightarrow> nat \<Rightarrow> rsRetVal \<times> cstr" where
  "rsCStrTruncate s nTrunc =
     (if iStrLen s < nTrunc then (RS_TRUNCAT_TOO_LARGE, s)
      else (RS_RET_OK, s \<lparr> iStrLen := iStrLen s - nTrunc \<rparr>))"

text \<open>
  The loop of \<^verbatim>\<open>cstrTrimTrailingWhiteSpace\<close>: \<^term>\<open>i\<close> is the length still kept. The code keeps it
  in an \<^verbatim>\<open>int\<close>; a length that does not fit is truncated on assignment, and the loop is not entered
  when the result is not positive.
\<close>

fun trim_loop :: "buf \<Rightarrow> nat \<Rightarrow> nat option" where
  "trim_loop b 0 = Some 0"
| "trim_loop b (Suc i) =
     do { c \<leftarrow> buf_get b i; if isspace c then trim_loop b i else Some (Suc i) }"

definition cstrTrimTrailingWhiteSpace :: "cstr \<Rightarrow> cstr option" where
  "cstrTrimTrailingWhiteSpace s =
     (if iStrLen s = 0 then Some s
      else do {
        let n = int32 (int (iStrLen s));
        i \<leftarrow> (if 0 < n then map_option int (trim_loop (cstr_cells s) (nat n)) else Some n);
        if i \<noteq> n
        then do { b \<leftarrow> buf_put (cstr_cells s) (nat i) NUL; Some (s \<lparr> iStrLen := nat i, pBuf := Some b \<rparr>) }
        else Some s })"

section \<open>Comparing and searching\<close>

definition rsCStrCStrCmp :: "cstr \<Rightarrow> cstr \<Rightarrow> int option" where
  "rsCStrCStrCmp s1 s2 =
     (if iStrLen s1 = iStrLen s2
      then if iStrLen s1 = 0 then Some 0
        else do { a \<leftarrow> buf_read (cstr_cells s1) 0 (iStrLen s1);
                  b \<leftarrow> buf_read (cstr_cells s2) 0 (iStrLen s1); Some (memcmp a b) }
      else Some (int32 (int (iStrLen s1) - int (iStrLen s2))))"

definition rsCStrSzStrStartsWithCStr :: "cstr \<Rightarrow> char list \<Rightarrow> nat \<Rightarrow> int option" where
  "rsCStrSzStrStartsWithCStr s psz iLenSz =
     (if iLenSz \<ge> iStrLen s
      then if iStrLen s = 0 then Some 0
        else do { b \<leftarrow> buf_read (cstr_cells s) 0 (iStrLen s);
                  Some (memcmp (take (iStrLen s) psz) b) }
      else Some (- 1))"

definition rsCStrSzStrEndsWithCStr :: "cstr \<Rightarrow> char list \<Rightarrow> nat \<Rightarrow> int option" where
  "rsCStrSzStrEndsWithCStr s psz iLenSz =
     (if iLenSz \<ge> iStrLen s
      then if iStrLen s = 0 then Some 0
        else do { b \<leftarrow> buf_read (cstr_cells s) 0 (iStrLen s);
                  Some (memcmp (take (iStrLen s) (drop (iLenSz - iStrLen s) psz)) b) }
      else Some (- 1))"

definition rsCStrOffsetSzStrCmp :: "cstr \<Rightarrow> nat \<Rightarrow> char list \<Rightarrow> nat \<Rightarrow> int option" where
  "rsCStrOffsetSzStrCmp s iOffset psz iLenSz =
     (if int (iStrLen s) - int iOffset = int iLenSz
      then if iLenSz = 0 then Some 0
        else do { b \<leftarrow> buf_read (cstr_cells s) iOffset iLenSz;
                  Some (memcmp b (take iLenSz psz)) }
      else Some (int32 (int (iStrLen s) - int iOffset - int iLenSz)))"

definition rsCStrSzStrCmp :: "cstr \<Rightarrow> char list \<Rightarrow> nat \<Rightarrow> int option" where
  "rsCStrSzStrCmp s psz iLenSz =
     (if iStrLen s = iLenSz
      then if iLenSz = 0 then Some 0
        else do { b \<leftarrow> buf_read (cstr_cells s) 0 iLenSz; Some (strncmp b psz iLenSz) }
      else Some (int32 (int (iStrLen s) - int iLenSz)))"

text \<open>
  The nested loops of \<^verbatim>\<open>rsCStrLocateInSzStr\<close>: \<^term>\<open>match_at\<close> is the inner comparison from
  one start position, \<^term>\<open>locate_loop\<close> the outer one, with the number of start positions
  left as its recursion argument.
\<close>

fun match_at :: "char list \<Rightarrow> char list \<Rightarrow> bool" where
  "match_at pat [] = (pat = [])"
| "match_at [] text = True"
| "match_at (p # ps) (t # ts) = (p = t \<and> match_at ps ts)"

fun locate_loop :: "char list \<Rightarrow> char list \<Rightarrow> nat \<Rightarrow> nat \<Rightarrow> int" where
  "locate_loop pat sz i 0 = - 1"
| "locate_loop pat sz i (Suc n) =
     (if match_at pat (drop i sz) then int i else locate_loop pat sz (i + 1) n)"

definition rsCStrLocateInSzStr :: "cstr \<Rightarrow> char list \<Rightarrow> int option" where
  "rsCStrLocateInSzStr s sz =
     (let len_sz = strlen sz in
      if iStrLen s = 0 then Some 0
      else if iStrLen s > len_sz then Some (- 1)
      else do { pat \<leftarrow> buf_read (cstr_cells s) 0 (iStrLen s);
                Some (int32 (locate_loop pat sz 0 (len_sz - iStrLen s + 1))) })"

section \<open>Invariant and represented text\<close>

text \<open>
  The buffer has the recorded size, the text is initialised, and one byte behind the text
  is free for the terminator unless nothing was allocated yet.
\<close>

definition cstr_wf :: "cstr \<Rightarrow> bool" where
  "cstr_wf s \<longleftrightarrow> length (cstr_cells s) = iBufSize s
     \<and> (iStrLen s < iBufSize s \<or> pBuf s = None \<and> iStrLen s = 0)
     \<and> None \<notin> set (take (iStrLen s) (cstr_cells s))"

definition cstr_val :: "cstr \<Rightarrow> char list" where
  "cstr_val s = map the (take (iStrLen s) (cstr_cells s))"

text \<open>
  The operations that change an object, as commands, with the code's execution of each and
  its meaning on plain texts.
\<close>

datatype cstr_op =
    OpAppendChar char
  | OpAppendStr "char list"
  | OpAppendParts "char list list"
  | OpTruncate nat
  | OpTrim
  | OpFinalize

fun cstr_exec :: "(nat \<Rightarrow> bool) \<Rightarrow> cstr_op \<Rightarrow> cstr \<Rightarrow> (rsRetVal \<times> cstr) option" where
  "cstr_exec alloc (OpAppendChar c) s = cstrAppendChar alloc s c"
| "cstr_exec alloc (OpAppendStr cs) s = rsCStrAppendStr alloc s cs"
| "cstr_exec alloc (OpAppendParts ps) s = rsCStrAppendParts alloc s ps"
| "cstr_exec alloc (OpTruncate n) s = Some (rsCStrTruncate s n)"
| "cstr_exec alloc OpTrim s = map_option (Pair RS_RET_OK) (cstrTrimTrailingWhiteSpace s)"
| "cstr_exec alloc OpFinalize s = map_option (Pair RS_RET_OK) (cstrFinalize s)"

fun cstr_run :: "(nat \<Rightarrow> bool) \<Rightarrow> cstr_op list \<Rightarrow> cstr \<Rightarrow> (rsRetVal list \<times> cstr) option" where
  "cstr_run alloc [] s = Some ([], s)"
| "cstr_run alloc (op # ops) s =
     do { (r, s1) \<leftarrow> cstr_exec alloc op s; (rs, s2) \<leftarrow> cstr_run alloc ops s1; Some (r # rs, s2) }"

definition rtrim :: "char list \<Rightarrow> char list" where
  "rtrim cs = rev (dropWhile isspace (rev cs))"

fun text_op :: "cstr_op \<Rightarrow> char list \<Rightarrow> char list" where
  "text_op (OpAppendChar c) t = t @ [c]"
| "text_op (OpAppendStr cs) t = t @ takeWhile (\<lambda>c. c \<noteq> NUL) cs"
| "text_op (OpAppendParts ps) t = t @ concat ps"
| "text_op (OpTruncate n) t = take (length t - n) t"
| "text_op OpTrim t = rtrim t"
| "text_op OpFinalize t = t"

text \<open>The number of bytes an operation can add.\<close>

fun op_len :: "cstr_op \<Rightarrow> nat" where
  "op_len (OpAppendChar c) = 1"
| "op_len (OpAppendStr cs) = length cs"
| "op_len (OpAppendParts ps) = length (concat ps)"
| "op_len _ = 0"

text \<open>An operation that reports an error leaves the text as it was.\<close>

fun text_run :: "(cstr_op \<times> rsRetVal) list \<Rightarrow> char list \<Rightarrow> char list" where
  "text_run [] t = t"
| "text_run ((op, r) # ops) t = text_run ops (if r = RS_RET_OK then text_op op t else t)"

section \<open>Facts on the invariant\<close>

lemma cstr_wf_construct [simp, wf_intros]: "cstr_wf cstr_empty"
  by (simp add: cstr_wf_def cstr_empty_def cstr_cells_def)

lemma cstr_val_construct [simp]: "cstr_val cstr_empty = []"
  by (simp add: cstr_val_def cstr_empty_def)

lemma cstr_wf_len: "cstr_wf s \<Longrightarrow> iStrLen s \<le> length (cstr_cells s)"
  by (auto simp: cstr_wf_def)

lemma length_cstr_val [simp]: "cstr_wf s \<Longrightarrow> length (cstr_val s) = iStrLen s"
  by (simp add: cstr_val_def cstr_wf_len)

lemma map_Some_the: "None \<notin> set xs \<Longrightarrow> map Some (map the xs) = xs"
  by (induction xs) auto

lemma cstr_cells_prefix: "cstr_wf s \<Longrightarrow> take (iStrLen s) (cstr_cells s) = map Some (cstr_val s)"
  unfolding cstr_val_def by (simp add: cstr_wf_def map_Some_the del: map_map)

lemma cstr_cells_split:
  "cstr_wf s \<Longrightarrow> cstr_cells s = map Some (cstr_val s) @ drop (iStrLen s) (cstr_cells s)"
  by (metis append_take_drop_id cstr_cells_prefix)

lemma buf_read_cstr [mem_simps]:
  "cstr_wf s \<Longrightarrow> buf_read (cstr_cells s) 0 (iStrLen s) = Some (cstr_val s)"
  by (simp add: buf_read_prefix_iff cstr_cells_prefix cstr_wf_len)

lemma cstr_nonempty_buf: "cstr_wf s \<Longrightarrow> 0 < iStrLen s \<Longrightarrow> iStrLen s < iBufSize s"
  by (auto simp: cstr_wf_def)

text \<open>
  How the invariant and the text are established: by an explicit prefix of written cells
  with at least one cell more behind it.
\<close>

lemma cstr_wfI:
  assumes "pBuf s = Some b" "length b = iBufSize s" "iStrLen s < iBufSize s"
    and "take (iStrLen s) b = map Some cs"
  shows "cstr_wf s \<and> cstr_val s = cs"
  using assms by (auto simp: cstr_wf_def cstr_val_def cstr_cells_def comp_def)

section \<open>Facts on the operations\<close>

lemma extend_grows:
  assumes "rsCStrExtendBuf alloc s n = (r, s1)"
  shows "r = RS_RET_OK \<and> iBufSize s + max n 128 \<le> iBufSize s1 \<or> r = RS_RET_OUT_OF_MEMORY \<and> s1 = s"
proof -
  have "n \<le> (n div 128 + 1) * 128"
    using div_mult_mod_eq [of n 128] mod_less_divisor [of 128 n] by simp
  with assms show ?thesis
    by (auto simp: rsCStrExtendBuf_def RS_STRINGBUF_ALLOC_INCREMENT_def Let_def split: if_splits)
qed

lemma extend_ok:
  assumes "cstr_wf s" "rsCStrExtendBuf alloc s n = (RS_RET_OK, s1)"
  shows "cstr_wf s1 \<and> cstr_val s1 = cstr_val s \<and> iStrLen s1 = iStrLen s"
proof -
  have le: "iStrLen s \<le> length (cstr_cells s)" and eq: "length (cstr_cells s) = iBufSize s"
    using assms(1) by (auto simp: cstr_wf_def)
  obtain N where s1: "s1 = s \<lparr> iBufSize := N, pBuf := Some (buf_realloc (cstr_cells s) N) \<rparr>"
    using assms(2) by (auto simp: rsCStrExtendBuf_def Let_def split: if_splits)
  have N: "iBufSize s + max n 128 \<le> N"
    using extend_grows [OF assms(2)] by (auto simp: s1)
  have "take (iStrLen s) (buf_realloc (cstr_cells s) N) = map Some (cstr_val s)"
    using N le eq by (simp add: buf_realloc_def cstr_cells_prefix [OF assms(1), symmetric])
  with N le eq show ?thesis
    using cstr_wfI [of s1 "buf_realloc (cstr_cells s) N" "cstr_val s"] by (simp add: s1)
qed

text \<open>Room is made before every write; \<^term>\<open>need\<close> counts the bytes behind the text.\<close>

lemma reserve_cases:
  assumes "cstr_wf s"
    and "(if test then rsCStrExtendBuf alloc s n else (RS_RET_OK, s)) = (r, s1)"
    and "\<not> test \<Longrightarrow> iStrLen s + need \<le> iBufSize s"
    and "need \<le> max n 127"
  obtains "r = RS_RET_OUT_OF_MEMORY" "s1 = s"
  | "r = RS_RET_OK" "cstr_wf s1" "cstr_val s1 = cstr_val s" "iStrLen s1 = iStrLen s"
    "iStrLen s + need \<le> iBufSize s1"
proof (cases test)
  case True
  have le: "iStrLen s \<le> iBufSize s"
    using assms(1) by (auto simp: cstr_wf_def)
  show ?thesis
    using extend_grows [of alloc s n r s1] extend_ok [of s alloc n s1] assms True le that
    by fastforce
next
  case False
  then show ?thesis
    using assms that by auto
qed

text \<open>A text written behind the current one leaves the invariant as it should be.\<close>

lemma memcpy_append:
  assumes "cstr_wf s" "iStrLen s + length cs < iBufSize s"
  shows "\<exists>b. buf_memcpy (cstr_cells s) (iStrLen s) cs = Some b \<and> length b = iBufSize s
    \<and> take (iStrLen s + length cs) b = map Some (cstr_val s @ cs)"
proof -
  have len: "length (cstr_cells s) = iBufSize s"
    using assms by (simp add: cstr_wf_def)
  show ?thesis
    using assms len by (simp add: buf_memcpy_def cstr_cells_prefix)
qed

lemma buf_put_as_memcpy: "buf_put b i c = buf_memcpy b i [c]"
  by (auto simp: buf_put_def buf_memcpy_def upd_conv_take_nth_drop)

lemma append_at_end:
  assumes "cstr_wf s" "iStrLen s + length cs < iBufSize s"
  shows "\<exists>b. buf_memcpy (cstr_cells s) (iStrLen s) cs = Some b
    \<and> cstr_wf (s \<lparr> pBuf := Some b, iStrLen := iStrLen s + length cs \<rparr>)
    \<and> cstr_val (s \<lparr> pBuf := Some b, iStrLen := iStrLen s + length cs \<rparr>) = cstr_val s @ cs"
proof -
  obtain b where b: "buf_memcpy (cstr_cells s) (iStrLen s) cs = Some b" "length b = iBufSize s"
      "take (iStrLen s + length cs) b = map Some (cstr_val s @ cs)"
    using memcpy_append [OF assms] by blast
  then show ?thesis
    using cstr_wfI [of "s \<lparr> pBuf := Some b, iStrLen := iStrLen s + length cs \<rparr>" b
        "cstr_val s @ cs"] assms(2) by simp
qed

text \<open>The contract every appending operation meets.\<close>

definition appends :: "cstr \<Rightarrow> char list \<Rightarrow> (rsRetVal \<times> cstr) option \<Rightarrow> bool" where
  "appends s cs res \<longleftrightarrow> (\<exists>r s'. res = Some (r, s') \<and> cstr_wf s'
     \<and> (r = RS_RET_OK \<and> cstr_val s' = cstr_val s @ cs
        \<or> r = RS_RET_OUT_OF_MEMORY \<and> s' = s))"

lemma cstrAppendChar_appends:
  assumes "cstr_wf s"
  shows "appends s [c] (cstrAppendChar alloc s c)"
proof -
  obtain r s1 where e: "(if iBufSize s \<le> iStrLen s + 1 then rsCStrExtendBuf alloc s 1
      else (RS_RET_OK, s)) = (r, s1)"
    by (meson surj_pair)
  show ?thesis
  proof (rule reserve_cases [OF assms e, of 2])
    show "\<not> iBufSize s \<le> iStrLen s + 1 \<Longrightarrow> iStrLen s + 2 \<le> iBufSize s"
      by simp
  next
    assume "r = RS_RET_OUT_OF_MEMORY" "s1 = s"
    then show ?thesis
      using assms e by (simp add: appends_def cstrAppendChar_def)
  next
    assume a: "r = RS_RET_OK" "cstr_wf s1" "cstr_val s1 = cstr_val s" "iStrLen s1 = iStrLen s"
      "iStrLen s + 2 \<le> iBufSize s1"
    then show ?thesis
      using append_at_end [of s1 "[c]"] e
      by (auto simp: appends_def cstrAppendChar_def buf_put_as_memcpy)
  qed simp
qed

lemma rsCStrAppendStrWithLen_appends:
  assumes "cstr_wf s"
  shows "appends s cs (rsCStrAppendStrWithLen alloc s cs)"
proof -
  obtain r s1 where e: "(if iBufSize s < iStrLen s + length cs + 1
      then rsCStrExtendBuf alloc s (length cs + 1) else (RS_RET_OK, s)) = (r, s1)"
    by (meson surj_pair)
  show ?thesis
  proof (rule reserve_cases [OF assms e, of "length cs + 1"])
    assume "r = RS_RET_OUT_OF_MEMORY" "s1 = s"
    then show ?thesis
      using assms e by (simp add: appends_def rsCStrAppendStrWithLen_def)
  next
    assume a: "r = RS_RET_OK" "cstr_wf s1" "cstr_val s1 = cstr_val s" "iStrLen s1 = iStrLen s"
      "iStrLen s + (length cs + 1) \<le> iBufSize s1"
    then show ?thesis
      using append_at_end [of s1 cs] e
      by (auto simp: appends_def rsCStrAppendStrWithLen_def)
  qed simp_all
qed

text \<open>Copying the parts one after the other is one copy of their concatenation.\<close>

lemma buf_memcpy_twice:
  "buf_memcpy b dst p = Some b' \<Longrightarrow> buf_memcpy b' (dst + length p) q = buf_memcpy b dst (p @ q)"
  by (auto simp: buf_memcpy_def ac_simps split: if_splits)

lemma buf_memcpy_nil: "dst \<le> length b \<Longrightarrow> buf_memcpy b dst [] = Some b"
  by (simp add: buf_memcpy_def)

lemma cstr_copy_parts_concat:
  "dst + parts_total_len ps \<le> length b \<Longrightarrow> cstr_copy_parts b dst ps = buf_memcpy b dst (concat ps)"
proof (induction ps arbitrary: b dst)
  case Nil
  then show ?case
    by (simp add: buf_memcpy_nil parts_total_len_def)
next
  case (Cons p ps)
  have le: "dst + length p + parts_total_len ps \<le> length b"
    using Cons.prems by (simp add: parts_total_len_def)
  show ?case
  proof (cases "p = []")
    case True
    then show ?thesis
      using Cons.IH le by simp
  next
    case False
    obtain b' where b': "buf_memcpy b dst p = Some b'" "length b' = length b"
      using le by (auto simp: buf_memcpy_def)
    show ?thesis
      using False b' le Cons.IH [of "dst + length p" b'] buf_memcpy_twice [OF b'(1)] by simp
  qed
qed

lemma parts_total_len_concat: "parts_total_len ps = length (concat ps)"
  by (simp add: parts_total_len_def length_concat)

lemma rsCStrAppendParts_appends:
  assumes "cstr_wf s"
  shows "appends s (concat ps) (rsCStrAppendParts alloc s ps)"
proof (cases "parts_total_len ps = 0")
  case True
  then have "concat ps = []"
    by (simp only: parts_total_len_concat length_0_conv)
  then show ?thesis
    using assms True by (auto simp: appends_def rsCStrAppendParts_def Let_def)
next
  case False
  obtain r s1 where e: "(if iBufSize s < iStrLen s + parts_total_len ps + 1
      then rsCStrExtendBuf alloc s (parts_total_len ps + 1) else (RS_RET_OK, s)) = (r, s1)"
    by (meson surj_pair)
  show ?thesis
  proof (rule reserve_cases [OF assms e, of "parts_total_len ps + 1"])
    assume "r = RS_RET_OUT_OF_MEMORY" "s1 = s"
    then show ?thesis
      using assms e False by (simp add: appends_def rsCStrAppendParts_def)
  next
    assume a: "r = RS_RET_OK" "cstr_wf s1" "cstr_val s1 = cstr_val s" "iStrLen s1 = iStrLen s"
      "iStrLen s + (parts_total_len ps + 1) \<le> iBufSize s1"
    have "length (cstr_cells s1) = iBufSize s1"
      using a(2) by (simp add: cstr_wf_def)
    then have "cstr_copy_parts (cstr_cells s1) (iStrLen s1) ps
        = buf_memcpy (cstr_cells s1) (iStrLen s1) (concat ps)"
      using a by (simp add: cstr_copy_parts_concat)
    then show ?thesis
      using a False append_at_end [of s1 "concat ps", folded parts_total_len_concat] e
      by (auto simp: appends_def rsCStrAppendParts_def)
  qed simp_all
qed

lemma take_strlen: "take (strlen sz) sz = takeWhile (\<lambda>c. c \<noteq> NUL) sz"
  by (simp add: strlen_def takeWhile_eq_take [symmetric])

lemma truncate_wf:
  "cstr_wf s \<Longrightarrow> n \<le> iStrLen s \<Longrightarrow>
    cstr_wf (s \<lparr> iStrLen := iStrLen s - n \<rparr>)
    \<and> cstr_val (s \<lparr> iStrLen := iStrLen s - n \<rparr>) = take (iStrLen s - n) (cstr_val s)"
  using set_take_subset_set_take [of "iStrLen s - n" "iStrLen s" "cstr_cells s"]
  by (auto simp: cstr_wf_def cstr_val_def cstr_cells_def take_map min_def split: option.splits)

lemma cstrFinalize_ok:
  assumes "cstr_wf s"
  shows "\<exists>s'. cstrFinalize s = Some s' \<and> cstr_wf s' \<and> cstr_val s' = cstr_val s
    \<and> iStrLen s' = iStrLen s \<and> (0 < iStrLen s \<longrightarrow>
        (\<exists>b. pBuf s' = Some b \<and> iStrLen s < length b \<and> b ! iStrLen s = Some NUL))"
proof (cases "0 < iStrLen s")
  case True
  have lt: "iStrLen s < iBufSize s" and len: "length (cstr_cells s) = iBufSize s"
    using True assms by (auto simp: cstr_wf_def)
  let ?b = "(cstr_cells s)[iStrLen s := Some NUL]"
  have "take (iStrLen s) ?b = map Some (cstr_val s)"
    by (simp add: cstr_cells_prefix [OF assms, symmetric])
  then show ?thesis
    using cstr_wfI [of "s \<lparr> pBuf := Some ?b \<rparr>" ?b "cstr_val s"] lt len True
    by (simp add: cstrFinalize_def buf_put_Some)
next
  case False
  then show ?thesis
    using assms by (simp add: cstrFinalize_def)
qed

lemma trim_loop_rtrim:
  "take n b = map Some cs \<Longrightarrow> length cs = n \<Longrightarrow> n \<le> length b \<Longrightarrow> trim_loop b n = Some (length (rtrim cs))"
proof (induction n arbitrary: cs)
  case 0
  then show ?case
    by (simp add: rtrim_def)
next
  case (Suc n)
  then obtain c ds where cs: "cs = ds @ [c]"
    by (cases cs rule: rev_cases) auto
  have "take n b @ [b ! n] = map Some ds @ [Some c]"
    using Suc.prems by (simp add: cs take_Suc_conv_app_nth)
  then have pre: "take n b = map Some ds" "b ! n = Some c"
    by simp_all
  have "trim_loop b n = Some (length (rtrim ds))"
    using Suc.IH [of ds] Suc.prems pre cs by simp
  then show ?case
    using Suc.prems pre by (simp add: cs buf_get_def rtrim_def)
qed

lemma rtrim_prefix: "rtrim cs = take (length (rtrim cs)) cs"
proof -
  have "cs = rtrim cs @ rev (takeWhile isspace (rev cs))"
    unfolding rtrim_def by (metis rev_append rev_rev_ident takeWhile_dropWhile_id)
  then show ?thesis
    by (metis append_eq_conv_conj)
qed

lemma length_rtrim_le: "length (rtrim cs) \<le> length cs"
  by (simp add: rtrim_def length_dropWhile_le [of isspace "rev cs", simplified])

lemma cstrTrim_ok:
  assumes "cstr_wf s" "length (cstr_val s) < 2 ^ 31"
  shows "\<exists>s'. cstrTrimTrailingWhiteSpace s = Some s' \<and> cstr_wf s' \<and> cstr_val s' = rtrim (cstr_val s)"
proof (cases "iStrLen s = 0")
  case True
  then have "cstr_val s = []"
    by (simp add: cstr_val_def)
  then show ?thesis
    using assms(1) True by (simp add: cstrTrimTrailingWhiteSpace_def rtrim_def)
next
  case False
  let ?n = "length (rtrim (cstr_val s))"
  let ?b = "(cstr_cells s)[?n := Some NUL]"
  have loop: "trim_loop (cstr_cells s) (iStrLen s) = Some ?n"
    using trim_loop_rtrim [OF cstr_cells_prefix [OF assms(1)]] assms(1) by (simp add: cstr_wf_len)
  have n: "int32 (int (iStrLen s)) = int (iStrLen s)"
    using assms by (intro int32_id) simp_all
  have le: "?n \<le> iStrLen s"
    using length_rtrim_le [of "cstr_val s"] assms(1) by simp
  have lt: "iStrLen s < iBufSize s" and len: "length (cstr_cells s) = iBufSize s"
    using False assms(1) by (auto simp: cstr_wf_def)
  have "take ?n (cstr_cells s) = map Some (take ?n (cstr_val s))"
    using cstr_cells_prefix [OF assms(1)] le by (metis min.absorb1 take_map take_take)
  then have "take ?n ?b = map Some (rtrim (cstr_val s))"
    by (simp add: rtrim_prefix [symmetric])
  then show ?thesis
    using False loop n le lt len assms(1) rtrim_prefix [of "cstr_val s"]
      cstr_wfI [of "s \<lparr> iStrLen := ?n, pBuf := Some ?b \<rparr>" ?b "rtrim (cstr_val s)"]
    by (auto simp: cstrTrimTrailingWhiteSpace_def buf_put_Some Let_def)
qed

lemma cstr_exec_refines:
  assumes "cstr_wf s" "op = OpTrim \<longrightarrow> length (cstr_val s) < 2 ^ 31"
  shows "\<exists>r s'. cstr_exec alloc op s = Some (r, s') \<and> cstr_wf s'
    \<and> cstr_val s' = (if r = RS_RET_OK then text_op op (cstr_val s) else cstr_val s)"
proof (cases op)
  case (OpAppendChar c)
  then show ?thesis
    using cstrAppendChar_appends [OF assms(1), of c alloc] by (fastforce simp: appends_def)
next
  case (OpAppendStr cs)
  then show ?thesis
    using rsCStrAppendStrWithLen_appends [OF assms(1), of "takeWhile (\<lambda>c. c \<noteq> NUL) cs" alloc]
    by (fastforce simp: appends_def rsCStrAppendStr_def take_strlen)
next
  case (OpAppendParts ps)
  then show ?thesis
    using rsCStrAppendParts_appends [OF assms(1), of ps alloc] by (fastforce simp: appends_def)
next
  case (OpTruncate n)
  then show ?thesis
    using truncate_wf [OF assms(1), of n] assms(1) by (auto simp: rsCStrTruncate_def)
next
  case OpTrim
  then show ?thesis
    using cstrTrim_ok [OF assms(1)] assms(2) by auto
next
  case OpFinalize
  then show ?thesis
    using cstrFinalize_ok [OF assms(1)] by auto
qed

lemma length_text_op: "length (text_op op t) \<le> length t + op_len op"
  by (cases op) (simp_all add: length_takeWhile_le length_rtrim_le)

lemma cstr_run_refines:
  assumes "cstr_wf s" "OpTrim \<in> set ops \<longrightarrow> length (cstr_val s) + sum_list (map op_len ops) < 2 ^ 31"
  shows "\<exists>rs s'. cstr_run alloc ops s = Some (rs, s') \<and> length rs = length ops \<and> cstr_wf s'
    \<and> cstr_val s' = text_run (zip ops rs) (cstr_val s)"
  using assms
proof (induction ops arbitrary: s)
  case Nil
  then show ?case
    by simp
next
  case (Cons op ops)
  have "op = OpTrim \<longrightarrow> length (cstr_val s) < 2 ^ 31"
    using Cons.prems(2) by auto
  then obtain r s1 where 1: "cstr_exec alloc op s = Some (r, s1)" "cstr_wf s1"
      "cstr_val s1 = (if r = RS_RET_OK then text_op op (cstr_val s) else cstr_val s)"
    using cstr_exec_refines [OF Cons.prems(1)] by blast
  have "length (cstr_val s1) \<le> length (cstr_val s) + op_len op"
    using 1(3) length_text_op [of op "cstr_val s"] by simp
  then have "OpTrim \<in> set ops \<longrightarrow> length (cstr_val s1) + sum_list (map op_len ops) < 2 ^ 31"
    using Cons.prems(2) by auto
  then obtain rs s2 where 2: "cstr_run alloc ops s1 = Some (rs, s2)" "length rs = length ops"
      "cstr_wf s2" "cstr_val s2 = text_run (zip ops rs) (cstr_val s1)"
    using Cons.IH [OF 1(2)] by blast
  show ?case
    using 1 2 by simp
qed

section \<open>The interface the parsers build texts with\<close>

text \<open>
  A client appends character after character and stops at the first error. What it relies
  on is the contract below; the code's objects meet it for every behaviour of the allocator.
\<close>

fun append_all :: "('s \<Rightarrow> char \<Rightarrow> (rsRetVal \<times> 's) option) \<Rightarrow> 's \<Rightarrow> char list \<Rightarrow> (rsRetVal \<times> 's) option" where
  "append_all app s [] = Some (RS_RET_OK, s)"
| "append_all app s (c # cs) =
     do { (r, s1) \<leftarrow> app s c; if r = RS_RET_OK then append_all app s1 cs else Some (r, s1) }"

locale text_builder =
  fixes empty :: 's
    and app :: "'s \<Rightarrow> char \<Rightarrow> (rsRetVal \<times> 's) option"
    and val :: "'s \<Rightarrow> char list"
    and inv :: "'s \<Rightarrow> bool"
  assumes inv_empty: "inv empty"
    and val_empty: "val empty = []"
    and app_total: "inv s \<Longrightarrow> \<exists>r s'. app s c = Some (r, s')"
    and app_inv: "inv s \<Longrightarrow> app s c = Some (r, s') \<Longrightarrow> inv s'"
    and app_val: "inv s \<Longrightarrow> app s c = Some (RS_RET_OK, s') \<Longrightarrow> val s' = val s @ [c]"
    and app_err: "inv s \<Longrightarrow> app s c = Some (r, s') \<Longrightarrow> r = RS_RET_OK \<or> r = RS_RET_OUT_OF_MEMORY"
begin

lemma append_all_total:
  "inv s \<Longrightarrow> \<exists>r s'. append_all app s cs = Some (r, s') \<and> inv s'
    \<and> (r = RS_RET_OK \<and> val s' = val s @ cs \<or> r = RS_RET_OUT_OF_MEMORY)"
proof (induction cs arbitrary: s)
  case Nil
  then show ?case
    by simp
next
  case (Cons c cs)
  obtain r s1 where 1: "app s c = Some (r, s1)"
    using app_total [OF Cons.prems] by blast
  have inv1: "inv s1"
    using app_inv [OF Cons.prems 1] .
  show ?case
  proof (cases "r = RS_RET_OK")
    case True
    then show ?thesis
      using Cons.IH [OF inv1] 1 app_val [OF Cons.prems, of c s1] by auto
  next
    case False
    then show ?thesis
      using 1 inv1 app_err [OF Cons.prems 1] by auto
  qed
qed

lemma append_all_ok:
  "inv s \<Longrightarrow> append_all app s cs = Some (RS_RET_OK, s') \<Longrightarrow> inv s' \<and> val s' = val s @ cs"
  using append_all_total [of s cs] by auto

end

lemma cstrAppendChar_SomeD:
  "cstr_wf s \<Longrightarrow> cstrAppendChar alloc s c = Some (r, s') \<Longrightarrow> cstr_wf s'
    \<and> (r = RS_RET_OK \<and> cstr_val s' = cstr_val s @ [c] \<or> r = RS_RET_OUT_OF_MEMORY \<and> s' = s)"
  using cstrAppendChar_appends [of s c alloc] by (auto simp: appends_def)

lemma cstrAppendChar_total: "cstr_wf s \<Longrightarrow> \<exists>r s'. cstrAppendChar alloc s c = Some (r, s')"
  using cstrAppendChar_appends [of s c alloc] by (auto simp: appends_def)

interpretation cb: text_builder cstr_empty "cstrAppendChar alloc" cstr_val cstr_wf for alloc
  by unfold_locales (auto dest: cstrAppendChar_SomeD intro: cstrAppendChar_total)

section \<open>Replacing the text\<close>

lemma set_text_fits:
  assumes "length b = n" "cs \<noteq> []" "length cs \<le> n" "pBuf s = Some b" "iBufSize s = n"
  shows "\<exists>b'. buf_memcpy (cstr_cells (s \<lparr> iStrLen := length cs \<rparr>)) 0 cs = Some b' \<and> length b' = n
    \<and> cstr_val (s \<lparr> iStrLen := length cs, pBuf := Some b' \<rparr>) = cs"
  using assms by (auto simp: buf_memcpy_def cstr_cells_def cstr_val_def comp_def)

lemma setSz_ok:
  assumes "cstr_wf s" "rsCStrSetSzStr alloc s (Some new) = Some (RS_RET_OK, s')"
  shows "cstr_val s' = takeWhile (\<lambda>c. c \<noteq> NUL) new \<and> iStrLen s' = strlen new
    \<and> length (cstr_cells s') = iBufSize s'
    \<and> iBufSize s' = (if strlen new > iBufSize s then strlen new + 1 else iBufSize s)"
proof -
  have len: "length (cstr_cells s) = iBufSize s"
    using assms(1) by (simp add: cstr_wf_def)
  have strlen: "length (takeWhile (\<lambda>c. c \<noteq> NUL) new) = strlen new"
    by (simp add: strlen_def)
  show ?thesis
    using assms(2) len strlen
    by (auto simp: rsCStrSetSzStr_def Let_def bind_eq_Some_conv buf_memcpy_def buf_put_def
        cstr_cells_def cstr_val_def take_strlen comp_def split: if_splits option.splits)
qed

section \<open>Searching\<close>

lemma match_at_iff: "match_at pat t \<longleftrightarrow> (\<exists>q. t = pat @ q)"
  by (induction pat t rule: match_at.induct) auto

lemma match_at_drop_iff:
  "i \<le> length sz \<Longrightarrow> match_at pat (drop i sz) \<longleftrightarrow> (\<exists>p q. sz = p @ pat @ q \<and> length p = i)"
proof -
  assume "i \<le> length sz"
  then have "(\<exists>q. drop i sz = pat @ q) \<longleftrightarrow> (\<exists>p q. sz = p @ pat @ q \<and> length p = i)"
    by (metis append_eq_conv_conj append_take_drop_id length_take min.absorb2)
  then show ?thesis
    by (simp add: match_at_iff)
qed

text \<open>The loop returns the least start position of a match among those it tries.\<close>

lemma locate_loop_cases:
  "(locate_loop pat sz i n = - 1 \<and> (\<forall>j. i \<le> j \<and> j < i + n \<longrightarrow> \<not> match_at pat (drop j sz)))
   \<or> (\<exists>k. locate_loop pat sz i n = int k \<and> i \<le> k \<and> k < i + n \<and> match_at pat (drop k sz)
        \<and> (\<forall>j. i \<le> j \<and> j < k \<longrightarrow> \<not> match_at pat (drop j sz)))"
proof (induction n arbitrary: i)
  case 0
  then show ?case
    by auto
next
  case (Suc n)
  show ?case
  proof (cases "match_at pat (drop i sz)")
    case True
    then show ?thesis
      by auto
  next
    case False
    have eq: "locate_loop pat sz i (Suc n) = locate_loop pat sz (i + 1) n"
      using False by simp
    have from_i: "\<forall>j. i \<le> j \<and> j < m \<longrightarrow> \<not> match_at pat (drop j sz)"
      if "\<forall>j. i + 1 \<le> j \<and> j < m \<longrightarrow> \<not> match_at pat (drop j sz)" for m
      using that False by (metis Suc_eq_plus1 Suc_leI le_neq_implies_less)
    show ?thesis
      using Suc.IH [of "i + 1"]
    proof (elim disjE exE conjE)
      assume "locate_loop pat sz (i + 1) n = - 1"
        "\<forall>j. i + 1 \<le> j \<and> j < i + 1 + n \<longrightarrow> \<not> match_at pat (drop j sz)"
      then show "?thesis"
        using from_i [of "i + 1 + n"] unfolding eq by simp
    next
      fix k
      assume "locate_loop pat sz (i + 1) n = int k" "i + 1 \<le> k" "k < i + 1 + n"
        "match_at pat (drop k sz)" "\<forall>j. i + 1 \<le> j \<and> j < k \<longrightarrow> \<not> match_at pat (drop j sz)"
      then show "?thesis"
        using from_i [of k] unfolding eq by (intro disjI2 exI [of _ k]) simp
    qed
  qed
qed

lemma locate_ok:
  assumes "cstr_wf s" "NUL \<notin> set sz" "length sz < 2 ^ 31"
  shows "\<exists>r. rsCStrLocateInSzStr s sz = Some r
    \<and> (r = - 1 \<and> (\<nexists>p q. sz = p @ cstr_val s @ q)
       \<or> (\<exists>p q. sz = p @ cstr_val s @ q \<and> r = int (length p)
            \<and> (\<forall>p' q'. sz = p' @ cstr_val s @ q' \<longrightarrow> length p \<le> length p')))"
proof -
  consider (empty) "iStrLen s = 0" | (long) "length sz < iStrLen s"
    | (fits) "0 < iStrLen s" "iStrLen s \<le> length sz"
    by linarith
  then show ?thesis
  proof cases
    case empty
    then have "cstr_val s = []"
      by (simp add: cstr_val_def)
    then show ?thesis
      using empty by (intro exI [of _ 0]) (auto simp: rsCStrLocateInSzStr_def Let_def)
  next
    case long
    then have "\<nexists>p q. sz = p @ cstr_val s @ q"
      using assms(1) by (metis length_append length_cstr_val linorder_not_less nat_le_iff_add
          add.left_commute)
    then show ?thesis
      using long by (simp add: rsCStrLocateInSzStr_def strlen_no_NUL assms)
  next
    case fits
    let ?n = "length sz - iStrLen s + 1"
    let ?r = "locate_loop (cstr_val s) sz 0 ?n"
    have at: "match_at (cstr_val s) (drop j sz) \<longleftrightarrow> (\<exists>p q. sz = p @ cstr_val s @ q \<and> length p = j)"
      if "j < ?n" for j
      using that fits by (intro match_at_drop_iff) simp
    have start: "length p < ?n" if "sz = p @ cstr_val s @ q" for p q
      using that assms(1) by simp
    have "?r = - 1 \<or> (0 \<le> ?r \<and> ?r < int ?n)"
      using locate_loop_cases [of "cstr_val s" sz 0 ?n] by auto
    then have "int32 ?r = ?r"
      using assms(3) fits by (intro int32_id) auto
    then have code: "rsCStrLocateInSzStr s sz = Some ?r"
      using fits assms by (simp add: rsCStrLocateInSzStr_def strlen_no_NUL mem_simps)
    show ?thesis
      using locate_loop_cases [of "cstr_val s" sz 0 ?n] code at start
      by (metis (no_types, lifting) add_0 le0 linorder_not_le)
  qed
qed

section \<open>Properties\<close>

text \<open>
  C1: Every sequence of appends, truncations, trims and finalizations of a well-formed
  string object runs without touching memory outside its buffer or using an uninitialised
  byte, whatever the allocator does. It keeps the invariant, and the text of the object at
  the end is what the same sequence makes of the text at the start, where an operation that
  reports an error changes nothing. If the sequence has a trim, which keeps the length in an
  \<^verbatim>\<open>int\<close>, the text and all that is appended to it have to stay below 2 GiB.
\<close>

theorem cstr_run_text:
  assumes "cstr_wf s" "OpTrim \<in> set ops \<longrightarrow> length (cstr_val s) + sum_list (map op_len ops) < 2 ^ 31"
  shows "\<exists>rs s'. cstr_run alloc ops s = Some (rs, s') \<and> length rs = length ops \<and> cstr_wf s'
    \<and> cstr_val s' = text_run (zip ops rs) (cstr_val s)"
  using assms by (rule cstr_run_refines)

theorem cstr_run_text_witness:
  "\<exists>rs s'. cstr_run (\<lambda>n. n \<le> 200) [OpAppendStr ''ab '', OpTrim, OpAppendChar (CHR ''c''), OpAppendParts [replicate 300 (CHR ''d'')], OpFinalize] cstr_empty
       = Some (rs, s') \<and> cstr_wf s'
     \<and> cstr_val s' = text_run (zip [OpAppendStr ''ab '', OpTrim, OpAppendChar (CHR ''c''), OpAppendParts [replicate 300 (CHR ''d'')], OpFinalize] rs) []"
proof -
  have "cstr_val cstr_empty = []"
    by (simp add: cstr_val_def cstr_empty_def)
  then show ?thesis
    using cstr_run_text [OF cstr_wf_construct, of "[OpAppendStr ''ab '', OpTrim, OpAppendChar (CHR ''c''), OpAppendParts [replicate 300 (CHR ''d'')], OpFinalize]"
        "\<lambda>n. n \<le> 200"] by auto
qed

text \<open>
  C15: Finalizing a well-formed object never writes outside the buffer and keeps the text,
  and for a non-empty text the pointer handed out afterwards is a C string: reading it up to
  the terminator gives the text up to its first NUL.
\<close>

theorem finalize_getSz:
  assumes "cstr_wf s"
  shows "\<exists>s'. cstrFinalize s = Some s' \<and> cstr_wf s' \<and> cstr_val s' = cstr_val s
    \<and> (0 < iStrLen s \<longrightarrow>
        buf_sz (cstrGetSzStrNoNULL s') = Some (takeWhile (\<lambda>c. c \<noteq> NUL) (cstr_val s)))"
proof -
  obtain s' where s': "cstrFinalize s = Some s'" "cstr_wf s'" "cstr_val s' = cstr_val s"
      "iStrLen s' = iStrLen s"
      "0 < iStrLen s \<longrightarrow> (\<exists>b. pBuf s' = Some b \<and> iStrLen s < length b \<and> b ! iStrLen s = Some NUL)"
    using cstrFinalize_ok [OF assms] by (elim exE conjE) (rule that)
  have "buf_sz (cstrGetSzStrNoNULL s') = Some (takeWhile (\<lambda>c. c \<noteq> NUL) (cstr_val s))"
    if pos: "0 < iStrLen s"
  proof -
    obtain b where b: "pBuf s' = Some b" "iStrLen s < length b" "b ! iStrLen s = Some NUL"
      using s'(5) pos by blast
    have "take (iStrLen s) b = map Some (cstr_val s)"
      using cstr_cells_prefix [OF s'(2)] s' b by (simp add: cstr_cells_def)
    then show ?thesis
      using buf_sz_prefix [of "iStrLen s" b "cstr_val s"] b assms
      by (simp add: cstrGetSzStrNoNULL_def)
  qed
  then show ?thesis
    by (intro exI [of _ s'] conjI impI s'(1-3))
qed

theorem finalize_getSz_witness:
  "\<exists>s'. cstrFinalize \<lparr> pBuf = Some [Some (CHR ''a''), None], iBufSize = 2, iStrLen = 1 \<rparr> = Some s'
     \<and> buf_sz (cstrGetSzStrNoNULL s') = Some ''a''"
proof -
  have "cstr_wf \<lparr> pBuf = Some [Some (CHR ''a''), None], iBufSize = 2, iStrLen = 1 \<rparr>"
    by (simp add: cstr_wf_def cstr_cells_def)
  from finalize_getSz [OF this] show ?thesis
    by (auto simp: cstr_val_def cstr_cells_def)
qed

text \<open>
  \<^verbatim>\<open>rsCStrSetSzStr\<close> stores the text it is given, but it grows the buffer only when the
  new text is longer than the buffer. The object is left without room for the terminator,
  and finalizing it writes behind the buffer, exactly when the new text has the length of
  the buffer it replaces the content of.
\<close>

theorem setSz_then_finalize:
  assumes "cstr_wf s" "rsCStrSetSzStr alloc s (Some new) = Some (RS_RET_OK, s')"
  shows "cstr_val s' = takeWhile (\<lambda>c. c \<noteq> NUL) new
    \<and> (cstrFinalize s' = None \<longleftrightarrow> 0 < strlen new \<and> strlen new = iBufSize s)"
  using setSz_ok [OF assms] by (auto simp: cstrFinalize_def buf_put_def Let_def)

theorem setSz_then_finalize_witness:
  "rsCStrSetSzStr (\<lambda>n. True) \<lparr> pBuf = Some [Some (CHR ''-''), None], iBufSize = 2, iStrLen = 1 \<rparr> (Some ''ab'')
     = Some (RS_RET_OK, \<lparr> pBuf = Some [Some (CHR ''a''), Some (CHR ''b'')], iBufSize = 2, iStrLen = 2 \<rparr>)
   \<and> cstrFinalize \<lparr> pBuf = Some [Some (CHR ''a''), Some (CHR ''b'')], iBufSize = 2, iStrLen = 2 \<rparr> = None"
proof -
  let ?s = "\<lparr> pBuf = Some [Some (CHR ''-''), None], iBufSize = 2, iStrLen = 1 \<rparr>"
  let ?t = "\<lparr> pBuf = Some [Some (CHR ''a''), Some (CHR ''b'')], iBufSize = 2, iStrLen = 2 \<rparr>"
  have wf: "cstr_wf ?s"
    by (simp add: cstr_wf_def cstr_cells_def)
  have set: "rsCStrSetSzStr (\<lambda>n. True) ?s (Some ''ab'') = Some (RS_RET_OK, ?t)"
    by (simp add: rsCStrSetSzStr_def strlen_def buf_memcpy_def cstr_cells_def)
  show ?thesis
    using setSz_then_finalize [OF wf set] set by (simp add: strlen_def)
qed

text \<open>
  Searching the text of an object in a C string finds the first occurrence: the result
  is the least offset at which the text occurs, or -1 when it occurs nowhere.
\<close>

theorem locate_first_occurrence:
  assumes "cstr_wf s" "NUL \<notin> set sz" "length sz < 2 ^ 31"
  shows "\<exists>r. rsCStrLocateInSzStr s sz = Some r
    \<and> (r = - 1 \<and> (\<nexists>p q. sz = p @ cstr_val s @ q)
       \<or> (\<exists>p q. sz = p @ cstr_val s @ q \<and> r = int (length p)
            \<and> (\<forall>p' q'. sz = p' @ cstr_val s @ q' \<longrightarrow> length p \<le> length p')))"
  using assms by (rule locate_ok)

theorem locate_first_occurrence_witness:
  "rsCStrLocateInSzStr \<lparr> pBuf = Some [Some (CHR ''b''), None], iBufSize = 2, iStrLen = 1 \<rparr> ''abb'' = Some 1"
proof -
  let ?s = "\<lparr> pBuf = Some [Some (CHR ''b''), None], iBufSize = 2, iStrLen = 1 \<rparr>"
  have wf: "cstr_wf ?s" and val: "cstr_val ?s = ''b''"
    by (simp_all add: cstr_wf_def cstr_cells_def cstr_val_def)
  obtain r where r: "rsCStrLocateInSzStr ?s ''abb'' = Some r"
      "r = - 1 \<and> (\<nexists>p q. ''abb'' = p @ ''b'' @ q)
       \<or> (\<exists>p q. ''abb'' = p @ ''b'' @ q \<and> r = int (length p)
            \<and> (\<forall>p' q'. ''abb'' = p' @ ''b'' @ q' \<longrightarrow> length p \<le> length p'))"
    using locate_first_occurrence [OF wf, of "''abb''"] unfolding val
    by (elim meta_impE exE conjE) (simp, simp, rule that)
  have occurs: "''abb'' = ''a'' @ ''b'' @ ''b''"
    by simp
  have first: "length p \<noteq> 0" if "''abb'' = p @ ''b'' @ q" for p q
    using that by (cases p) auto
  have "r = 1"
    using r(2)
  proof (elim disjE exE conjE)
    fix p q
    assume p: "''abb'' = p @ ''b'' @ q" "r = int (length p)"
      and least: "\<forall>p' q'. ''abb'' = p' @ ''b'' @ q' \<longrightarrow> length p \<le> length p'"
    have "length p \<le> length ''a''"
      by (rule least [rule_format, OF occurs])
    with first [OF p(1)] show "r = 1"
      unfolding p(2) by (cases p) auto
  next
    assume "\<nexists>p q. ''abb'' = p @ ''b'' @ q"
    then show "r = 1"
      by (elim notE) (intro exI, rule occurs)
  qed
  with r(1) show ?thesis
    by simp
qed

end
