(* ===== verification/Pars.thy ===== *)
theory Pars
imports Stringbuf
begin

text \<open>
  The parser object of \<^verbatim>\<open>runtime/parse.c\<close>: a counted string and a position in it. Every
  parse routine is a function from the object to its return code, the advanced object and
  its output. As in the string theory, \<^term>\<open>None\<close> is undefined behaviour: reading outside
  the string's buffer, using an uninitialised byte, or overflowing an \<^verbatim>\<open>int\<close>. A loop over
  the rest of the string takes the number of characters left as its recursion argument.
  Name resolution (\<^verbatim>\<open>getaddrinfo\<close>) is a parameter.
\<close>

section \<open>The object\<close>

record rsPars =
  pCStr :: cstr
  iCurrPos :: nat

abbreviation pars_buf :: "rsPars \<Rightarrow> buf" where
  "pars_buf p \<equiv> cstr_cells (pCStr p)"

abbreviation pars_left :: "rsPars \<Rightarrow> nat" where
  "pars_left p \<equiv> iStrLen (pCStr p) - iCurrPos p"

definition INT_MAX :: int where
  "INT_MAX = 2147483647"

text \<open>A \<^verbatim>\<open>uchar\<close> compared with a (signed) \<^verbatim>\<open>char\<close>: they agree on ASCII only.\<close>

definition uchar_eq_char :: "char \<Rightarrow> char \<Rightarrow> bool" where
  "uchar_eq_char u c \<longleftrightarrow> u = c \<and> (of_char c :: nat) < 128"

definition rsParsAssignString :: "cstr \<Rightarrow> rsPars" where
  "rsParsAssignString s = \<lparr> pCStr = s, iCurrPos = 0 \<rparr>"

text \<open>The size of \<^verbatim>\<open>rsParsObj\<close> on a 64-bit platform.\<close>

definition sizeof_rsPars :: nat where
  "sizeof_rsPars = 16"

definition rsParsConstructFromSz :: "(nat \<Rightarrow> bool) \<Rightarrow> char list \<Rightarrow> (rsRetVal \<times> rsPars option) option" where
  "rsParsConstructFromSz alloc psz =
     do { (r, s) \<leftarrow> rsCStrConstructFromszStr alloc psz;
          case s of
            None \<Rightarrow> Some (r, None)
          | Some pCS \<Rightarrow>
              if alloc sizeof_rsPars then Some (RS_RET_OK, Some (rsParsAssignString pCS))
              else Some (RS_RET_OUT_OF_MEMORY, None) }"

section \<open>Integers\<close>

fun parsInt_loop :: "buf \<Rightarrow> nat \<Rightarrow> nat \<Rightarrow> int \<Rightarrow> (int \<times> nat) option" where
  "parsInt_loop b pos 0 iVal = Some (iVal, pos)"
| "parsInt_loop b pos (Suc n) iVal =
     do { c \<leftarrow> buf_get b pos;
          if isdigit c
          then if iVal * 10 + int (of_char c) \<le> INT_MAX
            then parsInt_loop b (pos + 1) n (iVal * 10 + int (of_char c) - 48)
            else None
          else Some (iVal, pos) }"

definition parsInt :: "rsPars \<Rightarrow> (rsRetVal \<times> rsPars \<times> int option) option" where
  "parsInt p =
     (if iCurrPos p \<ge> iStrLen (pCStr p) then Some (RS_RET_NO_MORE_DATA, p, None)
      else do {
        c \<leftarrow> buf_get (pars_buf p) (iCurrPos p);
        if \<not> isdigit c then Some (RS_RET_NO_DIGIT, p, None)
        else do {
          (iVal, pos) \<leftarrow> parsInt_loop (pars_buf p) (iCurrPos p) (pars_left p) 0;
          Some (RS_RET_OK, p \<lparr> iCurrPos := pos \<rparr>, Some iVal) } })"

section \<open>Skipping\<close>

fun skip_to_char :: "buf \<Rightarrow> char \<Rightarrow> nat \<Rightarrow> nat \<Rightarrow> nat option" where
  "skip_to_char b c pos 0 = Some pos"
| "skip_to_char b c pos (Suc n) =
     do { x \<leftarrow> buf_get b pos; if uchar_eq_char x c then Some pos else skip_to_char b c (pos + 1) n }"

definition parsSkipAfterChar :: "rsPars \<Rightarrow> char \<Rightarrow> (rsRetVal \<times> rsPars) option" where
  "parsSkipAfterChar p c =
     do { pos \<leftarrow> skip_to_char (pars_buf p) c (iCurrPos p) (pars_left p);
          x \<leftarrow> buf_get (pars_buf p) pos;
          Some (if uchar_eq_char x c
                then if pos + 1 < iStrLen (pCStr p)
                  then (RS_RET_OK, p \<lparr> iCurrPos := pos + 1 \<rparr>)
                  else (RS_RET_FOUND_AT_STRING_END, p \<lparr> iCurrPos := pos \<rparr>)
                else (RS_RET_NOT_FOUND, p \<lparr> iCurrPos := pos \<rparr>)) }"

fun skip_space :: "buf \<Rightarrow> nat \<Rightarrow> nat \<Rightarrow> nat option" where
  "skip_space b pos 0 = Some pos"
| "skip_space b pos (Suc n) =
     do { x \<leftarrow> buf_get b pos; if \<not> isspace x then Some pos else skip_space b (pos + 1) n }"

definition parsSkipWhitespace :: "rsPars \<Rightarrow> rsPars option" where
  "parsSkipWhitespace p =
     do { pos \<leftarrow> skip_space (pars_buf p) (iCurrPos p) (pars_left p); Some (p \<lparr> iCurrPos := pos \<rparr>) }"

section \<open>Delimited and quoted strings\<close>

fun delim_loop ::
    "(nat \<Rightarrow> bool) \<Rightarrow> buf \<Rightarrow> char \<Rightarrow> bool \<Rightarrow> nat \<Rightarrow> nat \<Rightarrow> cstr \<Rightarrow> (rsRetVal \<times> nat \<times> cstr) option" where
  "delim_loop alloc b cDelim bConvLower pos 0 s = Some (RS_RET_OK, pos, s)"
| "delim_loop alloc b cDelim bConvLower pos (Suc n) s =
     do { c \<leftarrow> buf_get b pos;
          if uchar_eq_char c cDelim then Some (RS_RET_OK, pos, s)
          else do {
            (r, s1) \<leftarrow> cstrAppendChar alloc s (if bConvLower then tolower c else c);
            if r = RS_RET_OK then delim_loop alloc b cDelim bConvLower (pos + 1) n s1
            else Some (r, pos, s1) } }"

definition parsDelimCStr ::
    "(nat \<Rightarrow> bool) \<Rightarrow> rsPars \<Rightarrow> char \<Rightarrow> bool \<Rightarrow> bool \<Rightarrow> bool \<Rightarrow> (rsRetVal \<times> rsPars \<times> cstr option) option" where
  "parsDelimCStr alloc p cDelim bTrimLeading bTrimTrailing bConvLower =
     (case cstrConstruct alloc of
        (r0, None) \<Rightarrow> Some (r0, p, None)
      | (r0, Some s0) \<Rightarrow> do {
          p1 \<leftarrow> (if bTrimLeading then parsSkipWhitespace p else Some p);
          (r, pos, s) \<leftarrow> delim_loop alloc (pars_buf p1) cDelim bConvLower (iCurrPos p1) (pars_left p1) s0;
          if r \<noteq> RS_RET_OK then Some (r, p1 \<lparr> iCurrPos := pos \<rparr>, None)
          else do {
            s1 \<leftarrow> cstrFinalize s;
            s2 \<leftarrow> (if bTrimTrailing then cstrTrimTrailingWhiteSpace s1 else Some s1);
            Some (RS_RET_OK,
              p1 \<lparr> iCurrPos := (if pos < iStrLen (pCStr p1) then pos + 1 else pos) \<rparr>, Some s2) } })"

fun quoted_loop ::
    "(nat \<Rightarrow> bool) \<Rightarrow> buf \<Rightarrow> nat \<Rightarrow> nat \<Rightarrow> cstr \<Rightarrow> (rsRetVal \<times> nat \<times> cstr) option" where
  "quoted_loop alloc b pos 0 s = Some (RS_RET_OK, pos, s)"
| "quoted_loop alloc b pos (Suc n) s =
     do { c \<leftarrow> buf_get b pos;
          if c = CHR 0x22 then Some (RS_RET_OK, pos, s)
          else if c = CHR 0x5C
          then (case n of
                  0 \<Rightarrow> Some (RS_RET_OK, pos + 2, s)
                | Suc m \<Rightarrow> do {
                    d \<leftarrow> buf_get b (pos + 1);
                    (r, s1) \<leftarrow> cstrAppendChar alloc s d;
                    if r = RS_RET_OK then quoted_loop alloc b (pos + 2) m s1
                    else Some (r, pos + 1, s1) })
          else do {
            (r, s1) \<leftarrow> cstrAppendChar alloc s c;
            if r = RS_RET_OK then quoted_loop alloc b (pos + 1) n s1 else Some (r, pos, s1) } }"

definition parsQuotedCStr :: "(nat \<Rightarrow> bool) \<Rightarrow> rsPars \<Rightarrow> (rsRetVal \<times> rsPars \<times> cstr option) option" where
  "parsQuotedCStr alloc p =
     do { (r0, p1) \<leftarrow> parsSkipAfterChar p (CHR 0x22);
          if r0 \<noteq> RS_RET_OK then Some (r0, p1, None)
          else case cstrConstruct alloc of
            (rc, None) \<Rightarrow> Some (rc, p1, None)
          | (rc, Some s0) \<Rightarrow> do {
            (r, pos, s) \<leftarrow> quoted_loop alloc (pars_buf p1) (iCurrPos p1) (pars_left p1) s0;
            if r \<noteq> RS_RET_OK then Some (r, p1 \<lparr> iCurrPos := pos \<rparr>, None)
            else do {
              c \<leftarrow> buf_get (pars_buf p1) pos;
              if c = CHR 0x22
              then do { s1 \<leftarrow> cstrFinalize s; Some (RS_RET_OK, p1 \<lparr> iCurrPos := pos + 1 \<rparr>, Some s1) }
              else Some (RS_RET_MISSING_TRAIL_QUOTE, p1 \<lparr> iCurrPos := pos \<rparr>, None) } } }"

section \<open>Network addresses\<close>

text \<open>
  The outcome of a numeric \<^verbatim>\<open>getaddrinfo\<close> lookup: the binary address, \<^verbatim>\<open>EAI_NONAME\<close>
  for a text that is not an address, or another error. The lookup is a parameter of the
  routine; its first argument says whether the IPv6 family was asked for.
\<close>

datatype gai_result = GAI_ADDR "char list" | EAI_NONAME | EAI_OTHER

datatype NetAddr = NetAddrBin "char list" | HostWildcard nat "char list option"

definition ADDR_NAME :: nat where "ADDR_NAME = 1"
definition ADDR_PRI6 :: nat where "ADDR_PRI6 = 2"

text \<open>The size of \<^verbatim>\<open>struct NetAddr\<close> on a 64-bit platform.\<close>

definition sizeof_NetAddr :: nat where
  "sizeof_NetAddr = 16"

fun addr_loop :: "(nat \<Rightarrow> bool) \<Rightarrow> buf \<Rightarrow> nat \<Rightarrow> nat \<Rightarrow> cstr \<Rightarrow> (rsRetVal \<times> nat \<times> cstr) option" where
  "addr_loop alloc b pos 0 s = Some (RS_RET_OK, pos, s)"
| "addr_loop alloc b pos (Suc n) s =
     do { c \<leftarrow> buf_get b pos;
          if c \<noteq> CHR ''/'' \<and> c \<noteq> CHR '','' \<and> \<not> isspace c
          then do {
            (r, s1) \<leftarrow> cstrAppendChar alloc s c;
            if r = RS_RET_OK then addr_loop alloc b (pos + 1) n s1 else Some (r, pos, s1) }
          else Some (RS_RET_OK, pos, s) }"

fun skip_comma_space :: "buf \<Rightarrow> nat \<Rightarrow> nat \<Rightarrow> nat option" where
  "skip_comma_space b pos 0 = Some pos"
| "skip_comma_space b pos (Suc n) =
     do { c \<leftarrow> buf_get b pos;
          if c = CHR '','' \<or> isspace c then skip_comma_space b (pos + 1) n else Some pos }"

text \<open>
  The conversion of the collected text: a text that starts with a bracket is looked up as
  IPv6 without its brackets. \<^term>\<open>None\<close> is the unchecked \<^verbatim>\<open>malloc\<close> before the copy of
  a binary address.
\<close>

definition addr_convert ::
    "(nat \<Rightarrow> bool) \<Rightarrow> (bool \<Rightarrow> char list \<Rightarrow> gai_result) \<Rightarrow> bool \<Rightarrow> char list \<Rightarrow> (rsRetVal + NetAddr) option" where
  "addr_convert alloc getaddrinfo v6 name =
     (case getaddrinfo v6 name of
        GAI_ADDR a \<Rightarrow> if alloc (length a) then Some (Inr (NetAddrBin a)) else None
      | EAI_NONAME \<Rightarrow> Some (Inr (HostWildcard (if v6 then ADDR_NAME + ADDR_PRI6 else ADDR_NAME)
          (if alloc (length name + 1) then Some name else None)))
      | EAI_OTHER \<Rightarrow> Some (Inl RS_RET_ERR))"

definition parsAddrWithBits ::
    "(nat \<Rightarrow> bool) \<Rightarrow> (bool \<Rightarrow> char list \<Rightarrow> gai_result) \<Rightarrow> rsPars
      \<Rightarrow> (rsRetVal \<times> rsPars \<times> (NetAddr \<times> int) option) option" where
  "parsAddrWithBits alloc getaddrinfo p =
     (case cstrConstruct alloc of
        (r0, None) \<Rightarrow> Some (r0, p, None)
      | (r0, Some s0) \<Rightarrow> do {
          p1 \<leftarrow> parsSkipWhitespace p;
          (r, pos, s) \<leftarrow> addr_loop alloc (pars_buf p1) (iCurrPos p1) (pars_left p1) s0;
          let p2 = p1 \<lparr> iCurrPos := pos \<rparr>;
          if r \<noteq> RS_RET_OK then Some (r, p2, None)
          else do {
            s1 \<leftarrow> cstrFinalize s;
            (rz, sz) \<leftarrow> cstrConvSzStrAndDestruct alloc s1 False;
            if rz \<noteq> RS_RET_OK then Some (rz, p2, None)
            else if \<not> alloc sizeof_NetAddr then Some (RS_RET_OUT_OF_MEMORY, p2, None)
            else do {
              b \<leftarrow> sz;
              ip \<leftarrow> buf_sz b;
              let v6 = (ip \<noteq> [] \<and> hd ip = CHR ''['');
              if v6 \<and> CHR '']'' \<notin> set ip then Some (RS_RET_INVALID_IP, p2, None)
              else do {
                a \<leftarrow> addr_convert alloc getaddrinfo v6
                  (if v6 then takeWhile (\<lambda>c. c \<noteq> CHR '']'') (tl ip) else ip);
                case a of
                  Inl e \<Rightarrow> Some (e, p2, None)
                | Inr addr \<Rightarrow> do {
                    c \<leftarrow> buf_get (pars_buf p2) pos;
                    (rb, p3, bits) \<leftarrow>
                      (if c = CHR ''/'' then parsInt (p2 \<lparr> iCurrPos := pos + 1 \<rparr>)
                       else Some (RS_RET_OK, p2, Some (if v6 then 128 else 32)));
                    case bits of
                      None \<Rightarrow> Some (rb, p3, None)
                    | Some nbits \<Rightarrow> do {
                        pos' \<leftarrow> skip_comma_space (pars_buf p3) (iCurrPos p3) (pars_left p3);
                        Some (RS_RET_OK, p3 \<lparr> iCurrPos := pos' \<rparr>, Some (addr, nbits)) } } } } } })"

section \<open>Position queries\<close>

definition parsIsAtEndOfParseString :: "rsPars \<Rightarrow> bool" where
  "parsIsAtEndOfParseString p = (\<not> iCurrPos p < iStrLen (pCStr p))"

definition rsParsGetParsePointer :: "rsPars \<Rightarrow> int" where
  "rsParsGetParsePointer p =
     int32 (if iCurrPos p < iStrLen (pCStr p) then int (iCurrPos p) else int (iStrLen (pCStr p)) - 1)"

definition parsPeekAtCharAtParsPtr :: "rsPars \<Rightarrow> char option" where
  "parsPeekAtCharAtParsPtr p = buf_get (pars_buf p) (iCurrPos p)"

definition parsGetCurrentPosition :: "rsPars \<Rightarrow> int" where
  "parsGetCurrentPosition p = int32 (int (iCurrPos p))"

section \<open>Reference meanings\<close>

text \<open>The text before the position and the text still to be parsed.\<close>

definition pars_at :: "rsPars \<Rightarrow> char list \<Rightarrow> char list \<Rightarrow> bool" where
  "pars_at p pre rest \<longleftrightarrow>
     cstr_wf (pCStr p) \<and> cstr_val (pCStr p) = pre @ rest \<and> iCurrPos p = length pre"

text \<open>How a text is written between quotes so that the quoted-string parser accepts it.\<close>

definition esc_char :: "char \<Rightarrow> char list" where
  "esc_char c = (if c = CHR 0x22 \<or> c = CHR 0x5C then [CHR 0x5C, c] else [c])"

definition escape :: "char list \<Rightarrow> char list" where
  "escape s = concat (map esc_char s)"

section \<open>Facts on reading the parsed text\<close>

primrec holds_at :: "buf \<Rightarrow> nat \<Rightarrow> char list \<Rightarrow> bool" where
  "holds_at b pos [] \<longleftrightarrow> True"
| "holds_at b pos (c # cs) \<longleftrightarrow> buf_get b pos = Some c \<and> holds_at b (pos + 1) cs"

lemma holds_at_append: "holds_at b pos (xs @ ys) \<longleftrightarrow> holds_at b pos xs \<and> holds_at b (pos + length xs) ys"
  by (induction xs arbitrary: pos) auto

lemma holds_at_nth: "(\<And>i. i < length cs \<Longrightarrow> buf_get b (pos + i) = Some (cs ! i)) \<Longrightarrow> holds_at b pos cs"
proof (induction cs arbitrary: pos)
  case (Cons c cs)
  have "buf_get b (pos + 1 + i) = Some (cs ! i)" if "i < length cs" for i
    using Cons.prems [of "Suc i"] that by simp
  then show ?case
    using Cons.prems [of 0] Cons.IH [of "pos + 1"] by simp
qed simp

lemma buf_get_cstr: "cstr_wf s \<Longrightarrow> i < iStrLen s \<Longrightarrow> buf_get (cstr_cells s) i = Some (cstr_val s ! i)"
proof -
  assume wf: "cstr_wf s" and i: "i < iStrLen s"
  have lt: "i < length (cstr_cells s)"
    using cstr_wf_len [OF wf] i by simp
  have "cstr_cells s ! i = take (iStrLen s) (cstr_cells s) ! i"
    using i by simp
  also have "\<dots> = Some (cstr_val s ! i)"
    using i wf by (simp add: cstr_cells_prefix)
  finally show ?thesis
    using lt by (simp add: buf_get_def)
qed

lemma pars_at_holds: "pars_at p pre rest \<Longrightarrow> holds_at (pars_buf p) (iCurrPos p) rest"
proof (rule holds_at_nth)
  fix i
  assume p: "pars_at p pre rest" and i: "i < length rest"
  then have "length pre + i < iStrLen (pCStr p)"
    unfolding pars_at_def by (metis length_append length_cstr_val nat_add_left_cancel_less)
  then show "buf_get (pars_buf p) (iCurrPos p + i) = Some (rest ! i)"
    using p by (simp add: pars_at_def buf_get_cstr nth_append)
qed

lemma pars_at_len:
  "pars_at p pre rest \<Longrightarrow> pars_left p = length rest \<and> iStrLen (pCStr p) = length pre + length rest"
  unfolding pars_at_def by (metis add_diff_cancel_left' length_append length_cstr_val)

lemma pars_at_advance:
  "pars_at p pre (xs @ rest) \<Longrightarrow> pars_at (p \<lparr> iCurrPos := iCurrPos p + length xs \<rparr>) (pre @ xs) rest"
  by (simp add: pars_at_def)

section \<open>Facts on integers\<close>

lemma dec_val_last:
  "ds \<noteq> [] \<Longrightarrow> 0 \<le> v \<Longrightarrow> \<forall>d \<in> set ds. isdigit d \<Longrightarrow> v * 10 + digit_val (hd ds) \<le> dec_val v ds"
  by (cases ds) (auto intro!: dec_val_ge dest!: digit_val_bounds)

text \<open>
  The loop computes the number, and overflows exactly when the number plus the code of
  the digit zero does not fit an \<^verbatim>\<open>int\<close>: the code of the digit is added before the code
  of zero is subtracted.
\<close>

lemma parsInt_loop_val:
  assumes "holds_at b pos (ds @ rest)" "\<forall>d \<in> set ds. isdigit d" "rest = [] \<or> \<not> isdigit (hd rest)" "0 \<le> v"
  shows "parsInt_loop b pos (length (ds @ rest)) v =
    (if ds = [] \<or> dec_val v ds + 48 \<le> INT_MAX then Some (dec_val v ds, pos + length ds) else None)"
  using assms
proof (induction ds arbitrary: pos v)
  case Nil
  then show ?case
    by (cases rest) auto
next
  case (Cons d ds)
  let ?v = "v * 10 + digit_val d"
  have d: "isdigit d" "0 \<le> ?v" "v * 10 + int (of_char d) = ?v + 48"
    using Cons.prems digit_val_bounds [of d] by (auto simp: digit_val_def)
  have IH: "parsInt_loop b (pos + 1) (length (ds @ rest)) ?v =
      (if ds = [] \<or> dec_val ?v ds + 48 \<le> INT_MAX then Some (dec_val ?v ds, pos + 1 + length ds) else None)"
    using Cons.IH [of "pos + 1" ?v] Cons.prems d by simp
  have ge: "?v \<le> dec_val ?v ds"
    using dec_val_ge [of ?v ds] Cons.prems d by simp
  have step: "parsInt_loop b pos (length ((d # ds) @ rest)) v =
      (if ?v + 48 \<le> INT_MAX then parsInt_loop b (pos + 1) (length (ds @ rest)) ?v else None)"
    using Cons.prems d by simp
  show ?case
    unfolding step IH using ge by auto
qed

section \<open>Facts on delimited and quoted strings\<close>

lemma skip_to_char_found:
  "holds_at b pos (xs @ c # rest) \<Longrightarrow> c \<notin> set xs \<Longrightarrow> (of_char c :: nat) < 128
    \<Longrightarrow> skip_to_char b c pos (length (xs @ c # rest)) = Some (pos + length xs)"
  by (induction xs arbitrary: pos) (auto simp: uchar_eq_char_def)

lemma parsSkipAfterChar_found:
  assumes "pars_at p pre (xs @ c # rest)" "c \<notin> set xs" "(of_char c :: nat) < 128" "rest \<noteq> []"
  shows "parsSkipAfterChar p c = Some (RS_RET_OK, p \<lparr> iCurrPos := iCurrPos p + length (xs @ [c]) \<rparr>)"
proof -
  have h: "holds_at (pars_buf p) (iCurrPos p) (xs @ c # rest)"
    using assms(1) by (rule pars_at_holds)
  have len: "pars_left p = length (xs @ c # rest)"
    "iStrLen (pCStr p) = length pre + length (xs @ c # rest)" "iCurrPos p = length pre"
    using pars_at_len [OF assms(1)] assms(1) by (auto simp: pars_at_def)
  have "buf_get (pars_buf p) (iCurrPos p + length xs) = Some c"
    using h by (simp add: holds_at_append)
  moreover have "skip_to_char (pars_buf p) c (iCurrPos p) (pars_left p) = Some (iCurrPos p + length xs)"
    unfolding len(1) using h assms(2,3) by (rule skip_to_char_found)
  ultimately show ?thesis
    using assms(3,4) len(2,3) by (simp add: parsSkipAfterChar_def uchar_eq_char_def)
qed

lemma quoted_loop_escape:
  assumes "holds_at b pos (escape s @ rest)" "cstr_wf st"
  shows "\<exists>r st'. append_all (cstrAppendChar alloc) st s = Some (r, st') \<and>
    (if r = RS_RET_OK
     then quoted_loop alloc b pos (length (escape s @ rest)) st =
       quoted_loop alloc b (pos + length (escape s)) (length rest) st'
     else \<exists>pos'. quoted_loop alloc b pos (length (escape s @ rest)) st = Some (r, pos', st'))"
  using assms
proof (induction s arbitrary: pos st)
  case Nil
  then show ?case
    by (simp add: escape_def)
next
  case (Cons c s)
  obtain r1 st1 where 1: "cstrAppendChar alloc st c = Some (r1, st1)"
    using cstrAppendChar_total [OF Cons.prems(2)] by blast
  have wf: "cstr_wf st1"
    using cstrAppendChar_SomeD [OF Cons.prems(2) 1] by simp
  have esc: "escape (c # s) = esc_char c @ escape s"
    by (simp add: escape_def)
  have h: "holds_at b (pos + length (esc_char c)) (escape s @ rest)"
    using Cons.prems(1) by (simp add: esc holds_at_append)
  have step: "quoted_loop alloc b pos (length (escape (c # s) @ rest)) st =
      (if r1 = RS_RET_OK
       then quoted_loop alloc b (pos + length (esc_char c)) (length (escape s @ rest)) st1
       else Some (r1, if length (esc_char c) = 1 then pos else pos + 1, st1))"
    using Cons.prems(1) 1
    by (cases "c = CHR 0x22 \<or> c = CHR 0x5C") (auto simp: esc esc_char_def)
  show ?case
  proof (cases "r1 = RS_RET_OK")
    case True
    obtain r st' where r: "append_all (cstrAppendChar alloc) st1 s = Some (r, st')"
        "if r = RS_RET_OK
         then quoted_loop alloc b (pos + length (esc_char c)) (length (escape s @ rest)) st1 =
           quoted_loop alloc b (pos + length (esc_char c) + length (escape s)) (length rest) st'
         else \<exists>pos'. quoted_loop alloc b (pos + length (esc_char c)) (length (escape s @ rest)) st1
           = Some (r, pos', st')"
      using Cons.IH [OF h wf] by (elim exE conjE) (rule that)
    have "append_all (cstrAppendChar alloc) st (c # s) = Some (r, st')"
      using r(1) 1 True by simp
    then show ?thesis
      using r(2) True unfolding step by (simp add: esc add.assoc split: if_splits)
  next
    case False
    then show ?thesis
      using 1 step by simp
  qed
qed

text \<open>
  The delimiter loop appends the text before the first delimiter, converted if asked for,
  and stops at the delimiter or at the end.
\<close>

lemma delim_loop_takeWhile:
  assumes "holds_at b pos rest" "cstr_wf st"
  shows "\<exists>r st'. append_all (cstrAppendChar alloc) st
      (map (\<lambda>c. if low then tolower c else c) (takeWhile (\<lambda>c. \<not> uchar_eq_char c d) rest)) = Some (r, st') \<and>
    (if r = RS_RET_OK
     then delim_loop alloc b d low pos (length rest) st =
       Some (RS_RET_OK, pos + length (takeWhile (\<lambda>c. \<not> uchar_eq_char c d) rest), st')
     else \<exists>pos'. delim_loop alloc b d low pos (length rest) st = Some (r, pos', st'))"
  using assms
proof (induction rest arbitrary: pos st)
  case Nil
  then show ?case
    by simp
next
  case (Cons c rest)
  let ?c = "if low then tolower c else c"
  obtain r1 st1 where 1: "cstrAppendChar alloc st ?c = Some (r1, st1)"
    using cstrAppendChar_total [OF Cons.prems(2)] by blast
  have wf: "cstr_wf st1"
    using cstrAppendChar_SomeD [OF Cons.prems(2) 1] by simp
  show ?case
  proof (cases "uchar_eq_char c d \<or> r1 \<noteq> RS_RET_OK")
    case True
    then show ?thesis
      using Cons.prems 1 by auto
  next
    case False
    obtain r st' where r: "append_all (cstrAppendChar alloc) st1
        (map (\<lambda>c. if low then tolower c else c) (takeWhile (\<lambda>c. \<not> uchar_eq_char c d) rest)) = Some (r, st')"
        "if r = RS_RET_OK
         then delim_loop alloc b d low (pos + 1) (length rest) st1 =
           Some (RS_RET_OK, pos + 1 + length (takeWhile (\<lambda>c. \<not> uchar_eq_char c d) rest), st')
         else \<exists>pos'. delim_loop alloc b d low (pos + 1) (length rest) st1 = Some (r, pos', st')"
      using Cons.IH [of "pos + 1" st1] Cons.prems(1) wf by (elim meta_impE exE conjE) (auto intro: that)
    have step: "delim_loop alloc b d low pos (length (c # rest)) st
        = delim_loop alloc b d low (pos + 1) (length rest) st1"
      using Cons.prems(1) 1 False by simp
    have "append_all (cstrAppendChar alloc) st (map (\<lambda>c. if low then tolower c else c)
        (takeWhile (\<lambda>c. \<not> uchar_eq_char c d) (c # rest))) = Some (r, st')"
      using r(1) 1 False by simp
    then show ?thesis
      using r(2) False unfolding step by (simp split: if_splits)
  qed
qed

lemma skip_space_dropWhile:
  "holds_at b pos rest \<Longrightarrow> skip_space b pos (length rest) = Some (pos + length (takeWhile isspace rest))"
  by (induction rest arbitrary: pos) auto

lemma parsSkipWhitespace_at:
  assumes "pars_at p pre rest"
  shows "\<exists>p'. parsSkipWhitespace p = Some p' \<and> pCStr p' = pCStr p
    \<and> pars_at p' (pre @ takeWhile isspace rest) (dropWhile isspace rest)"
proof -
  have "skip_space (pars_buf p) (iCurrPos p) (pars_left p)
      = Some (iCurrPos p + length (takeWhile isspace rest))"
    unfolding conjunct1 [OF pars_at_len [OF assms]]
    by (rule skip_space_dropWhile [OF pars_at_holds [OF assms]])
  then show ?thesis
    using pars_at_advance [of p pre "takeWhile isspace rest" "dropWhile isspace rest"] assms
    by (simp add: parsSkipWhitespace_def)
qed

lemma cstrConstruct_cases:
  "cstrConstruct alloc = (RS_RET_OK, Some cstr_empty) \<or> cstrConstruct alloc = (RS_RET_OUT_OF_MEMORY, None)"
  by (simp add: cstrConstruct_def)

lemma parsQuoted_escape:
  assumes "pars_at p pre (xs @ CHR 0x22 # escape s @ CHR 0x22 # rest)" "CHR 0x22 \<notin> set xs"
  shows "\<exists>r p' out. parsQuotedCStr alloc p = Some (r, p', out) \<and>
    (r = RS_RET_OUT_OF_MEMORY \<and> out = None
     \<or> r = RS_RET_OK \<and> pars_at p' (pre @ xs @ CHR 0x22 # escape s @ [CHR 0x22]) rest
       \<and> (\<exists>st. out = Some st \<and> cstr_wf st \<and> cstr_val st = s))"
proof -
  let ?q = "CHR 0x22" and ?e = "escape s @ CHR 0x22 # rest"
  let ?p1 = "p \<lparr> iCurrPos := iCurrPos p + length (xs @ [?q]) \<rparr>"
  have skip: "parsSkipAfterChar p ?q = Some (RS_RET_OK, ?p1)"
    using assms by (intro parsSkipAfterChar_found) auto
  have at1: "pars_at ?p1 (pre @ xs @ [?q]) ?e"
    using pars_at_advance [of p pre "xs @ [?q]" ?e] assms(1) by simp
  have left: "pars_left ?p1 = length ?e"
    by (rule conjunct1 [OF pars_at_len [OF at1]])
  have h: "holds_at (pars_buf ?p1) (iCurrPos ?p1) ?e"
    using at1 by (rule pars_at_holds)
  obtain r st where r: "append_all (cstrAppendChar alloc) cstr_empty s = Some (r, st)"
      "if r = RS_RET_OK
       then quoted_loop alloc (pars_buf ?p1) (iCurrPos ?p1) (length ?e) cstr_empty =
         quoted_loop alloc (pars_buf ?p1) (iCurrPos ?p1 + length (escape s)) (length (?q # rest)) st
       else \<exists>pos'. quoted_loop alloc (pars_buf ?p1) (iCurrPos ?p1) (length ?e) cstr_empty = Some (r, pos', st)"
    using quoted_loop_escape [OF h cstr_wf_construct, of alloc] by (elim exE conjE) (rule that)
  have st: "cstr_wf st" "r = RS_RET_OK \<and> cstr_val st = s \<or> r = RS_RET_OUT_OF_MEMORY"
    using cb.append_all_total [OF cstr_wf_construct, of alloc s] r(1) by auto
  have at_q: "buf_get (pars_buf ?p1) (iCurrPos ?p1 + length (escape s)) = Some ?q"
    using h by (simp add: holds_at_append)
  obtain st' where fin: "cstrFinalize st = Some st'" "cstr_wf st'" "cstr_val st' = cstr_val st"
    using cstrFinalize_ok [OF st(1)] by auto
  have at2: "pars_at (?p1 \<lparr> iCurrPos := iCurrPos ?p1 + length (escape s @ [?q]) \<rparr>)
      ((pre @ xs @ [?q]) @ escape s @ [?q]) rest"
    using pars_at_advance [of ?p1 "pre @ xs @ [?q]" "escape s @ [?q]" rest] at1 by simp
  consider "cstrConstruct alloc = (RS_RET_OUT_OF_MEMORY, None)"
    | "cstrConstruct alloc = (RS_RET_OK, Some cstr_empty)" "r = RS_RET_OUT_OF_MEMORY"
    | "cstrConstruct alloc = (RS_RET_OK, Some cstr_empty)" "r = RS_RET_OK" "cstr_val st = s"
    using cstrConstruct_cases st(2) by auto
  then show ?thesis
  proof cases
    case 1
    then show ?thesis
      using skip by (simp add: parsQuotedCStr_def)
  next
    case 2
    obtain pos' where "quoted_loop alloc (pars_buf ?p1) (iCurrPos ?p1) (pars_left ?p1) cstr_empty
        = Some (RS_RET_OUT_OF_MEMORY, pos', st)"
      unfolding left using r(2) 2(2) by (auto simp del: quoted_loop.simps)
    then show ?thesis
      using skip 2 by (simp add: parsQuotedCStr_def del: quoted_loop.simps)
  next
    case 3
    have "quoted_loop alloc (pars_buf ?p1) (iCurrPos ?p1) (pars_left ?p1) cstr_empty
        = Some (RS_RET_OK, iCurrPos ?p1 + length (escape s), st)"
      unfolding left using r(2) 3(2) at_q by simp
    then show ?thesis
      using skip 3 at_q fin at2 by (simp add: parsQuotedCStr_def del: quoted_loop.simps)
  qed
qed

lemma drop_replicate_last: "drop n (x # replicate n x) = [x]"
  by (induction n) auto

lemma cstr_of_text_ok:
  "cstr_of_text alloc cs = Some (RS_RET_OK, Some s) \<Longrightarrow>
    pBuf s = Some (map Some cs @ [None]) \<and> iStrLen s = length cs \<and> iBufSize s = length cs + 1
    \<and> cstr_wf s \<and> cstr_val s = cs"
  by (auto simp: cstr_of_text_def cstrConstruct_def buf_memcpy_def buf_new_def cstr_wf_def cstr_val_def
      cstr_cells_def comp_def drop_replicate_last split: if_splits)

lemma append_never_fails:
  "append_all (cstrAppendChar (\<lambda>n. True)) st s = Some (r, st') \<Longrightarrow> r = RS_RET_OK"
  by (induction s arbitrary: st)
    (auto simp: bind_eq_Some_conv cstrAppendChar_def rsCStrExtendBuf_def Let_def split: if_splits prod.splits)

lemma rsParsConstructFromSz_ok:
  assumes "rsParsConstructFromSz alloc psz = Some (RS_RET_OK, Some p)" "NUL \<notin> set psz"
  shows "pars_at p [] psz \<and> pars_buf p = map Some psz @ [None]"
proof -
  have "cstr_of_text alloc psz = Some (RS_RET_OK, Some (pCStr p)) \<and> iCurrPos p = 0"
    using assms by (auto simp: rsParsConstructFromSz_def rsCStrConstructFromszStr_def take_strlen
        rsParsAssignString_def cstr_of_text_def bind_eq_Some_conv split: if_splits option.splits prod.splits)
  then show ?thesis
    using cstr_of_text_ok [of alloc psz "pCStr p"] by (auto simp: pars_at_def cstr_cells_def)
qed

lemma delim_result_finish:
  assumes "cstr_wf s" "length (cstr_val s) < 2 ^ 31"
  shows "\<exists>s2. (do { s1 \<leftarrow> cstrFinalize s; if trim then cstrTrimTrailingWhiteSpace s1 else Some s1 }) = Some s2
    \<and> cstr_wf s2 \<and> cstr_val s2 = (if trim then rtrim (cstr_val s) else cstr_val s)"
  using cstrFinalize_ok [OF assms(1)] cstrTrim_ok assms(2) by fastforce

lemma parsDelim_from:
  assumes "pars_at p pre rest" "length rest < 2 ^ 31"
  shows "\<exists>r p' out. parsDelimCStr alloc p d False trim low = Some (r, p', out) \<and>
    (r = RS_RET_OUT_OF_MEMORY \<and> out = None
     \<or> r = RS_RET_OK
       \<and> (\<exists>st. out = Some st \<and> cstr_wf st \<and> cstr_val st = (if trim then rtrim else id)
            (map (\<lambda>c. if low then tolower c else c) (takeWhile (\<lambda>c. \<not> uchar_eq_char c d) rest)))
       \<and> p' = p \<lparr> iCurrPos := iCurrPos p
            + min (length rest) (length (takeWhile (\<lambda>c. \<not> uchar_eq_char c d) rest) + 1) \<rparr>)"
proof -
  let ?w = "takeWhile (\<lambda>c. \<not> uchar_eq_char c d) rest"
  obtain r st where r: "append_all (cstrAppendChar alloc) cstr_empty
        (map (\<lambda>c. if low then tolower c else c) ?w) = Some (r, st)"
      "if r = RS_RET_OK
       then delim_loop alloc (pars_buf p) d low (iCurrPos p) (length rest) cstr_empty =
         Some (RS_RET_OK, iCurrPos p + length ?w, st)
       else \<exists>pos'. delim_loop alloc (pars_buf p) d low (iCurrPos p) (length rest) cstr_empty = Some (r, pos', st)"
    using delim_loop_takeWhile [OF pars_at_holds [OF assms(1)] cstr_wf_construct, of alloc low d]
    by (elim exE conjE) (rule that)
  have st: "cstr_wf st" "r = RS_RET_OK \<and> cstr_val st = map (\<lambda>c. if low then tolower c else c) ?w
      \<or> r = RS_RET_OUT_OF_MEMORY"
    using cb.append_all_total [OF cstr_wf_construct, of alloc "map (\<lambda>c. if low then tolower c else c) ?w"] r(1)
    by auto
  have len: "length ?w \<le> length rest" "iStrLen (pCStr p) = iCurrPos p + length rest"
    using pars_at_len [OF assms(1)] assms(1) by (auto simp: length_takeWhile_le pars_at_def)
  have pos: "(if iCurrPos p + length ?w < iStrLen (pCStr p) then iCurrPos p + length ?w + 1
      else iCurrPos p + length ?w) = iCurrPos p + min (length rest) (length ?w + 1)"
    using len by auto
  have left: "pars_left p = length rest"
    by (rule conjunct1 [OF pars_at_len [OF assms(1)]])
  consider "cstrConstruct alloc = (RS_RET_OUT_OF_MEMORY, None)"
    | "cstrConstruct alloc = (RS_RET_OK, Some cstr_empty)" "r = RS_RET_OUT_OF_MEMORY"
    | "cstrConstruct alloc = (RS_RET_OK, Some cstr_empty)" "r = RS_RET_OK"
      "cstr_val st = map (\<lambda>c. if low then tolower c else c) ?w"
    using cstrConstruct_cases st(2) by auto
  then show ?thesis
  proof cases
    case 1
    then show ?thesis
      by (simp add: parsDelimCStr_def)
  next
    case 2
    obtain pos' where "delim_loop alloc (pars_buf p) d low (iCurrPos p) (pars_left p) cstr_empty
        = Some (RS_RET_OUT_OF_MEMORY, pos', st)"
      unfolding left using r(2) 2(2) by (auto simp del: delim_loop.simps)
    then show ?thesis
      using 2 by (simp add: parsDelimCStr_def del: delim_loop.simps)
  next
    case 3
    obtain s2 where s2: "(do { s1 \<leftarrow> cstrFinalize st; if trim then cstrTrimTrailingWhiteSpace s1 else Some s1 })
        = Some s2" "cstr_wf s2" "cstr_val s2 = (if trim then rtrim (cstr_val st) else cstr_val st)"
      using delim_result_finish [OF st(1)] 3(3) len(1) assms(2) by force
    have "delim_loop alloc (pars_buf p) d low (iCurrPos p) (pars_left p) cstr_empty
        = Some (RS_RET_OK, iCurrPos p + length ?w, st)"
      unfolding left using r(2) 3(2) by simp
    moreover obtain s1 where "cstrFinalize st = Some s1"
        "(if trim then cstrTrimTrailingWhiteSpace s1 else Some s1) = Some s2"
      using s2(1) by (auto simp: bind_eq_Some_conv)
    ultimately have "parsDelimCStr alloc p d False trim low
        = Some (RS_RET_OK, p \<lparr> iCurrPos := iCurrPos p + min (length rest) (length ?w + 1) \<rparr>, Some s2)"
      using 3(1) pos by (simp add: parsDelimCStr_def del: delim_loop.simps)
    then show ?thesis
      using s2 3(3) by simp
  qed
qed

lemma parsDelim_trim_leading:
  "parsSkipWhitespace p = Some p1 \<Longrightarrow> cstrConstruct alloc = (RS_RET_OK, Some cstr_empty) \<Longrightarrow>
    parsDelimCStr alloc p d True trim low = parsDelimCStr alloc p1 d False trim low"
  by (simp add: parsDelimCStr_def)

section \<open>Properties\<close>

text \<open>
  C16: Parsing an integer at a position where a digit stands reads the maximal run of digits,
  returns its decimal value and moves the position behind the last digit. The computation
  stays inside the range of \<^verbatim>\<open>int\<close> exactly for values up to 2147483599; from there on the
  intermediate sum overflows.
\<close>

theorem parsInt_decimal:
  assumes "pars_at p pre (ds @ rest)" "ds \<noteq> []" "\<forall>d \<in> set ds. isdigit d"
    "rest = [] \<or> \<not> isdigit (hd rest)"
  shows "parsInt p =
    (if dec_val 0 ds \<le> 2147483599
     then Some (RS_RET_OK, p \<lparr> iCurrPos := iCurrPos p + length ds \<rparr>, Some (dec_val 0 ds)) else None)"
proof -
  have h: "holds_at (pars_buf p) (iCurrPos p) (ds @ rest)"
    using assms(1) by (rule pars_at_holds)
  have left: "pars_left p = length (ds @ rest)" "iCurrPos p < iStrLen (pCStr p)"
    using pars_at_len [OF assms(1)] assms(1,2) by (auto simp: pars_at_def)
  have first: "buf_get (pars_buf p) (iCurrPos p) = Some (hd ds)" "isdigit (hd ds)"
    using h assms(2,3) by (cases ds; simp)+
  have "parsInt_loop (pars_buf p) (iCurrPos p) (pars_left p) 0 =
      (if dec_val 0 ds + 48 \<le> INT_MAX then Some (dec_val 0 ds, iCurrPos p + length ds) else None)"
    unfolding left(1) using parsInt_loop_val [OF h assms(3,4), of 0] assms(2) by simp
  then show ?thesis
    using first left(2) by (simp add: parsInt_def INT_MAX_def)
qed

theorem parsInt_decimal_witness:
  "\<exists>p. rsParsConstructFromSz (\<lambda>n. True) ''42,'' = Some (RS_RET_OK, Some p)
     \<and> parsInt p = Some (RS_RET_OK, p \<lparr> iCurrPos := 2 \<rparr>, Some 42)"
proof -
  obtain p where p: "rsParsConstructFromSz (\<lambda>n. True) ''42,'' = Some (RS_RET_OK, Some p)"
    by (simp add: rsParsConstructFromSz_def rsCStrConstructFromszStr_def cstr_of_text_def
        cstrConstruct_def buf_memcpy_def strlen_def)
  have at: "pars_at p [] (''42'' @ '','')"
    using rsParsConstructFromSz_ok [OF p] by simp
  have "parsInt p = Some (RS_RET_OK, p \<lparr> iCurrPos := 2 \<rparr>, Some 42)"
    using parsInt_decimal [OF at] at by (simp add: isdigit_def digit_val_def pars_at_def)
  with p show ?thesis
    by blast
qed

text \<open>
  Parsing up to a delimiter returns the text before the first delimiter (all of the
  rest when there is none), after skipping leading blanks if asked for, converted to lower
  case and with trailing blanks removed if asked for. The position ends behind the
  delimiter. The only error is running out of memory. The text has to be shorter than 2 GiB.
\<close>

theorem parsDelim_token:
  assumes "pars_at p pre rest" "rest' = (if lead then dropWhile isspace rest else rest)"
    "w = takeWhile (\<lambda>c. \<not> uchar_eq_char c d) rest'" "length rest < 2 ^ 31"
  shows "\<exists>r p' out. parsDelimCStr alloc p d lead trim low = Some (r, p', out) \<and>
    (r = RS_RET_OUT_OF_MEMORY \<and> out = None
     \<or> r = RS_RET_OK
       \<and> (\<exists>st. out = Some st \<and> cstr_wf st \<and> cstr_val st = (if trim then rtrim else id)
            (map (\<lambda>c. if low then tolower c else c) w))
       \<and> iCurrPos p' = length (pre @ rest) - length rest' + min (length rest') (length w + 1))"
proof -
  obtain p1 pre1 where p1: "pars_at p1 pre1 rest'" "length pre1 = length (pre @ rest) - length rest'"
      "cstrConstruct alloc = (RS_RET_OK, Some cstr_empty) \<Longrightarrow>
        parsDelimCStr alloc p d lead trim low = parsDelimCStr alloc p1 d False trim low"
  proof (cases lead)
    case True
    obtain p1 where "parsSkipWhitespace p = Some p1" "pars_at p1 (pre @ takeWhile isspace rest) rest'"
      using parsSkipWhitespace_at [OF assms(1)] assms(2) True by auto
    moreover have "length rest = length (takeWhile isspace rest) + length (dropWhile isspace rest)"
      by (metis length_append takeWhile_dropWhile_id)
    ultimately show ?thesis
      using that [of p1 "pre @ takeWhile isspace rest"] parsDelim_trim_leading [of p p1 alloc] True assms(2)
      by simp
  next
    case False
    then show ?thesis
      using that [of p pre] assms by simp
  qed
  have pos: "iCurrPos p1 = length (pre @ rest) - length rest'"
    using p1(1,2) by (simp add: pars_at_def)
  have small: "length rest' < 2 ^ 31"
    using assms(2,4) length_dropWhile_le [of isspace rest] by (auto split: if_splits)
  show ?thesis
  proof (cases "cstrConstruct alloc = (RS_RET_OK, Some cstr_empty)")
    case True
    show ?thesis
      unfolding p1(3) [OF True] using parsDelim_from [OF p1(1) small, of alloc d trim low] pos assms(3) by fastforce
  next
    case False
    then show ?thesis
      using cstrConstruct_cases [of alloc] by (auto simp: parsDelimCStr_def)
  qed
qed

theorem parsDelim_token_witness:
  "\<exists>p r p' out. rsParsConstructFromSz (\<lambda>n. True) '' MSG, isequal'' = Some (RS_RET_OK, Some p)
     \<and> parsDelimCStr (\<lambda>n. True) p (CHR '','') True True True = Some (r, p', out)
     \<and> (r = RS_RET_OK \<longrightarrow> iCurrPos p' = 5 \<and> (\<exists>st. out = Some st \<and> cstr_val st = ''msg''))"
proof -
  obtain p where p: "rsParsConstructFromSz (\<lambda>n. True) '' MSG, isequal'' = Some (RS_RET_OK, Some p)"
    by (simp add: rsParsConstructFromSz_def rsCStrConstructFromszStr_def cstr_of_text_def
        cstrConstruct_def buf_memcpy_def strlen_def)
  have at: "pars_at p [] '' MSG, isequal''"
    using rsParsConstructFromSz_ok [OF p] by simp
  have tok: "dropWhile isspace '' MSG, isequal'' = ''MSG, isequal''"
    "takeWhile (\<lambda>c. \<not> uchar_eq_char c (CHR '','')) ''MSG, isequal'' = ''MSG''"
    "rtrim (map tolower ''MSG'') = ''msg''"
    by code_simp+
  show ?thesis
    using parsDelim_token [OF at, of "''MSG, isequal''" True "''MSG''" "CHR '',''" "\<lambda>n. True" True True] p tok
    by fastforce
qed

text \<open>
  C12: The quoted-string parser inverts the quoting of a text. From any position before a
  quote, the text written with quotes and backslashes escaped comes back as it was, and the
  position ends behind the closing quote, unless memory runs out.
\<close>

theorem parsQuoted_roundtrip:
  assumes "pars_at p pre (xs @ CHR 0x22 # escape s @ CHR 0x22 # rest)" "CHR 0x22 \<notin> set xs"
  shows "\<exists>r p' out. parsQuotedCStr alloc p = Some (r, p', out) \<and>
    (r = RS_RET_OUT_OF_MEMORY \<and> out = None
     \<or> r = RS_RET_OK \<and> pars_at p' (pre @ xs @ CHR 0x22 # escape s @ [CHR 0x22]) rest
       \<and> (\<exists>st. out = Some st \<and> cstr_wf st \<and> cstr_val st = s))"
  using assms by (rule parsQuoted_escape)

lemma quoted_demo_memory:
  "\<exists>p. rsParsConstructFromSz (\<lambda>n. True) (CHR 0x22 # escape [CHR 0x22] @ [CHR 0x22]) = Some (RS_RET_OK, Some p)
     \<and> map_option fst (parsQuotedCStr (\<lambda>n. True) p) = Some RS_RET_OK"
proof -
  have "case rsParsConstructFromSz (\<lambda>n. True) (CHR 0x22 # escape [CHR 0x22] @ [CHR 0x22]) of
      Some (RS_RET_OK, Some p) \<Rightarrow> map_option fst (parsQuotedCStr (\<lambda>n. True) p) = Some RS_RET_OK | _ \<Rightarrow> False"
    by code_simp
  then show ?thesis
    by (auto split: option.splits prod.splits rsRetVal.splits)
qed

theorem parsQuoted_roundtrip_witness:
  "\<exists>p p' st. rsParsConstructFromSz (\<lambda>n. True) (CHR 0x22 # escape [CHR 0x22] @ [CHR 0x22])
       = Some (RS_RET_OK, Some p)
     \<and> parsQuotedCStr (\<lambda>n. True) p = Some (RS_RET_OK, p', Some st) \<and> cstr_val st = [CHR 0x22]"
proof -
  let ?t = "CHR 0x22 # escape [CHR 0x22] @ [CHR 0x22]"
  have nonul: "NUL \<notin> set ?t"
    by (simp add: escape_def esc_char_def)
  obtain p where p: "rsParsConstructFromSz (\<lambda>n. True) ?t = Some (RS_RET_OK, Some p)"
      "map_option fst (parsQuotedCStr (\<lambda>n. True) p) = Some RS_RET_OK"
    using quoted_demo_memory by blast
  have "pars_at p [] ([] @ ?t)"
    using rsParsConstructFromSz_ok [OF p(1) nonul] by simp
  from parsQuoted_roundtrip [OF this, of "\<lambda>n. True"] p show ?thesis
    by fastforce
qed

text \<open>
  C20: On a string object that ends with a backslash inside an open quotation the
  quoted-string parser steps over the end of the string and reads one byte behind the
  allocated buffer.
\<close>

theorem parsQuoted_open_backslash:
  assumes "rsParsConstructFromSz (\<lambda>n. True) (CHR 0x22 # escape s @ [CHR 0x5C]) = Some (RS_RET_OK, Some p)"
    "NUL \<notin> set s"
  shows "parsQuotedCStr (\<lambda>n. True) p = None"
proof -
  let ?q = "CHR 0x22" and ?b = "CHR 0x5C" and ?n = "length (escape s)"
  let ?t = "?q # escape s @ [?b]" and ?p1 = "p \<lparr> iCurrPos := iCurrPos p + length ([] @ [?q]) \<rparr>"
  have "NUL \<notin> set ?t"
    using assms(2) by (auto simp: escape_def esc_char_def split: if_splits)
  then have at: "pars_at p [] ([] @ ?q # escape s @ [?b])" and buf: "pars_buf p = map Some ?t @ [None]"
    using rsParsConstructFromSz_ok [OF assms(1)] by auto
  have pos: "iCurrPos p = 0"
    using at by (simp add: pars_at_def)
  have skip: "parsSkipAfterChar p ?q = Some (RS_RET_OK, ?p1)"
    using at by (intro parsSkipAfterChar_found) auto
  have at1: "pars_at ?p1 [?q] (escape s @ [?b])"
    using pars_at_advance [of p "[]" "[?q]" "escape s @ [?b]"] at by simp
  have left: "pars_left ?p1 = length (escape s @ [?b])"
    by (rule conjunct1 [OF pars_at_len [OF at1]])
  have h: "holds_at (pars_buf ?p1) (iCurrPos ?p1) (escape s @ [?b])"
    using at1 by (rule pars_at_holds)
  obtain r st where r: "append_all (cstrAppendChar (\<lambda>n. True)) cstr_empty s = Some (r, st)"
      "if r = RS_RET_OK
       then quoted_loop (\<lambda>n. True) (pars_buf ?p1) (iCurrPos ?p1) (length (escape s @ [?b])) cstr_empty =
         quoted_loop (\<lambda>n. True) (pars_buf ?p1) (iCurrPos ?p1 + ?n) (length [?b]) st
       else \<exists>pos'. quoted_loop (\<lambda>n. True) (pars_buf ?p1) (iCurrPos ?p1) (length (escape s @ [?b])) cstr_empty
         = Some (r, pos', st)"
    using quoted_loop_escape [OF h cstr_wf_construct, of "\<lambda>n. True"] by (elim exE conjE) (rule that)
  have eq: "quoted_loop (\<lambda>n. True) (pars_buf ?p1) (iCurrPos ?p1) (length (escape s @ [?b])) cstr_empty =
      quoted_loop (\<lambda>n. True) (pars_buf ?p1) (iCurrPos ?p1 + ?n) (length [?b]) st"
    using r(2) by (simp only: append_never_fails [OF r(1)] simp_thms if_True)
  have "buf_get (pars_buf ?p1) (iCurrPos ?p1 + ?n) = Some ?b"
    using h by (simp add: holds_at_append)
  then have "quoted_loop (\<lambda>n. True) (pars_buf ?p1) (iCurrPos ?p1) (pars_left ?p1) cstr_empty
      = Some (RS_RET_OK, ?n + 3, st)"
    unfolding left eq using pos by simp
  moreover have "buf_get (pars_buf p) (?n + 3) = None"
    by (simp add: buf buf_get_def)
  ultimately show ?thesis
    using skip by (simp add: parsQuotedCStr_def cstrConstruct_def del: quoted_loop.simps)
qed

theorem parsQuoted_open_backslash_witness:
  "\<exists>p. rsParsConstructFromSz (\<lambda>n. True) [CHR 0x22, CHR 0x5C] = Some (RS_RET_OK, Some p)
     \<and> parsQuotedCStr (\<lambda>n. True) p = None"
proof -
  obtain p where p: "rsParsConstructFromSz (\<lambda>n. True) [CHR 0x22, CHR 0x5C] = Some (RS_RET_OK, Some p)"
    by (simp add: rsParsConstructFromSz_def rsCStrConstructFromszStr_def cstr_of_text_def
        cstrConstruct_def buf_memcpy_def strlen_def)
  then show ?thesis
    using parsQuoted_open_backslash [of "[]" p] by (simp add: escape_def)
qed

end
