(* ===== verification/Linked_List.thy ===== *)
theory Linked_List
imports Rsyslog_Prelude
begin

text \<open>
  The singly linked list of \<^verbatim>\<open>runtime/linkedlist.c\<close> on an explicit heap: a map from
  addresses to elements, because the code keeps a tail pointer into the chain and unlinks
  elements in place. Every operation takes the heap and the list header and returns both;
  \<^term>\<open>None\<close> is an access through a null or freed pointer. Allocation is an argument: the
  address \<^verbatim>\<open>calloc\<close> returned, or \<^term>\<open>None\<close> when it failed. The destructor callbacks are
  recorded as a list of events in the order of their calls; the comparison and the visiting
  callback are arguments. A loop that follows pointers is a partial function, so that a
  cyclic chain would show as a missing result.
\<close>

section \<open>The heap, the elements and the header\<close>

record ('k, 'd) llElt =
  pNext :: "nat option"
  pKey :: "'k option"
  pData :: "'d option"

type_synonym ('k, 'd) ll_heap = "nat \<Rightarrow> ('k, 'd) llElt option"

record linkedList =
  iNumElts :: int
  pRoot :: "nat option"
  pLast :: "nat option"

datatype ('k, 'd) ll_event = EltDestruct 'd | KeyDestruct 'k

section \<open>Operations\<close>

definition llInit :: "linkedList" where
  "llInit = \<lparr> iNumElts = 0, pRoot = None, pLast = None \<rparr>"

definition elt_events :: "('k, 'd) llElt \<Rightarrow> ('k, 'd) ll_event list" where
  "elt_events e = (case pData e of None \<Rightarrow> [] | Some d \<Rightarrow> [EltDestruct d])
     @ (case pKey e of None \<Rightarrow> [] | Some k \<Rightarrow> [KeyDestruct k])"

definition llDestroyElt ::
    "('k, 'd) ll_heap \<Rightarrow> linkedList \<Rightarrow> nat
      \<Rightarrow> (('k, 'd) ll_heap \<times> linkedList \<times> ('k, 'd) ll_event list) option" where
  "llDestroyElt h l a =
     do { e \<leftarrow> h a; Some (h (a := None), l \<lparr> iNumElts := iNumElts l - 1 \<rparr>, elt_events e) }"

partial_function (option) llDestroy ::
    "('k, 'd) ll_heap \<Rightarrow> linkedList \<Rightarrow> (('k, 'd) ll_heap \<times> linkedList \<times> ('k, 'd) ll_event list) option" where
  [code]: "llDestroy h l =
     (case pRoot l of
        None \<Rightarrow> Some (h, l, [])
      | Some a \<Rightarrow> do {
          e \<leftarrow> h a;
          (h1, l1, ev) \<leftarrow> llDestroyElt h
            (if pNext e = None then l \<lparr> pRoot := pNext e, pLast := None \<rparr> else l \<lparr> pRoot := pNext e \<rparr>) a;
          (h2, l2, evs) \<leftarrow> llDestroy h1 l1;
          Some (h2, l2, ev @ evs) })"

definition llDestroyRootElt ::
    "('k, 'd) ll_heap \<Rightarrow> linkedList
      \<Rightarrow> (rsRetVal \<times> ('k, 'd) ll_heap \<times> linkedList \<times> ('k, 'd) ll_event list) option" where
  "llDestroyRootElt h l =
     (case pRoot l of
        None \<Rightarrow> Some (RS_RET_EMPTY_LIST, h, l, [])
      | Some a \<Rightarrow> do {
          e \<leftarrow> h a;
          (h1, l1, ev) \<leftarrow> llDestroyElt h
            (if pNext e = None then l \<lparr> pLast := None, pRoot := None \<rparr> else l \<lparr> pRoot := pNext e \<rparr>) a;
          Some (RS_RET_OK, h1, l1, ev) })"

text \<open>The cookie is the pointer to the current element; the null pointer starts a walk.\<close>

definition llGetNextElt ::
    "('k, 'd) ll_heap \<Rightarrow> linkedList \<Rightarrow> nat option \<Rightarrow> (rsRetVal \<times> nat option \<times> 'd option) option" where
  "llGetNextElt h l cookie =
     do { p \<leftarrow> (case cookie of None \<Rightarrow> Some (pRoot l) | Some a \<Rightarrow> map_option pNext (h a));
          case p of
            None \<Rightarrow> Some (RS_RET_END_OF_LINKEDLIST, None, None)
          | Some a \<Rightarrow> do { e \<leftarrow> h a; Some (RS_RET_OK, Some a, pData e) } }"

definition llGetKey :: "('k, 'd) ll_heap \<Rightarrow> nat \<Rightarrow> 'k option option" where
  "llGetKey h a = map_option pKey (h a)"

definition llEltConstruct ::
    "('k, 'd) ll_heap \<Rightarrow> nat option \<Rightarrow> 'k option \<Rightarrow> 'd option \<Rightarrow> rsRetVal \<times> ('k, 'd) ll_heap" where
  "llEltConstruct h new key data =
     (case new of
        None \<Rightarrow> (RS_RET_OUT_OF_MEMORY, h)
      | Some a \<Rightarrow> (RS_RET_OK, h (a \<mapsto> \<lparr> pNext = None, pKey = key, pData = data \<rparr>)))"

definition llAppend ::
    "('k, 'd) ll_heap \<Rightarrow> linkedList \<Rightarrow> nat option \<Rightarrow> 'k option \<Rightarrow> 'd option
      \<Rightarrow> (rsRetVal \<times> ('k, 'd) ll_heap \<times> linkedList) option" where
  "llAppend h l new key data =
     (case llEltConstruct h new key data of
        (r, h1) \<Rightarrow>
          if r \<noteq> RS_RET_OK then Some (r, h1, l)
          else case pLast l of
            None \<Rightarrow> Some (RS_RET_OK, h1, l \<lparr> iNumElts := iNumElts l + 1, pRoot := new, pLast := new \<rparr>)
          | Some t \<Rightarrow> do {
              e \<leftarrow> h1 t;
              Some (RS_RET_OK, h1 (t \<mapsto> e \<lparr> pNext := new \<rparr>),
                l \<lparr> iNumElts := iNumElts l + 1, pLast := new \<rparr>) })"

definition llUnlinkElt ::
    "('k, 'd) ll_heap \<Rightarrow> linkedList \<Rightarrow> nat \<Rightarrow> nat option \<Rightarrow> (('k, 'd) ll_heap \<times> linkedList) option" where
  "llUnlinkElt h l a prev =
     do { e \<leftarrow> h a;
          (h1, l1) \<leftarrow> (case prev of
             None \<Rightarrow> Some (h, l \<lparr> pRoot := pNext e \<rparr>)
           | Some b \<Rightarrow> do { f \<leftarrow> h b; Some (h (b \<mapsto> f \<lparr> pNext := pNext e \<rparr>), l) });
          Some (h1, if Some a = pLast l1 then l1 \<lparr> pLast := prev \<rparr> else l1) }"

definition llUnlinkAndDelteElt ::
    "('k, 'd) ll_heap \<Rightarrow> linkedList \<Rightarrow> nat \<Rightarrow> nat option
      \<Rightarrow> (('k, 'd) ll_heap \<times> linkedList \<times> ('k, 'd) ll_event list) option" where
  "llUnlinkAndDelteElt h l a prev = do { (h1, l1) \<leftarrow> llUnlinkElt h l a prev; llDestroyElt h1 l1 a }"

text \<open>The search loop, from the element \<^term>\<open>p\<close> with its predecessor \<^term>\<open>prev\<close>.\<close>

partial_function (option) llFindElt_loop ::
    "('k \<Rightarrow> 'k option \<Rightarrow> int) \<Rightarrow> ('k, 'd) ll_heap \<Rightarrow> 'k \<Rightarrow> nat option \<Rightarrow> nat option
      \<Rightarrow> (nat \<times> nat option) option option" where
  [code]: "llFindElt_loop cmpOp h key p prev =
     (case p of
        None \<Rightarrow> Some None
      | Some a \<Rightarrow> do {
          e \<leftarrow> h a;
          if cmpOp key (pKey e) = 0 then Some (Some (a, prev))
          else llFindElt_loop cmpOp h key (pNext e) (Some a) })"

definition llFindElt ::
    "('k \<Rightarrow> 'k option \<Rightarrow> int) \<Rightarrow> ('k, 'd) ll_heap \<Rightarrow> linkedList \<Rightarrow> 'k
      \<Rightarrow> (rsRetVal \<times> (nat \<times> nat option) option) option" where
  "llFindElt cmpOp h l key =
     do { f \<leftarrow> llFindElt_loop cmpOp h key (pRoot l) None;
          Some (if f = None then RS_RET_NOT_FOUND else RS_RET_OK, f) }"

definition llFind ::
    "('k \<Rightarrow> 'k option \<Rightarrow> int) \<Rightarrow> ('k, 'd) ll_heap \<Rightarrow> linkedList \<Rightarrow> 'k
      \<Rightarrow> (rsRetVal \<times> 'd option) option" where
  "llFind cmpOp h l key =
     do { (r, f) \<leftarrow> llFindElt cmpOp h l key;
          case f of
            None \<Rightarrow> Some (r, None)
          | Some (a, prev) \<Rightarrow> do { e \<leftarrow> h a; Some (RS_RET_OK, pData e) } }"

definition llFindAndDelete ::
    "('k \<Rightarrow> 'k option \<Rightarrow> int) \<Rightarrow> ('k, 'd) ll_heap \<Rightarrow> linkedList \<Rightarrow> 'k
      \<Rightarrow> (rsRetVal \<times> ('k, 'd) ll_heap \<times> linkedList \<times> ('k, 'd) ll_event list) option" where
  "llFindAndDelete cmpOp h l key =
     do { (r, f) \<leftarrow> llFindElt cmpOp h l key;
          case f of
            None \<Rightarrow> Some (r, h, l, [])
          | Some (a, prev) \<Rightarrow> do {
              (h1, l1, ev) \<leftarrow> llUnlinkAndDelteElt h l a prev; Some (RS_RET_OK, h1, l1, ev) } }"

definition llGetNumElts :: "linkedList \<Rightarrow> int" where
  "llGetNumElts l = iNumElts l"

text \<open>
  The visiting loop: the callback gets the data of an element and a state of its own, and
  may ask for the element to be deleted or for the walk to stop.
\<close>

partial_function (option) llExec_loop ::
    "('d option \<Rightarrow> 's \<Rightarrow> rsRetVal \<times> 's) \<Rightarrow> ('k, 'd) ll_heap \<Rightarrow> linkedList \<Rightarrow> nat option \<Rightarrow> nat option \<Rightarrow> 's
      \<Rightarrow> (rsRetVal \<times> ('k, 'd) ll_heap \<times> linkedList \<times> 's) option" where
  [code]: "llExec_loop pFunc h l cookie prev st =
     do { (rl, cur, dat) \<leftarrow> llGetNextElt h l cookie;
          case cur of
            None \<Rightarrow> Some (RS_RET_OK, h, l, st)
          | Some a \<Rightarrow>
              if fst (pFunc dat st) = RS_RET_OK_DELETE_LISTENTRY
              then do {
                (h1, l1, ev) \<leftarrow> llUnlinkAndDelteElt h l a prev;
                llExec_loop pFunc h1 l1 prev prev (snd (pFunc dat st)) }
              else if fst (pFunc dat st) \<noteq> RS_RET_OK
              then Some (fst (pFunc dat st), h, l, snd (pFunc dat st))
              else llExec_loop pFunc h l cur cur (snd (pFunc dat st)) }"

definition llExecFunc ::
    "('d option \<Rightarrow> 's \<Rightarrow> rsRetVal \<times> 's) \<Rightarrow> ('k, 'd) ll_heap \<Rightarrow> linkedList \<Rightarrow> 's
      \<Rightarrow> (rsRetVal \<times> ('k, 'd) ll_heap \<times> linkedList \<times> 's) option" where
  "llExecFunc pFunc h l st = llExec_loop pFunc h l None None st"

section \<open>What a header represents\<close>

text \<open>
  A cell is an address with the key and the data stored there. \<^term>\<open>ll_next\<close> is the
  pointer to the first cell of a sequence, \<^term>\<open>ll_seg\<close> says that the heap links the cells
  of a sequence in order and ends with the given pointer, and \<^term>\<open>ll_rep\<close> relates a whole
  list to its cells.
\<close>

type_synonym ('k, 'd) ll_cell = "nat \<times> 'k option \<times> 'd option"

definition ll_next :: "('k, 'd) ll_cell list \<Rightarrow> nat option \<Rightarrow> nat option" where
  "ll_next xs p = (case xs of [] \<Rightarrow> p | x # _ \<Rightarrow> Some (fst x))"

definition ll_last :: "('k, 'd) ll_cell list \<Rightarrow> nat option" where
  "ll_last xs = (if xs = [] then None else Some (fst (last xs)))"

primrec ll_seg :: "('k, 'd) ll_heap \<Rightarrow> ('k, 'd) ll_cell list \<Rightarrow> nat option \<Rightarrow> bool" where
  "ll_seg h [] p \<longleftrightarrow> True"
| "ll_seg h (x # xs) p \<longleftrightarrow>
     h (fst x) = Some \<lparr> pNext = ll_next xs p, pKey = fst (snd x), pData = snd (snd x) \<rparr> \<and> ll_seg h xs p"

definition ll_rep :: "('k, 'd) ll_heap \<Rightarrow> linkedList \<Rightarrow> ('k, 'd) ll_cell list \<Rightarrow> bool" where
  "ll_rep h l xs \<longleftrightarrow> ll_seg h xs None \<and> distinct (map fst xs) \<and> pRoot l = ll_next xs None
     \<and> pLast l = ll_last xs \<and> iNumElts l = int (length xs)"

text \<open>What a walk with a callback does to the sequence of cells.\<close>

fun exec_cells :: "('d option \<Rightarrow> 's \<Rightarrow> rsRetVal \<times> 's) \<Rightarrow> ('k, 'd) ll_cell list \<Rightarrow> 's
    \<Rightarrow> rsRetVal \<times> ('k, 'd) ll_cell list \<times> 's" where
  "exec_cells f [] st = (RS_RET_OK, [], st)"
| "exec_cells f (x # xs) st =
     (let (r, st1) = f (snd (snd x)) st in
      if r = RS_RET_OK_DELETE_LISTENTRY then exec_cells f xs st1
      else if r \<noteq> RS_RET_OK then (r, x # xs, st1)
      else let (r2, ys, st2) = exec_cells f xs st1 in (r2, x # ys, st2))"

definition cell_events :: "('k, 'd) ll_cell \<Rightarrow> ('k, 'd) ll_event list" where
  "cell_events x = elt_events \<lparr> pNext = None, pKey = fst (snd x), pData = snd (snd x) \<rparr>"

section \<open>Facts on segments\<close>

lemma ll_next_simps [simp]:
  "ll_next [] p = p" "ll_next (x # xs) p = Some (fst x)"
  by (simp_all add: ll_next_def)

lemma ll_next_append [simp]: "ll_next (xs @ ys) p = ll_next xs (ll_next ys p)"
  by (cases xs) auto

lemma ll_last_simps [simp]: "ll_last [] = None" "ll_last (xs @ [x]) = Some (fst x)"
  by (simp_all add: ll_last_def)

lemma ll_seg_append [simp]: "ll_seg h (xs @ ys) p \<longleftrightarrow> ll_seg h xs (ll_next ys p) \<and> ll_seg h ys p"
  by (induction xs) auto

lemma ll_seg_frame [simp]: "a \<notin> fst ` set xs \<Longrightarrow> ll_seg (h (a := v)) xs p = ll_seg h xs p"
  by (induction xs) auto

lemma elt_events_next [simp]: "elt_events (e \<lparr> pNext := p \<rparr>) = elt_events e"
  by (simp add: elt_events_def)

lemma elt_events_cell:
  "elt_events \<lparr> pNext = p, pKey = fst (snd x), pData = snd (snd x) \<rparr> = cell_events x"
  by (simp add: cell_events_def elt_events_def)

section \<open>Facts on the operations\<close>

lemma ll_rep_init: "ll_rep h llInit []"
  by (simp add: ll_rep_def llInit_def)

lemma llAppend_rep:
  assumes "ll_rep h l xs" "h a = None"
  shows "\<exists>h' l'. llAppend h l (Some a) key data = Some (RS_RET_OK, h', l')
    \<and> ll_rep h' l' (xs @ [(a, key, data)]) \<and> (\<forall>b. b \<noteq> a \<and> b \<notin> fst ` set xs \<longrightarrow> h' b = h b)"
proof (cases xs rule: rev_cases)
  case Nil
  then show ?thesis
    using assms by (simp add: llAppend_def llEltConstruct_def ll_rep_def) (simp add: ll_last_def)
next
  case (snoc ys y)
  have "a \<notin> fst ` set xs"
  proof
    assume "a \<in> fst ` set xs"
    then obtain us x vs where "xs = us @ x # vs" "a = fst x"
      by (meson imageE split_list)
    then show False
      using assms by (simp add: ll_rep_def)
  qed
  moreover have "distinct (map fst ys) \<and> fst y \<notin> fst ` set ys \<and> pLast l = Some (fst y)"
    using assms(1) by (simp add: ll_rep_def snoc)
  ultimately show ?thesis
    using assms unfolding snoc
    by (auto simp: llAppend_def llEltConstruct_def ll_rep_def ll_last_def fun_upd_twist)
qed

lemma llAppend_oom: "llAppend h l None key data = Some (RS_RET_OUT_OF_MEMORY, h, l)"
  by (simp add: llAppend_def llEltConstruct_def)

lemma llUnlinkAndDelte_rep:
  assumes "ll_rep h l (ys @ z # zs)"
  shows "\<exists>h' l'. llUnlinkAndDelteElt h l (fst z) (ll_last ys) = Some (h', l', cell_events z)
    \<and> ll_rep h' l' (ys @ zs) \<and> h' (fst z) = None
    \<and> (\<forall>b. b \<notin> fst ` set (ys @ z # zs) \<longrightarrow> h' b = h b)"
proof (cases ys rule: rev_cases)
  case Nil
  then show ?thesis
    using assms
    by (auto simp: llUnlinkAndDelteElt_def llUnlinkElt_def llDestroyElt_def ll_rep_def elt_events_cell
        ll_last_def)
next
  case (snoc us u)
  have d: "fst z \<noteq> fst u" "fst z \<notin> fst ` set us" "fst z \<notin> fst ` set zs" "fst u \<notin> fst ` set us"
    "fst u \<notin> fst ` set zs"
    using assms by (auto simp: ll_rep_def snoc)
  then show ?thesis
    using assms unfolding snoc
    by (auto simp: llUnlinkAndDelteElt_def llUnlinkElt_def llDestroyElt_def ll_rep_def elt_events_cell
        ll_last_def)
qed

text \<open>
  The search over the cells, with the predecessor pointer it hands out; the first match
  splits the sequence.
\<close>

fun find_cells ::
    "(('k, 'd) ll_cell \<Rightarrow> bool) \<Rightarrow> ('k, 'd) ll_cell list \<Rightarrow> nat option \<Rightarrow> (('k, 'd) ll_cell \<times> nat option) option" where
  "find_cells P [] prev = None"
| "find_cells P (x # xs) prev = (if P x then Some (x, prev) else find_cells P xs (Some (fst x)))"

lemma llFindElt_loop_cells:
  "ll_seg h xs None \<Longrightarrow> llFindElt_loop cmpOp h key (ll_next xs None) prev =
    Some (map_option (\<lambda>(z, q). (fst z, q)) (find_cells (\<lambda>x. cmpOp key (fst (snd x)) = 0) xs prev))"
  by (induction xs arbitrary: prev) (simp_all add: llFindElt_loop.simps)

lemma find_cells_None: "find_cells P xs prev = None \<Longrightarrow> \<forall>x \<in> set xs. \<not> P x"
  by (induction xs arbitrary: prev) (auto split: if_splits)

lemma find_cells_Some:
  "find_cells P xs prev = Some (z, q) \<Longrightarrow>
    \<exists>ys zs. xs = ys @ z # zs \<and> (\<forall>y \<in> set ys. \<not> P y) \<and> P z \<and> q = (if ys = [] then prev else ll_last ys)"
proof (induction xs arbitrary: prev)
  case (Cons x xs)
  show ?case
  proof (cases "P x")
    case True
    then show ?thesis
      using Cons.prems by (intro exI [of _ "[]"] exI [of _ xs]) simp
  next
    case False
    then obtain ys zs where "xs = ys @ z # zs" "\<forall>y \<in> set ys. \<not> P y" "P z"
        "q = (if ys = [] then Some (fst x) else ll_last ys)"
      using Cons.IH [of "Some (fst x)"] Cons.prems by auto
    then show ?thesis
      using False by (intro exI [of _ "x # ys"] exI [of _ zs]) (auto simp: ll_last_def)
  qed
qed simp

text \<open>A search either finds no match or splits the list at the first one.\<close>

lemma llFindElt_cases:
  assumes "ll_rep h l xs"
  obtains (missing) "llFindElt cmpOp h l key = Some (RS_RET_NOT_FOUND, None)"
      "\<forall>x \<in> set xs. cmpOp key (fst (snd x)) \<noteq> 0"
  | (found) ys z zs where "xs = ys @ z # zs" "\<forall>y \<in> set ys. cmpOp key (fst (snd y)) \<noteq> 0"
      "cmpOp key (fst (snd z)) = 0"
      "llFindElt cmpOp h l key = Some (RS_RET_OK, Some (fst z, ll_last ys))"
proof (cases "find_cells (\<lambda>x. cmpOp key (fst (snd x)) = 0) xs None")
  case None
  then show ?thesis
    using missing find_cells_None [OF None] assms llFindElt_loop_cells [of h xs cmpOp key None]
    by (simp add: llFindElt_def ll_rep_def)
next
  case (Some r)
  obtain z q where r: "r = (z, q)"
    by (cases r)
  obtain ys zs where "xs = ys @ z # zs" "\<forall>y \<in> set ys. cmpOp key (fst (snd y)) \<noteq> 0"
      "cmpOp key (fst (snd z)) = 0" "q = ll_last ys"
    using find_cells_Some [OF Some [unfolded r]] by (auto simp: ll_last_def)
  then show ?thesis
    using found Some assms llFindElt_loop_cells [of h xs cmpOp key None]
    by (auto simp: llFindElt_def ll_rep_def r)
qed

lemma find_append_first:
  "\<forall>y \<in> set ys. \<not> P y \<Longrightarrow> P z \<Longrightarrow> find P (ys @ z # zs) = Some z"
  by (induction ys) auto

lemma remove_first_append:
  "\<forall>y \<in> set ys. \<not> P y \<Longrightarrow> P z \<Longrightarrow>
    takeWhile (\<lambda>x. \<not> P x) (ys @ z # zs) @ tl (dropWhile (\<lambda>x. \<not> P x) (ys @ z # zs)) = ys @ zs"
  by (induction ys) auto

text \<open>The list without its first cell that satisfies \<^term>\<open>P\<close>.\<close>

definition remove_first :: "('a \<Rightarrow> bool) \<Rightarrow> 'a list \<Rightarrow> 'a list" where
  "remove_first P xs = takeWhile (\<lambda>x. \<not> P x) xs @ tl (dropWhile (\<lambda>x. \<not> P x) xs)"

lemma remove_first_none: "\<forall>x \<in> set xs. \<not> P x \<Longrightarrow> remove_first P xs = xs"
  by (induction xs) (auto simp: remove_first_def)

lemma llFind_rep:
  assumes "ll_rep h l xs"
  shows "llFind cmpOp h l key = Some (case find (\<lambda>x. cmpOp key (fst (snd x)) = 0) xs of
      None \<Rightarrow> (RS_RET_NOT_FOUND, None) | Some x \<Rightarrow> (RS_RET_OK, snd (snd x)))"
  using assms
proof (cases rule: llFindElt_cases [where cmpOp = cmpOp and key = key])
  case missing
  then have "find (\<lambda>x. cmpOp key (fst (snd x)) = 0) xs = None"
    by (auto simp: find_None_iff)
  then show ?thesis
    using missing by (simp add: llFind_def)
next
  case (found ys z zs)
  then show ?thesis
    using assms by (simp add: llFind_def ll_rep_def find_append_first)
qed

lemma llFindAndDelete_rep:
  assumes "ll_rep h l xs"
  shows "\<exists>r h' l' ev. llFindAndDelete cmpOp h l key = Some (r, h', l', ev)
    \<and> ll_rep h' l' (remove_first (\<lambda>x. cmpOp key (fst (snd x)) = 0) xs)
    \<and> (r, ev) = (case find (\<lambda>x. cmpOp key (fst (snd x)) = 0) xs of
        None \<Rightarrow> (RS_RET_NOT_FOUND, []) | Some x \<Rightarrow> (RS_RET_OK, cell_events x))
    \<and> (\<forall>b. b \<notin> fst ` set xs \<longrightarrow> h' b = h b)"
  using assms
proof (cases rule: llFindElt_cases [where cmpOp = cmpOp and key = key])
  case missing
  then have "find (\<lambda>x. cmpOp key (fst (snd x)) = 0) xs = None"
    by (auto simp: find_None_iff)
  then show ?thesis
    using missing assms by (simp add: llFindAndDelete_def remove_first_none)
next
  case (found ys z zs)
  obtain h' l' where d: "llUnlinkAndDelteElt h l (fst z) (ll_last ys) = Some (h', l', cell_events z)"
      "ll_rep h' l' (ys @ zs)" "\<forall>b. b \<notin> fst ` set (ys @ z # zs) \<longrightarrow> h' b = h b"
    using llUnlinkAndDelte_rep [of h l ys z zs] assms found(1) by blast
  have "remove_first (\<lambda>x. cmpOp key (fst (snd x)) = 0) xs = ys @ zs"
    "find (\<lambda>x. cmpOp key (fst (snd x)) = 0) xs = Some z"
    unfolding remove_first_def found(1) using found(2,3)
    by (simp_all only: remove_first_append find_append_first not_not)
  then show ?thesis
    using d found by (simp add: llFindAndDelete_def)
qed

lemma llGetNextElt_at:
  assumes "ll_rep h l (ys @ zs)"
  shows "llGetNextElt h l (ll_last ys) = Some
    (case zs of [] \<Rightarrow> (RS_RET_END_OF_LINKEDLIST, None, None) | z # _ \<Rightarrow> (RS_RET_OK, Some (fst z), snd (snd z)))"
  using assms by (cases ys rule: rev_cases; cases zs) (auto simp: llGetNextElt_def ll_rep_def)

lemma llExec_loop_cells:
  assumes "ll_rep h l (ys @ zs)"
  shows "\<exists>h' l'. llExec_loop f h l (ll_last ys) (ll_last ys) st
      = Some (fst (exec_cells f zs st), h', l', snd (snd (exec_cells f zs st)))
    \<and> ll_rep h' l' (ys @ fst (snd (exec_cells f zs st)))"
  using assms
proof (induction zs arbitrary: h l ys st)
  case Nil
  then show ?case
    using llGetNextElt_at [OF Nil] by (subst llExec_loop.simps) simp
next
  case (Cons z zs)
  obtain r st1 where f: "f (snd (snd z)) st = (r, st1)"
    by (cases "f (snd (snd z)) st")
  consider (delete) "r = RS_RET_OK_DELETE_LISTENTRY" | (go) "r = RS_RET_OK"
    | (stop) "r \<noteq> RS_RET_OK_DELETE_LISTENTRY" "r \<noteq> RS_RET_OK"
    by blast
  then show ?case
  proof cases
    case delete
    obtain h1 l1 where 1: "llUnlinkAndDelteElt h l (fst z) (ll_last ys) = Some (h1, l1, cell_events z)"
        "ll_rep h1 l1 (ys @ zs)"
      using llUnlinkAndDelte_rep [OF Cons.prems] by blast
    have "llExec_loop f h l (ll_last ys) (ll_last ys) st = llExec_loop f h1 l1 (ll_last ys) (ll_last ys) st1"
      using 1(1) f delete by (subst llExec_loop.simps) (simp add: llGetNextElt_at [OF Cons.prems])
    then show ?thesis
      using Cons.IH [OF 1(2), of st1] f delete by simp
  next
    case go
    have "llExec_loop f h l (ll_last ys) (ll_last ys) st
        = llExec_loop f h l (ll_last (ys @ [z])) (ll_last (ys @ [z])) st1"
      using f go by (subst llExec_loop.simps) (simp add: llGetNextElt_at [OF Cons.prems])
    then show ?thesis
      using Cons.IH [of h l "ys @ [z]" st1] Cons.prems f go by (simp add: case_prod_beta)
  next
    case stop
    then show ?thesis
      using f Cons.prems
      by (subst llExec_loop.simps) (simp add: llGetNextElt_at [OF Cons.prems])
  qed
qed

lemma llDestroy_cells:
  assumes "ll_rep h l xs"
  shows "\<exists>h' l'. llDestroy h l = Some (h', l', concat (map cell_events xs)) \<and> ll_rep h' l' []
    \<and> (\<forall>b. h' b = (if b \<in> fst ` set xs then None else h b))"
  using assms
proof (induction xs arbitrary: h l)
  case Nil
  then show ?case
    by (subst llDestroy.simps) (auto simp: ll_rep_def)
next
  case (Cons x xs)
  let ?l = "if ll_next xs None = None then l \<lparr> pRoot := ll_next xs None, pLast := None \<rparr>
    else l \<lparr> pRoot := ll_next xs None \<rparr>"
  let ?l1 = "?l \<lparr> iNumElts := iNumElts l - 1 \<rparr>"
  have x: "h (fst x) = Some \<lparr> pNext = ll_next xs None, pKey = fst (snd x), pData = snd (snd x) \<rparr>"
    using Cons.prems by (simp add: ll_rep_def)
  have rep: "ll_rep (h (fst x := None)) ?l1 xs"
    using Cons.prems by (cases xs) (auto simp: ll_rep_def ll_last_def)
  have step: "llDestroyElt h ?l (fst x) = Some (h (fst x := None), ?l1, cell_events x)"
    using x by (simp add: llDestroyElt_def elt_events_cell)
  obtain h' l' where IH: "llDestroy (h (fst x := None)) ?l1 = Some (h', l', concat (map cell_events xs))"
      "ll_rep h' l' []" "\<forall>b. h' b = (if b \<in> fst ` set xs then None else (h (fst x := None)) b)"
    using Cons.IH [OF rep] by blast
  have root: "pRoot l = Some (fst x)"
    using Cons.prems by (simp add: ll_rep_def)
  have "llDestroy h l = Some (h', l', concat (map cell_events (x # xs)))"
    using step IH(1) by (subst llDestroy.simps) (cases "ll_next xs None"; simp add: root x)
  then show ?case
    using IH(2,3) by auto
qed

section \<open>The interface of a keyed list\<close>

text \<open>
  What a client of a keyed list relies on, over any representation: appending adds at the
  end, a search returns the first match, deletion removes the first match. The client
  lemma says that what was appended under an unused key is found, and that deleting it
  restores the list.
\<close>

locale keyed_list =
  fixes rep :: "'s \<Rightarrow> ('a \<times> 'k option \<times> 'd option) list \<Rightarrow> bool"
    and append :: "'s \<Rightarrow> 'a \<Rightarrow> 'k \<Rightarrow> 'd option \<Rightarrow> 's option"
    and lookup :: "'s \<Rightarrow> 'k \<Rightarrow> 'd option option option"
    and delete :: "'s \<Rightarrow> 'k \<Rightarrow> 's option"
    and matches :: "'k \<Rightarrow> 'k option \<Rightarrow> bool"
    and fresh :: "'s \<Rightarrow> 'a \<Rightarrow> bool"
  assumes append_rep: "rep s xs \<Longrightarrow> fresh s a \<Longrightarrow> \<exists>s'. append s a k d = Some s' \<and> rep s' (xs @ [(a, Some k, d)])"
    and lookup_rep: "rep s xs \<Longrightarrow>
      lookup s k = Some (map_option (\<lambda>x. snd (snd x)) (find (\<lambda>x. matches k (fst (snd x))) xs))"
    and delete_rep: "rep s xs \<Longrightarrow> \<exists>s'. delete s k = Some s' \<and> rep s' (remove_first (\<lambda>x. matches k (fst (snd x))) xs)"
begin

lemma append_lookup_delete:
  assumes "rep s xs" "fresh s a" "\<forall>x \<in> set xs. \<not> matches k (fst (snd x))" "matches k (Some k)"
  shows "\<exists>s' s''. append s a k d = Some s' \<and> lookup s' k = Some (Some d)
    \<and> delete s' k = Some s'' \<and> rep s'' xs"
proof -
  obtain s' where s': "append s a k d = Some s'" "rep s' (xs @ [(a, Some k, d)])"
    using append_rep [OF assms(1,2)] by blast
  have f: "find (\<lambda>x. matches k (fst (snd x))) (xs @ [(a, Some k, d)]) = Some (a, Some k, d)"
    using assms(3,4) by (intro find_append_first) auto
  have r: "remove_first (\<lambda>x. matches k (fst (snd x))) (xs @ [(a, Some k, d)]) = xs"
    unfolding remove_first_def using assms(3,4) by (subst remove_first_append) auto
  show ?thesis
    using s' lookup_rep [OF s'(2), of k] delete_rep [OF s'(2), of k] f r by auto
qed

end

definition ll_append :: "('k, 'd) ll_heap \<times> linkedList \<Rightarrow> nat \<Rightarrow> 'k \<Rightarrow> 'd option
    \<Rightarrow> (('k, 'd) ll_heap \<times> linkedList) option" where
  "ll_append s a k d = map_option snd (llAppend (fst s) (snd s) (Some a) (Some k) d)"

definition ll_lookup :: "('k \<Rightarrow> 'k option \<Rightarrow> int) \<Rightarrow> ('k, 'd) ll_heap \<times> linkedList \<Rightarrow> 'k
    \<Rightarrow> 'd option option option" where
  "ll_lookup cmpOp s k =
     map_option (\<lambda>(r, d). if r = RS_RET_OK then Some d else None) (llFind cmpOp (fst s) (snd s) k)"

definition ll_delete :: "('k \<Rightarrow> 'k option \<Rightarrow> int) \<Rightarrow> ('k, 'd) ll_heap \<times> linkedList \<Rightarrow> 'k
    \<Rightarrow> (('k, 'd) ll_heap \<times> linkedList) option" where
  "ll_delete cmpOp s k =
     map_option (\<lambda>(r, h, l, ev). (h, l)) (llFindAndDelete cmpOp (fst s) (snd s) k)"

interpretation kl: keyed_list
  "\<lambda>s. ll_rep (fst s) (snd s)" ll_append "ll_lookup cmpOp" "ll_delete cmpOp"
  "\<lambda>k e. cmpOp k e = 0" "\<lambda>s a. fst s a = None" for cmpOp :: "'k \<Rightarrow> 'k option \<Rightarrow> int"
proof (unfold_locales, goal_cases)
  case (1 s xs a k d)
  then show ?case
    using llAppend_rep [of "fst s" "snd s" xs a "Some k" d] by (force simp: ll_append_def)
next
  case (2 s xs k)
  then show ?case
    by (simp add: ll_lookup_def llFind_rep split: option.splits)
next
  case (3 s xs k)
  then show ?case
    using llFindAndDelete_rep [of "fst s" "snd s" xs cmpOp k] by (force simp: ll_delete_def)
qed

section \<open>Properties\<close>

text \<open>
  C11: A walk with a callback over a well-formed list ends. It visits the elements in order,
  deletes exactly those the callback asks to delete, stops at the first error with that
  error, and leaves a well-formed list of the elements that remain, with the element count
  and the tail pointer right.
\<close>

theorem llExecFunc_visits:
  assumes "ll_rep h l xs"
  shows "\<exists>h' l'. llExecFunc f h l st
      = Some (fst (exec_cells f xs st), h', l', snd (snd (exec_cells f xs st)))
    \<and> ll_rep h' l' (fst (snd (exec_cells f xs st)))"
  using llExec_loop_cells [of h l "[]" xs f st] assms by (simp add: llExecFunc_def)

theorem llExecFunc_visits_witness:
  "\<exists>h' l'. llExecFunc (\<lambda>d n. (if d = Some True then RS_RET_OK_DELETE_LISTENTRY else RS_RET_OK, d # n))
      [7 \<mapsto> \<lparr> pNext = Some 9, pKey = Some ''a'', pData = Some True \<rparr>,
       9 \<mapsto> \<lparr> pNext = None, pKey = Some ''b'', pData = Some False \<rparr>]
      \<lparr> iNumElts = 2, pRoot = Some 7, pLast = Some 9 \<rparr> [] = Some (RS_RET_OK, h', l', [Some False, Some True])
    \<and> ll_rep h' l' [(9, Some ''b'', Some False)]"
  using llExecFunc_visits [of
      "[7 \<mapsto> \<lparr> pNext = Some 9, pKey = Some ''a'', pData = Some True \<rparr>,
        9 \<mapsto> \<lparr> pNext = None, pKey = Some ''b'', pData = Some False \<rparr>]"
      "\<lparr> iNumElts = 2, pRoot = Some 7, pLast = Some 9 \<rparr>"
      "[(7, Some ''a'', Some True), (9, Some ''b'', Some False)]"
      "\<lambda>d n. (if d = Some True then RS_RET_OK_DELETE_LISTENTRY else RS_RET_OK, d # n)" "[]"]
  by (simp add: ll_rep_def ll_last_def)

text \<open>
  C14: Finding and deleting by key removes the first element whose key compares equal and
  nothing else, runs the destructors of that element only, and reports whether there was
  one. The remaining list is well-formed and no other memory changes.
\<close>

theorem llFindAndDelete_first:
  assumes "ll_rep h l xs"
  shows "\<exists>r h' l' ev. llFindAndDelete cmpOp h l key = Some (r, h', l', ev)
    \<and> ll_rep h' l' (remove_first (\<lambda>x. cmpOp key (fst (snd x)) = 0) xs)
    \<and> (r, ev) = (case find (\<lambda>x. cmpOp key (fst (snd x)) = 0) xs of
        None \<Rightarrow> (RS_RET_NOT_FOUND, []) | Some x \<Rightarrow> (RS_RET_OK, cell_events x))
    \<and> (\<forall>b. b \<notin> fst ` set xs \<longrightarrow> h' b = h b)"
  using assms by (rule llFindAndDelete_rep)

theorem llFindAndDelete_first_witness:
  "\<exists>h' l'. llFindAndDelete (\<lambda>k e. if e = Some k then 0 else 1)
      [7 \<mapsto> \<lparr> pNext = Some 9, pKey = Some ''a'', pData = Some (1 :: nat) \<rparr>,
       9 \<mapsto> \<lparr> pNext = None, pKey = Some ''b'', pData = Some 2 \<rparr>]
      \<lparr> iNumElts = 2, pRoot = Some 7, pLast = Some 9 \<rparr> ''b''
      = Some (RS_RET_OK, h', l', [EltDestruct 2, KeyDestruct ''b''])
    \<and> ll_rep h' l' [(7, Some ''a'', Some 1)]"
  using llFindAndDelete_first [of
      "[7 \<mapsto> \<lparr> pNext = Some 9, pKey = Some ''a'', pData = Some (1 :: nat) \<rparr>,
        9 \<mapsto> \<lparr> pNext = None, pKey = Some ''b'', pData = Some 2 \<rparr>]"
      "\<lparr> iNumElts = 2, pRoot = Some 7, pLast = Some 9 \<rparr>"
      "[(7, Some ''a'', Some 1), (9, Some ''b'', Some 2)]"
      "\<lambda>k e. if e = Some k then 0 else 1" "''b''"]
  by (auto simp: ll_rep_def ll_last_def remove_first_def cell_events_def elt_events_def)

text \<open>
  C17: An element appended under a key that no element has is found under that key, and
  deleting that key brings the list back, whatever the list holds.
\<close>

theorem llAppend_find_delete:
  assumes "ll_rep (fst s) (snd s) xs" "fst s a = None"
    "\<forall>x \<in> set xs. cmpOp k (fst (snd x)) \<noteq> 0" "cmpOp k (Some k) = 0"
  shows "\<exists>s' s''. ll_append s a k d = Some s' \<and> ll_lookup cmpOp s' k = Some (Some d)
    \<and> ll_delete cmpOp s' k = Some s'' \<and> ll_rep (fst s'') (snd s'') xs"
  using kl.append_lookup_delete [of s xs a cmpOp k d] assms by simp

theorem llAppend_find_delete_witness:
  "\<exists>s' s''. ll_append (Map.empty, llInit) 5 ''x'' (Some (3 :: nat)) = Some s'
    \<and> ll_lookup (\<lambda>k e. if e = Some k then 0 else 1) s' ''x'' = Some (Some (Some 3))
    \<and> ll_delete (\<lambda>k e. if e = Some k then 0 else 1) s' ''x'' = Some s'' \<and> ll_rep (fst s'') (snd s'') []"
  using llAppend_find_delete [of "(Map.empty, llInit)" "[]" 5 "\<lambda>k e. if e = Some k then 0 else 1" "''x''"
      "Some 3"] ll_rep_init [of Map.empty] by simp

text \<open>
  C18: Destroying a well-formed list ends, calls the destructors of every element in list
  order, frees exactly the cells of the list and leaves an empty list.
\<close>

theorem llDestroy_frees:
  assumes "ll_rep h l xs"
  shows "\<exists>h' l'. llDestroy h l = Some (h', l', concat (map cell_events xs)) \<and> ll_rep h' l' []
    \<and> (\<forall>b. h' b = (if b \<in> fst ` set xs then None else h b))"
  using assms by (rule llDestroy_cells)

theorem llDestroy_frees_witness:
  "\<exists>h' l'. llDestroy [4 \<mapsto> \<lparr> pNext = None, pKey = None, pData = Some True \<rparr>]
      \<lparr> iNumElts = 1, pRoot = Some 4, pLast = Some 4 \<rparr> = Some (h', l', [EltDestruct True :: (nat, bool) ll_event])
    \<and> ll_rep h' l' []"
proof -
  have "ll_rep [4 \<mapsto> \<lparr> pNext = None, pKey = None, pData = Some True \<rparr>]
      \<lparr> iNumElts = 1, pRoot = Some 4, pLast = Some 4 \<rparr> [(4, None :: nat option, Some True)]"
    by (simp add: ll_rep_def ll_last_def)
  from llDestroy_frees [OF this] show ?thesis
    by (auto simp: cell_events_def elt_events_def)
qed

end
