(* ===== verification/Hashtable.thy ===== *)
theory Hashtable
imports Rsyslog_Prelude "HOL-Library.Multiset"
begin

unbundle bit_operations_syntax

text \<open>
  The chained hash table of \<^verbatim>\<open>runtime/hashtable.c\<close> with its iterator
  (\<^verbatim>\<open>runtime/hashtable_itr.c\<close>). A bucket is the list of the entries of its chain; the
  pointer operations of the code act on one chain at a time and are list operations here.
  Hash values are 32-bit words. The arguments \<^verbatim>\<open>malloc_ok\<close> and \<^verbatim>\<open>realloc_ok\<close> say for
  which sizes the allocator succeeds, so that both ways to grow the table are modelled. The
  hash and comparison callbacks are fields of the table, as in the code.
\<close>

section \<open>Data\<close>

record ('k, 'v) entry =
  ent_k :: 'k
  ent_v :: 'v
  ent_h :: "32 word"

record ('k, 'v) hashtable =
  tablelength :: nat
  table :: "('k, 'v) entry list list"
  entrycount :: nat
  loadlimit :: nat
  primeindex :: nat
  hashfn :: "'k \<Rightarrow> 32 word"
  eqfn :: "'k \<Rightarrow> 'k \<Rightarrow> bool"

definition primes :: "nat list" where
  "primes = [53, 97, 193, 389, 769, 1543, 3079, 6151, 12289, 24593, 49157, 98317, 196613, 393241,
     786433, 1572869, 3145739, 6291469, 12582917, 25165843, 50331653, 100663319, 201326611, 402653189,
     805306457, 1610612741]"

definition prime_table_length :: nat where
  "prime_table_length = length primes"

definition MAX_LOAD_FACTOR :: nat where
  "MAX_LOAD_FACTOR = 65"

text \<open>The cast to \<^verbatim>\<open>unsigned int\<close> applies to the product, before the division.\<close>

definition getLoadLimit :: "nat \<Rightarrow> nat" where
  "getLoadLimit sz = (sz * MAX_LOAD_FACTOR) mod 2 ^ 32 div 100"

definition indexFor :: "nat \<Rightarrow> 32 word \<Rightarrow> nat" where
  "indexFor tlen hashvalue = unat hashvalue mod tlen"

section \<open>Construction and hashing\<close>

definition sizeof_hashtable :: nat where "sizeof_hashtable = 56"
definition sizeof_entry :: nat where "sizeof_entry = 32"
definition sizeof_pointer :: nat where "sizeof_pointer = 8"

fun find_prime :: "nat list \<Rightarrow> nat \<Rightarrow> nat \<Rightarrow> nat \<times> nat" where
  "find_prime [] pindex minsize = (pindex, primes ! 0)"
| "find_prime (p # ps) pindex minsize =
     (if p > minsize then (pindex, p) else find_prime ps (pindex + 1) minsize)"

definition create_hashtable ::
    "(nat \<Rightarrow> bool) \<Rightarrow> nat \<Rightarrow> ('k \<Rightarrow> 32 word) \<Rightarrow> ('k \<Rightarrow> 'k \<Rightarrow> bool) \<Rightarrow> ('k, 'v) hashtable option" where
  "create_hashtable malloc_ok minsize hashf eqf =
     (if minsize > 2 ^ 30 then None
      else let (pindex, sz) = find_prime primes 0 minsize in
        if \<not> malloc_ok sizeof_hashtable then None
        else if \<not> malloc_ok (sizeof_pointer * sz) then None
        else Some \<lparr> tablelength = sz, table = replicate sz [], entrycount = 0,
               loadlimit = getLoadLimit sz, primeindex = pindex, hashfn = hashf, eqfn = eqf \<rparr>)"

definition hash :: "('k, 'v) hashtable \<Rightarrow> 'k \<Rightarrow> 32 word" where
  "hash h k =
     (let i0 = hashfn h k;
          i1 = i0 + NOT (push_bit 9 i0);
          i2 = i1 XOR (drop_bit 14 i1 OR push_bit 18 i1);
          i3 = i2 + push_bit 4 i2
      in i3 XOR (drop_bit 10 i3 OR push_bit 22 i3))"

section \<open>Growing\<close>

definition ht_push :: "nat \<Rightarrow> ('k, 'v) entry \<Rightarrow> ('k, 'v) entry list list \<Rightarrow> ('k, 'v) entry list list" where
  "ht_push n e t = t[indexFor n (ent_h e) := e # t ! indexFor n (ent_h e)]"

text \<open>Plan A: a new table, every chain emptied into it from its head on.\<close>

definition expand_new :: "nat \<Rightarrow> ('k, 'v) entry list list \<Rightarrow> ('k, 'v) entry list list" where
  "expand_new n t = fold (\<lambda>chain nt. fold (ht_push n) chain nt) t (replicate n [])"

text \<open>
  Plan B: the table enlarged in place; an entry of chain \<^term>\<open>i\<close> that belongs elsewhere is
  unlinked and put at the head of its chain, the others are \<^term>\<open>kept\<close> in order.
\<close>

fun realloc_chain ::
    "nat \<Rightarrow> nat \<Rightarrow> ('k, 'v) entry list \<Rightarrow> ('k, 'v) entry list \<Rightarrow> ('k, 'v) entry list list
      \<Rightarrow> ('k, 'v) entry list list" where
  "realloc_chain n i kept [] t = t[i := kept]"
| "realloc_chain n i kept (e # es) t =
     (if indexFor n (ent_h e) = i then realloc_chain n i (kept @ [e]) es t
      else realloc_chain n i kept es (ht_push n e t))"

definition expand_realloc :: "nat \<Rightarrow> nat \<Rightarrow> ('k, 'v) entry list list \<Rightarrow> ('k, 'v) entry list list" where
  "expand_realloc n old t =
     fold (\<lambda>i nt. realloc_chain n i [] (nt ! i) nt) [0..<old] (t @ replicate (n - old) [])"

definition hashtable_expand ::
    "(nat \<Rightarrow> bool) \<Rightarrow> (nat \<Rightarrow> bool) \<Rightarrow> ('k, 'v) hashtable \<Rightarrow> bool \<times> ('k, 'v) hashtable" where
  "hashtable_expand malloc_ok realloc_ok h =
     (if primeindex h = prime_table_length - 1 then (False, h)
      else let newsize = primes ! (primeindex h + 1); h1 = h \<lparr> primeindex := primeindex h + 1 \<rparr> in
        if malloc_ok (sizeof_pointer * newsize)
        then (True, h1 \<lparr> table := expand_new newsize (table h), tablelength := newsize,
                loadlimit := getLoadLimit newsize \<rparr>)
        else if realloc_ok (newsize * sizeof_pointer)
        then (True, h1 \<lparr> table := expand_realloc newsize (tablelength h) (table h), tablelength := newsize,
                loadlimit := getLoadLimit newsize \<rparr>)
        else (False, h))"

section \<open>Operations\<close>

definition hashtable_count :: "('k, 'v) hashtable \<Rightarrow> nat" where
  "hashtable_count h = entrycount h"

definition hashtable_insert_prehashed ::
    "(nat \<Rightarrow> bool) \<Rightarrow> (nat \<Rightarrow> bool) \<Rightarrow> ('k, 'v) hashtable \<Rightarrow> 32 word \<Rightarrow> 'k \<Rightarrow> 'v
      \<Rightarrow> bool \<times> ('k, 'v) hashtable" where
  "hashtable_insert_prehashed malloc_ok realloc_ok h hashvalue k v =
     (let h1 = h \<lparr> entrycount := entrycount h + 1 \<rparr>;
          h2 = (if entrycount h1 > loadlimit h1 then snd (hashtable_expand malloc_ok realloc_ok h1) else h1)
      in if \<not> malloc_ok sizeof_entry then (False, h2 \<lparr> entrycount := entrycount h2 - 1 \<rparr>)
         else (True, h2 \<lparr> table := ht_push (tablelength h2)
                 \<lparr> ent_k = k, ent_v = v, ent_h = hashvalue \<rparr> (table h2) \<rparr>))"

definition hashtable_insert ::
    "(nat \<Rightarrow> bool) \<Rightarrow> (nat \<Rightarrow> bool) \<Rightarrow> ('k, 'v) hashtable \<Rightarrow> 'k \<Rightarrow> 'v \<Rightarrow> bool \<times> ('k, 'v) hashtable" where
  "hashtable_insert malloc_ok realloc_ok h k v =
     hashtable_insert_prehashed malloc_ok realloc_ok h (hash h k) k v"

fun chain_search :: "('k \<Rightarrow> 'k \<Rightarrow> bool) \<Rightarrow> 32 word \<Rightarrow> 'k \<Rightarrow> ('k, 'v) entry list \<Rightarrow> 'v option" where
  "chain_search eq hv k [] = None"
| "chain_search eq hv k (e # es) =
     (if hv = ent_h e \<and> eq k (ent_k e) then Some (ent_v e) else chain_search eq hv k es)"

definition hashtable_search_prehashed :: "('k, 'v) hashtable \<Rightarrow> 32 word \<Rightarrow> 'k \<Rightarrow> 'v option" where
  "hashtable_search_prehashed h hashvalue k =
     chain_search (eqfn h) hashvalue k (table h ! indexFor (tablelength h) hashvalue)"

definition hashtable_search :: "('k, 'v) hashtable \<Rightarrow> 'k \<Rightarrow> 'v option" where
  "hashtable_search h k = hashtable_search_prehashed h (hash h k) k"

fun chain_remove ::
    "('k \<Rightarrow> 'k \<Rightarrow> bool) \<Rightarrow> 32 word \<Rightarrow> 'k \<Rightarrow> ('k, 'v) entry list \<Rightarrow> ('k, 'v) entry option \<times> ('k, 'v) entry list" where
  "chain_remove eq hv k [] = (None, [])"
| "chain_remove eq hv k (e # es) =
     (if hv = ent_h e \<and> eq k (ent_k e) then (Some e, es)
      else case chain_remove eq hv k es of (r, es') \<Rightarrow> (r, e # es'))"

definition hashtable_remove_prehashed ::
    "('k, 'v) hashtable \<Rightarrow> 32 word \<Rightarrow> 'k \<Rightarrow> 'v option \<times> ('k, 'v) hashtable" where
  "hashtable_remove_prehashed h hashvalue k =
     (let idx = indexFor (tablelength h) hashvalue in
      case chain_remove (eqfn h) hashvalue k (table h ! idx) of
        (None, _) \<Rightarrow> (None, h)
      | (Some e, es) \<Rightarrow> (Some (ent_v e), h \<lparr> table := (table h)[idx := es], entrycount := entrycount h - 1 \<rparr>))"

definition hashtable_remove :: "('k, 'v) hashtable \<Rightarrow> 'k \<Rightarrow> 'v option \<times> ('k, 'v) hashtable" where
  "hashtable_remove h k = hashtable_remove_prehashed h (hash h k) k"

text \<open>The calls of \<^verbatim>\<open>free\<close> and of the value destructor when a table is destroyed, in order.\<close>

datatype ('k, 'v) ht_event = FreeKey 'k | FreeValue 'v

definition hashtable_destroy :: "('k, 'v) hashtable \<Rightarrow> bool \<Rightarrow> ('k, 'v) ht_event list" where
  "hashtable_destroy h free_values =
     concat (map (\<lambda>chain. concat (map (\<lambda>e.
       if free_values then [FreeKey (ent_k e), FreeValue (ent_v e)] else [FreeKey (ent_k e)]) chain)) (table h))"

text \<open>The string hash adds \<^verbatim>\<open>char\<close>, which is signed on the common platforms.\<close>

definition schar :: "char \<Rightarrow> 32 word" where
  "schar c = (if (of_char c :: nat) < 128 then of_nat (of_char c) else of_nat (of_char c) - 256)"

definition hash_from_string :: "char list \<Rightarrow> 32 word" where
  "hash_from_string k = fold (\<lambda>c hv. hv * 33 + schar c) (take (strlen k) k) 1"

definition key_equals_string :: "char list \<Rightarrow> char list \<Rightarrow> bool" where
  "key_equals_string k1 k2 = (take (strlen k1) k1 = take (strlen k2) k2)"

section \<open>The iterator\<close>

text \<open>
  The iterator's entry pointer and parent pointer are offsets in the chain of its index;
  \<^term>\<open>None\<close> is the null pointer.
\<close>

record hashtable_itr =
  itr_e :: "nat option"
  itr_parent :: "nat option"
  itr_index :: nat

text \<open>The first non-empty chain from index \<^term>\<open>j\<close> on.\<close>

fun scan_chains :: "('k, 'v) entry list list \<Rightarrow> nat \<Rightarrow> nat option" where
  "scan_chains [] j = None"
| "scan_chains (c # cs) j = (if c \<noteq> [] then Some j else scan_chains cs (j + 1))"

definition sizeof_hashtable_itr :: nat where
  "sizeof_hashtable_itr = 32"

definition hashtable_iterator :: "(nat \<Rightarrow> bool) \<Rightarrow> ('k, 'v) hashtable \<Rightarrow> hashtable_itr option" where
  "hashtable_iterator malloc_ok h =
     (if \<not> malloc_ok sizeof_hashtable_itr then None
      else if entrycount h = 0 then Some \<lparr> itr_e = None, itr_parent = None, itr_index = tablelength h \<rparr>
      else case scan_chains (take (tablelength h) (table h)) 0 of
        None \<Rightarrow> Some \<lparr> itr_e = None, itr_parent = None, itr_index = tablelength h \<rparr>
      | Some i \<Rightarrow> Some \<lparr> itr_e = Some 0, itr_parent = None, itr_index = i \<rparr>)"

definition itr_next_chain :: "('k, 'v) hashtable \<Rightarrow> hashtable_itr \<Rightarrow> bool \<times> hashtable_itr" where
  "itr_next_chain h itr =
     (let j = itr_index itr + 1 in
      if tablelength h \<le> j then (False, itr \<lparr> itr_parent := None, itr_index := j, itr_e := None \<rparr>)
      else case scan_chains (drop j (take (tablelength h) (table h))) j of
        None \<Rightarrow> (False, itr \<lparr> itr_parent := None, itr_index := tablelength h, itr_e := None \<rparr>)
      | Some j' \<Rightarrow> (True, itr \<lparr> itr_parent := None, itr_index := j', itr_e := Some 0 \<rparr>))"

definition hashtable_iterator_advance :: "('k, 'v) hashtable \<Rightarrow> hashtable_itr \<Rightarrow> bool \<times> hashtable_itr" where
  "hashtable_iterator_advance h itr =
     (case itr_e itr of
        None \<Rightarrow> (False, itr)
      | Some off \<Rightarrow>
          if off + 1 < length (table h ! itr_index itr)
          then (True, itr \<lparr> itr_parent := Some off, itr_e := Some (off + 1) \<rparr>)
          else itr_next_chain h itr)"

text \<open>
  Removal unlinks the current entry behind its parent, then advances over the unlinked
  entry's own next pointer and puts the parent back.
\<close>

definition hashtable_iterator_remove ::
    "('k, 'v) hashtable \<Rightarrow> hashtable_itr \<Rightarrow> (bool \<times> ('k, 'v) hashtable \<times> hashtable_itr) option" where
  "hashtable_iterator_remove h itr =
     (case itr_e itr of
        None \<Rightarrow> None
      | Some off \<Rightarrow>
          let chain = table h ! itr_index itr;
              front = (case itr_parent itr of None \<Rightarrow> [] | Some p \<Rightarrow> take (p + 1) chain);
              h1 = h \<lparr> table := (table h)[itr_index itr := front @ drop (off + 1) chain],
                       entrycount := entrycount h - 1 \<rparr>
          in Some (if off + 1 < length chain
                   then (True, h1, itr \<lparr> itr_e := Some (length front) \<rparr>)
                   else (case itr_next_chain h1 itr of (r, itr1) \<Rightarrow> (r, h1, itr1))))"

fun chain_offset :: "('k \<Rightarrow> 'k \<Rightarrow> bool) \<Rightarrow> 32 word \<Rightarrow> 'k \<Rightarrow> ('k, 'v) entry list \<Rightarrow> nat \<Rightarrow> nat option" where
  "chain_offset eq hv k [] off = None"
| "chain_offset eq hv k (e # es) off =
     (if hv = ent_h e \<and> eq k (ent_k e) then Some off else chain_offset eq hv k es (off + 1))"

definition hashtable_iterator_search ::
    "('k, 'v) hashtable \<Rightarrow> hashtable_itr \<Rightarrow> 'k \<Rightarrow> bool \<times> hashtable_itr" where
  "hashtable_iterator_search h itr k =
     (let hv = hash h k; index = indexFor (tablelength h) hv in
      case chain_offset (eqfn h) hv k (table h ! index) 0 of
        None \<Rightarrow> (False, itr)
      | Some off \<Rightarrow> (True, \<lparr> itr_e = Some off, itr_parent = (if off = 0 then None else Some (off - 1)),
                          itr_index = index \<rparr>))"

text \<open>
  The loop of the callers, as in \<^verbatim>\<open>dynstats.c\<close>: look at the current entry, and go on as long as
  \<^verbatim>\<open>hashtable_iterator_advance\<close> says so. Looking at an entry through an iterator at the end is
  \<^term>\<open>None\<close>, and so is a loop that does not end.
\<close>

partial_function (option) itr_loop :: "('k, 'v) hashtable \<Rightarrow> hashtable_itr \<Rightarrow> ('k, 'v) entry list option" where
  "itr_loop h itr =
     (case itr_e itr of
        None \<Rightarrow> None
      | Some off \<Rightarrow>
          let (more, itr') = hashtable_iterator_advance h itr
          in if more then do { es \<leftarrow> itr_loop h itr'; Some (table h ! itr_index itr ! off # es) }
             else Some [table h ! itr_index itr ! off])"

definition itr_visit :: "(nat \<Rightarrow> bool) \<Rightarrow> ('k, 'v) hashtable \<Rightarrow> (rsRetVal \<times> ('k, 'v) entry list) option" where
  "itr_visit malloc_ok h =
     (if 0 < hashtable_count h
      then case hashtable_iterator malloc_ok h of
        None \<Rightarrow> Some (RS_RET_OUT_OF_MEMORY, [])
      | Some itr \<Rightarrow> do { es \<leftarrow> itr_loop h itr; Some (RS_RET_OK, es) }
      else Some (RS_RET_OK, []))"

section \<open>Invariant and abstract map\<close>

text \<open>
  Two keys are the same key when the comparison callback says so. The invariant is stated
  with a function \<^term>\<open>canon\<close> that names the class of a key; for C strings it is the text
  up to the terminator.
\<close>

definition ht_entries :: "('k, 'v) hashtable \<Rightarrow> ('k, 'v) entry list" where
  "ht_entries h = concat (table h)"

definition bucket_ok :: "nat \<Rightarrow> ('k, 'v) entry list list \<Rightarrow> bool" where
  "bucket_ok n t \<longleftrightarrow> length t = n \<and> (\<forall>i < n. \<forall>e \<in> set (t ! i). indexFor n (ent_h e) = i)"

definition ht_core :: "('k \<Rightarrow> 'c) \<Rightarrow> ('k, 'v) hashtable \<Rightarrow> bool" where
  "ht_core canon h \<longleftrightarrow> primeindex h < prime_table_length \<and> tablelength h = primes ! primeindex h
     \<and> bucket_ok (tablelength h) (table h)
     \<and> (\<forall>e \<in> set (ht_entries h). ent_h e = hash h (ent_k e))
     \<and> distinct (map (\<lambda>e. canon (ent_k e)) (ht_entries h))
     \<and> (\<forall>a b. eqfn h a b \<longleftrightarrow> canon a = canon b) \<and> (\<forall>a b. canon a = canon b \<longrightarrow> hashfn h a = hashfn h b)"

definition ht_wf :: "('k \<Rightarrow> 'c) \<Rightarrow> ('k, 'v) hashtable \<Rightarrow> bool" where
  "ht_wf canon h \<longleftrightarrow> ht_core canon h \<and> entrycount h = length (ht_entries h)"

definition ht_map :: "('k \<Rightarrow> 'c) \<Rightarrow> ('k, 'v) hashtable \<Rightarrow> 'c \<Rightarrow> 'v option" where
  "ht_map canon h = map_of (map (\<lambda>e. (canon (ent_k e), ent_v e)) (ht_entries h))"

section \<open>Facts on buckets\<close>

lemma mset_concat_update:
  "i < length t \<Longrightarrow> mset (concat (t[i := c])) + mset (t ! i) = mset (concat t) + mset c"
proof (induction t arbitrary: i)
  case (Cons x t)
  show ?case
  proof (cases i)
    case (Suc j)
    then show ?thesis
      using Cons.IH [of j] Cons.prems by (simp add: add.assoc)
  qed (simp add: ac_simps)
qed simp

lemma primes_positive: "i < prime_table_length \<Longrightarrow> 0 < primes ! i"
proof -
  have "\<forall>p \<in> set primes. 0 < p"
    by (simp add: primes_def)
  then show "i < prime_table_length \<Longrightarrow> 0 < primes ! i"
    by (simp add: prime_table_length_def)
qed

lemma indexFor_less: "0 < n \<Longrightarrow> indexFor n hv < n"
  by (simp add: indexFor_def)

lemma length_ht_push [simp]: "length (ht_push n e t) = length t"
  by (simp add: ht_push_def)

lemma mset_ht_push:
  "0 < n \<Longrightarrow> length t = n \<Longrightarrow> mset (concat (ht_push n e t)) = add_mset e (mset (concat t))"
  using mset_concat_update [of "indexFor n (ent_h e)" t "e # t ! indexFor n (ent_h e)"] indexFor_less [of n "ent_h e"]
  by (simp add: ht_push_def)

lemma bucket_ok_push: "0 < n \<Longrightarrow> bucket_ok n t \<Longrightarrow> bucket_ok n (ht_push n e t)"
  using indexFor_less [of n "ent_h e"] by (auto simp: bucket_ok_def ht_push_def nth_list_update)

lemma bucket_ok_replicate: "bucket_ok n (replicate n [])"
  by (simp add: bucket_ok_def)

text \<open>Both ways to grow the table put every entry into its bucket and lose none.\<close>

lemma fold_push:
  assumes "0 < n" "bucket_ok n t"
  shows "bucket_ok n (fold (ht_push n) es t) \<and> mset (concat (fold (ht_push n) es t)) = mset es + mset (concat t)"
  using assms(2)
proof (induction es arbitrary: t)
  case (Cons e es)
  have len: "length t = n"
    using Cons.prems by (simp add: bucket_ok_def)
  show ?case
    using Cons.IH [OF bucket_ok_push [OF assms(1) Cons.prems]] mset_ht_push [OF assms(1) len] by simp
qed simp

lemma fold_fold_push:
  assumes "0 < n" "bucket_ok n t"
  shows "bucket_ok n (fold (\<lambda>chain nt. fold (ht_push n) chain nt) cs t)
    \<and> mset (concat (fold (\<lambda>chain nt. fold (ht_push n) chain nt) cs t)) = mset (concat cs) + mset (concat t)"
  using assms(2)
proof (induction cs arbitrary: t)
  case (Cons c cs)
  have step: "bucket_ok n (fold (ht_push n) c t)"
    "mset (concat (fold (ht_push n) c t)) = mset c + mset (concat t)"
    using fold_push [OF assms(1) Cons.prems, of c] by auto
  show ?case
    using Cons.IH [OF step(1)] step(2) by (simp add: ac_simps)
qed simp

lemma expand_new_ok:
  assumes "0 < n"
  shows "bucket_ok n (expand_new n t) \<and> mset (concat (expand_new n t)) = mset (concat t)"
proof -
  have empty: "mset (concat (replicate n ([] :: ('k, 'v) entry list))) = {#}"
    by (induction n) auto
  show ?thesis
    using fold_fold_push [OF assms bucket_ok_replicate, of t] by (simp add: expand_new_def empty)
qed

text \<open>The chains below \<^term>\<open>i\<close> and those behind the old table hold entries that belong there.\<close>

definition settled :: "nat \<Rightarrow> nat \<Rightarrow> nat \<Rightarrow> ('k, 'v) entry list list \<Rightarrow> bool" where
  "settled n old i t \<longleftrightarrow> length t = n
     \<and> (\<forall>j < n. j < i \<or> old \<le> j \<longrightarrow> (\<forall>e \<in> set (t ! j). indexFor n (ent_h e) = j))"

lemma ht_push_nth:
  "0 < n \<Longrightarrow> length t = n \<Longrightarrow>
    ht_push n e t ! j = (if j = indexFor n (ent_h e) then e # t ! j else t ! j)"
  using indexFor_less [of n "ent_h e"] by (simp add: ht_push_def)

lemma settled_push:
  assumes "0 < n" "settled n old i t"
  shows "settled n old i (ht_push n e t)"
proof -
  have len: "length t = n"
    using assms(2) by (simp add: settled_def)
  have "indexFor n (ent_h x) = j" if "j < n" "j < i \<or> old \<le> j" "x \<in> set (ht_push n e t ! j)" for j x
  proof (cases "x = e \<and> j = indexFor n (ent_h e)")
    case False
    then have "x \<in> set (t ! j)"
      using that(3) unfolding ht_push_nth [OF assms(1) len] by (simp split: if_splits)
    then show ?thesis
      using that(1,2) assms(2) unfolding settled_def by blast
  qed simp
  then show ?thesis
    using len unfolding settled_def by simp
qed

text \<open>While chain \<^term>\<open>i\<close> is worked on, \<^term>\<open>kept\<close> and the rest of it stand for its content.\<close>

lemma realloc_chain_ok:
  assumes "0 < n" "i < n" "settled n old i t" "\<forall>e \<in> set kept. indexFor n (ent_h e) = i"
  shows "settled n old (i + 1) (realloc_chain n i kept es t)
    \<and> mset (concat (realloc_chain n i kept es t)) + mset (t ! i) = mset (concat t) + mset kept + mset es"
  using assms(3,4)
proof (induction es arbitrary: kept t)
  case Nil
  have len: "length t = n"
    using Nil.prems by (simp add: settled_def)
  have "settled n old (i + 1) (t[i := kept])"
    unfolding settled_def
  proof (intro conjI allI impI ballI)
    show "length (t[i := kept]) = n"
      using len by simp
    fix j e
    assume j: "j < n" "j < i + 1 \<or> old \<le> j" "e \<in> set (t[i := kept] ! j)"
    show "indexFor n (ent_h e) = j"
    proof (cases "j = i")
      case True
      then show ?thesis
        using j(1,3) len Nil.prems(2) by simp
    next
      case False
      then have "e \<in> set (t ! j)" "j < i \<or> old \<le> j"
        using j by auto
      then show ?thesis
        using j(1) Nil.prems(1) unfolding settled_def by blast
    qed
  qed
  then show ?case
    using mset_concat_update [of i t kept] assms(2) len by simp
next
  case (Cons e es)
  show ?case
  proof (cases "indexFor n (ent_h e) = i")
    case True
    then show ?thesis
      using Cons.IH [OF Cons.prems(1), of "kept @ [e]"] Cons.prems(2) by simp
  next
    case False
    have len: "length t = n"
      using Cons.prems by (simp add: settled_def)
    have same: "ht_push n e t ! i = t ! i"
      using False by (simp add: ht_push_def)
    show ?thesis
      using Cons.IH [OF settled_push [OF assms(1) Cons.prems(1)] Cons.prems(2), of e]
        mset_ht_push [OF assms(1) len, of e] same False by simp
  qed
qed

lemma realloc_fold_ok:
  assumes "0 < n" "old \<le> n" "settled n old 0 t" "i \<le> old"
  shows "settled n old i (fold (\<lambda>i nt. realloc_chain n i [] (nt ! i) nt) [0..<i] t)
    \<and> mset (concat (fold (\<lambda>i nt. realloc_chain n i [] (nt ! i) nt) [0..<i] t)) = mset (concat t)"
  using assms(4)
proof (induction i)
  case 0
  then show ?case
    using assms(3) by simp
next
  case (Suc i)
  let ?t = "fold (\<lambda>i nt. realloc_chain n i [] (nt ! i) nt) [0..<i] t"
  have IH: "settled n old i ?t" "mset (concat ?t) = mset (concat t)"
    using Suc by auto
  have "i < n"
    using Suc.prems assms(2) by simp
  from realloc_chain_ok [OF assms(1) this IH(1), of "[]" "?t ! i"] IH(2) show ?case
    by simp
qed

lemma expand_realloc_ok:
  assumes "0 < n" "old \<le> n" "length t = old"
  shows "bucket_ok n (expand_realloc n old t) \<and> mset (concat (expand_realloc n old t)) = mset (concat t)"
proof -
  have start: "settled n old 0 (t @ replicate (n - old) [])"
    using assms by (auto simp: settled_def nth_append)
  have empty: "mset (concat (t @ replicate (n - old) [])) = mset (concat t)"
    by (induction "n - old") simp_all
  from realloc_fold_ok [OF assms(1,2) start order_refl] empty show ?thesis
    by (auto simp: expand_realloc_def settled_def bucket_ok_def linorder_not_less [symmetric])
qed

section \<open>Facts on the operations\<close>

lemma hash_fields [simp]:
  "hash (h \<lparr> table := t \<rparr>) k = hash h k" "hash (h \<lparr> entrycount := c \<rparr>) k = hash h k"
  "hash (h \<lparr> tablelength := n \<rparr>) k = hash h k" "hash (h \<lparr> loadlimit := m \<rparr>) k = hash h k"
  "hash (h \<lparr> primeindex := p \<rparr>) k = hash h k"
  by (simp_all add: hash_def)

lemma hash_canon: "ht_core canon h \<Longrightarrow> canon a = canon b \<Longrightarrow> hash h a = hash h b"
proof -
  assume "ht_core canon h" "canon a = canon b"
  then have "hashfn h a = hashfn h b"
    unfolding ht_core_def by blast
  then show "hash h a = hash h b"
    by (simp add: hash_def)
qed

text \<open>The parts of the invariant, one by one.\<close>

lemma ht_core_hash: "ht_core canon h \<Longrightarrow> e \<in> set (ht_entries h) \<Longrightarrow> ent_h e = hash h (ent_k e)"
  unfolding ht_core_def by blast

lemma ht_core_eqfn: "ht_core canon h \<Longrightarrow> eqfn h a b \<longleftrightarrow> canon a = canon b"
  unfolding ht_core_def by blast

lemma ht_core_distinct: "ht_core canon h \<Longrightarrow> distinct (map (\<lambda>e. canon (ent_k e)) (ht_entries h))"
  unfolding ht_core_def by blast

lemma ht_core_bucket:
  "ht_core canon h \<Longrightarrow> j < tablelength h \<Longrightarrow> e \<in> set (table h ! j) \<Longrightarrow> indexFor (tablelength h) (ent_h e) = j"
  unfolding ht_core_def bucket_ok_def by blast

lemma ht_core_buckets: "ht_core canon h \<Longrightarrow> bucket_ok (tablelength h) (table h)"
  unfolding ht_core_def by blast

lemma ht_core_len: "ht_core canon h \<Longrightarrow> length (table h) = tablelength h"
  unfolding ht_core_def bucket_ok_def by blast

lemma ht_core_pos: "ht_core canon h \<Longrightarrow> 0 < tablelength h"
  using primes_positive by (simp add: ht_core_def)

text \<open>A table with the same settings and a permutation of the entries in their buckets.\<close>

lemma ht_core_rebuild:
  assumes "ht_core canon h" "bucket_ok n t" "mset (concat t) = mset (concat (table h))"
    "p < prime_table_length" "n = primes ! p"
    "h' = h \<lparr> primeindex := p, table := t, tablelength := n, loadlimit := m \<rparr>"
  shows "ht_core canon h' \<and> ht_map canon h' = ht_map canon h \<and> length (ht_entries h') = length (ht_entries h)"
proof -
  have m: "mset (ht_entries h') = mset (ht_entries h)"
    using assms(3,6) by (simp add: ht_entries_def)
  have set: "set (ht_entries h') = set (ht_entries h)"
    by (rule mset_eq_setD [OF m])
  have dist: "distinct (map (\<lambda>e. canon (ent_k e)) (ht_entries h))"
    using assms(1) by (simp add: ht_core_def)
  have "mset (map (\<lambda>e. canon (ent_k e)) (ht_entries h')) = mset (map (\<lambda>e. canon (ent_k e)) (ht_entries h))"
    by (simp add: m)
  then have dist': "distinct (map (\<lambda>e. canon (ent_k e)) (ht_entries h'))"
    using dist mset_eq_imp_distinct_iff by blast
  have f: "primeindex h' = p" "tablelength h' = n" "table h' = t" "hashfn h' = hashfn h" "eqfn h' = eqfn h"
    "\<And>k. hash h' k = hash h k"
    by (simp_all add: assms(6) hash_def)
  have core: "ht_core canon h'"
    unfolding ht_core_def f set
    using assms(1) [unfolded ht_core_def] assms(2,4,5) dist' by (intro conjI) (elim conjE; assumption)+
  have "ht_map canon h' = ht_map canon h"
    unfolding ht_map_def using dist dist' set
    by (subst map_of_inject_set) (simp_all add: comp_def)
  then show ?thesis
    using core mset_eq_length [OF m] by simp
qed

lemma primes_grow: "i + 1 < prime_table_length \<Longrightarrow> primes ! i \<le> primes ! (i + 1)"
proof -
  have "sorted primes"
    by (simp add: primes_def)
  then show "i + 1 < prime_table_length \<Longrightarrow> primes ! i \<le> primes ! (i + 1)"
    by (simp add: sorted_nth_mono prime_table_length_def)
qed

lemma expand_ok:
  assumes "ht_core canon h" "hashtable_expand malloc_ok realloc_ok h = (r, h')"
  shows "ht_core canon h' \<and> ht_map canon h' = ht_map canon h \<and> entrycount h' = entrycount h
    \<and> length (ht_entries h') = length (ht_entries h) \<and> hashfn h' = hashfn h \<and> eqfn h' = eqfn h"
proof (cases "h' = h")
  case False
  let ?p = "primeindex h + 1"
  have p: "?p < prime_table_length" "primeindex h < prime_table_length"
    using assms False by (auto simp: hashtable_expand_def ht_core_def Let_def split: if_splits)
  have old: "length (table h) = tablelength h" "tablelength h \<le> primes ! ?p"
    using assms(1) primes_grow [OF p(1)] by (auto simp: ht_core_def bucket_ok_def)
  obtain t where t: "t = expand_new (primes ! ?p) (table h) \<or> t = expand_realloc (primes ! ?p) (tablelength h) (table h)"
      "h' = h \<lparr> primeindex := ?p, table := t, tablelength := primes ! ?p, loadlimit := getLoadLimit (primes ! ?p) \<rparr>"
    using assms(2) False by (auto simp: hashtable_expand_def Let_def split: if_splits)
  have "bucket_ok (primes ! ?p) t \<and> mset (concat t) = mset (concat (table h))"
    using t(1) expand_new_ok [OF primes_positive [OF p(1)]]
      expand_realloc_ok [OF primes_positive [OF p(1)] old(2) old(1)] by auto
  then show ?thesis
    using ht_core_rebuild [OF assms(1) _ _ p(1) refl t(2)] t(2) by simp
qed (use assms in simp)

lemma chain_search_Some:
  "chain_search eq hv k es = Some v \<Longrightarrow> \<exists>e \<in> set es. hv = ent_h e \<and> eq k (ent_k e) \<and> v = ent_v e"
  by (induction es) (auto split: if_splits)

lemma chain_search_None:
  "chain_search eq hv k es = None \<Longrightarrow> e \<in> set es \<Longrightarrow> \<not> (hv = ent_h e \<and> eq k (ent_k e))"
  by (induction es) (auto split: if_splits)

text \<open>An entry whose key is the searched key is in the chain the search looks at.\<close>

lemma entry_in_chain:
  assumes "ht_core canon h" "e \<in> set (ht_entries h)" "canon (ent_k e) = canon k"
  shows "ent_h e = hash h k \<and> e \<in> set (table h ! indexFor (tablelength h) (hash h k))"
proof -
  obtain c where "c \<in> set (table h)" "e \<in> set c"
    using assms(2) by (auto simp: ht_entries_def)
  then obtain j where j: "j < length (table h)" "e \<in> set (table h ! j)"
    by (metis in_set_conv_nth)
  have "ent_h e = hash h k"
    using ht_core_hash [OF assms(1,2)] hash_canon [OF assms(1) assms(3)] by simp
  moreover have "indexFor (tablelength h) (ent_h e) = j"
    using ht_core_bucket [OF assms(1)] j ht_core_len [OF assms(1)] by simp
  ultimately show ?thesis
    using j(2) by simp
qed

lemma ht_map_Some_iff:
  "ht_core canon h \<Longrightarrow>
    ht_map canon h c = Some v \<longleftrightarrow> (\<exists>e \<in> set (ht_entries h). canon (ent_k e) = c \<and> ent_v e = v)"
  by (subst ht_map_def, subst map_of_eq_Some_iff) (auto simp: comp_def dest: ht_core_distinct)

lemma chain_subset:
  "ht_core canon h \<Longrightarrow> e \<in> set (table h ! indexFor (tablelength h) hv) \<Longrightarrow> e \<in> set (ht_entries h)"
  using ht_core_pos [of canon h] indexFor_less [of "tablelength h" hv] ht_core_len [of canon h]
  by (auto simp: ht_entries_def intro!: bexI [OF _ nth_mem])

lemma search_ok:
  assumes "ht_core canon h"
  shows "hashtable_search h k = ht_map canon h (canon k)"
proof (cases "hashtable_search h k")
  case None
  have "ht_map canon h (canon k) \<noteq> Some v" for v
  proof
    assume "ht_map canon h (canon k) = Some v"
    then obtain e where e: "e \<in> set (ht_entries h)" "canon (ent_k e) = canon k"
      using ht_map_Some_iff [OF assms] by blast
    have "eqfn h k (ent_k e)"
      using ht_core_eqfn [OF assms] e(2) by simp
    then show False
      using None entry_in_chain [OF assms e] chain_search_None
      by (fastforce simp: hashtable_search_def hashtable_search_prehashed_def)
  qed
  then show ?thesis
    using None by (metis option.exhaust)
next
  case (Some v)
  then obtain e where e: "e \<in> set (table h ! indexFor (tablelength h) (hash h k))" "eqfn h k (ent_k e)"
      "v = ent_v e"
    by (auto simp: hashtable_search_def hashtable_search_prehashed_def dest!: chain_search_Some)
  have "canon (ent_k e) = canon k"
    using ht_core_eqfn [OF assms] e(2) by simp
  then have "ht_map canon h (canon k) = Some v"
    using chain_subset [OF assms e(1)] e(3) unfolding ht_map_Some_iff [OF assms] by blast
  then show ?thesis
    using Some by simp
qed

text \<open>
  Replacing the buckets keeps the invariant when every entry is in its bucket, carries the
  hash of its key, and no key is there twice.
\<close>

lemma ht_core_tableI:
  assumes "ht_core canon h" "bucket_ok (tablelength h) t"
    "\<And>e. e \<in> set (concat t) \<Longrightarrow> ent_h e = hash h (ent_k e)"
    "distinct (map (\<lambda>e. canon (ent_k e)) (concat t))"
  shows "ht_core canon (h \<lparr> table := t \<rparr>)"
proof -
  let ?h = "h \<lparr> table := t \<rparr>"
  have f: "ht_entries ?h = concat t" "table ?h = t" "tablelength ?h = tablelength h"
    "primeindex ?h = primeindex h" "hashfn ?h = hashfn h" "eqfn ?h = eqfn h"
    by (simp_all add: ht_entries_def)
  have parts: "primeindex h < prime_table_length" "tablelength h = primes ! primeindex h"
    "\<forall>a b. eqfn h a b \<longleftrightarrow> canon a = canon b" "\<forall>a b. canon a = canon b \<longrightarrow> hashfn h a = hashfn h b"
    using assms(1) unfolding ht_core_def by blast+
  show ?thesis
    unfolding ht_core_def f hash_fields by (intro conjI ballI parts assms(2-4))
qed

lemma ht_core_count [simp]: "ht_core canon (h \<lparr> entrycount := c \<rparr>) \<longleftrightarrow> ht_core canon h"
  by (simp add: ht_core_def ht_entries_def)

lemma ht_map_count [simp]: "ht_map canon (h \<lparr> entrycount := c \<rparr>) = ht_map canon h"
  by (simp add: ht_map_def ht_entries_def)

lemma ht_entries_count [simp]: "ht_entries (h \<lparr> entrycount := c \<rparr>) = ht_entries h"
  by (simp add: ht_entries_def)

lemma map_SomeI: "(\<And>x y. m x = Some y \<longleftrightarrow> m' x = Some y) \<Longrightarrow> m = m'"
  by (metis ext option.exhaust)

lemma push_ok:
  assumes "ht_core canon h" "ht_map canon h (canon k) = None"
    "e = \<lparr> ent_k = k, ent_v = v, ent_h = hash h k \<rparr>"
    "h' = h \<lparr> table := ht_push (tablelength h) e (table h) \<rparr>"
  shows "ht_core canon h' \<and> ht_map canon h' = (ht_map canon h)(canon k \<mapsto> v)
    \<and> length (ht_entries h') = Suc (length (ht_entries h))"
proof -
  have m: "mset (ht_entries h') = add_mset e (mset (ht_entries h))"
    using mset_ht_push [OF ht_core_pos [OF assms(1)] ht_core_len [OF assms(1)]]
    by (simp add: ht_entries_def assms(4))
  have set: "set (ht_entries h') = insert e (set (ht_entries h))"
    using mset_eq_setD [of "ht_entries h'" "e # ht_entries h"] m by simp
  have new: "canon (ent_k x) \<noteq> canon k" if "x \<in> set (ht_entries h)" for x
    using assms(2) ht_map_Some_iff [OF assms(1), of "canon k" "ent_v x"] that by auto
  have "mset (map (\<lambda>e. canon (ent_k e)) (ht_entries h')) = mset (map (\<lambda>e. canon (ent_k e)) (e # ht_entries h))"
    by (simp add: m)
  moreover have "distinct (map (\<lambda>e. canon (ent_k e)) (e # ht_entries h))"
    using ht_core_distinct [OF assms(1)] new by (simp add: assms(3)) (metis imageE)
  ultimately have dist: "distinct (map (\<lambda>e. canon (ent_k e)) (ht_entries h'))"
    using mset_eq_imp_distinct_iff by blast
  have core: "ht_core canon h'"
    unfolding assms(4)
  proof (rule ht_core_tableI [OF assms(1)])
    show "bucket_ok (tablelength h) (ht_push (tablelength h) e (table h))"
      by (intro bucket_ok_push ht_core_pos [OF assms(1)] ht_core_buckets [OF assms(1)])
    show "distinct (map (\<lambda>e. canon (ent_k e)) (concat (ht_push (tablelength h) e (table h))))"
      using dist by (simp add: ht_entries_def assms(4))
    fix x
    assume "x \<in> set (concat (ht_push (tablelength h) e (table h)))"
    moreover have "concat (ht_push (tablelength h) e (table h)) = ht_entries h'"
      by (simp add: ht_entries_def assms(4))
    ultimately have "x \<in> insert e (set (ht_entries h))"
      by (simp only: set)
    then show "ent_h x = hash h (ent_k x)"
      using ht_core_hash [OF assms(1)] by (auto simp: assms(3))
  qed
  have "ht_map canon h' = (ht_map canon h)(canon k \<mapsto> v)"
  proof (rule map_SomeI)
    fix c w
    have "ht_map canon h' c = Some w \<longleftrightarrow> (canon k = c \<and> v = w) \<or> ht_map canon h c = Some w"
      unfolding ht_map_Some_iff [OF core] ht_map_Some_iff [OF assms(1)] set by (auto simp: assms(3))
    then show "ht_map canon h' c = Some w \<longleftrightarrow> ((ht_map canon h)(canon k \<mapsto> v)) c = Some w"
      using assms(2) by auto
  qed
  then show ?thesis
    using core mset_eq_length [of "ht_entries h'" "e # ht_entries h"] m by simp
qed

lemma insert_ok:
  assumes "ht_wf canon h" "ht_map canon h (canon k) = None"
    "hashtable_insert malloc_ok realloc_ok h k v = (r, h')"
  shows "ht_wf canon h' \<and> r = malloc_ok sizeof_entry
    \<and> ht_map canon h' = (if r then (ht_map canon h)(canon k \<mapsto> v) else ht_map canon h)"
proof -
  let ?h1 = "h \<lparr> entrycount := entrycount h + 1 \<rparr>"
  define h2 where "h2 = (if entrycount ?h1 > loadlimit ?h1 then snd (hashtable_expand malloc_ok realloc_ok ?h1) else ?h1)"
  have core1: "ht_core canon ?h1" and cnt: "entrycount h = length (ht_entries h)"
    using assms(1) by (auto simp: ht_wf_def)
  have h2: "ht_core canon h2 \<and> ht_map canon h2 = ht_map canon h \<and> entrycount h2 = entrycount h + 1
      \<and> length (ht_entries h2) = length (ht_entries h) \<and> hashfn h2 = hashfn h"
    using expand_ok [OF core1, of malloc_ok realloc_ok "fst (hashtable_expand malloc_ok realloc_ok ?h1)"
        "snd (hashtable_expand malloc_ok realloc_ok ?h1)"] core1
    by (simp add: h2_def)
  have hash2: "hash h2 k = hash h k"
    using h2 by (simp add: hash_def)
  have code: "(r, h') = (if \<not> malloc_ok sizeof_entry then (False, h2 \<lparr> entrycount := entrycount h2 - 1 \<rparr>)
      else (True, h2 \<lparr> table := ht_push (tablelength h2) \<lparr> ent_k = k, ent_v = v, ent_h = hash h k \<rparr> (table h2) \<rparr>))"
    using assms(3) unfolding hashtable_insert_def hashtable_insert_prehashed_def Let_def h2_def [symmetric]
    by (rule sym)
  show ?thesis
  proof (cases "malloc_ok sizeof_entry")
    case True
    have "r" and h': "h' = h2 \<lparr> table := ht_push (tablelength h2) \<lparr> ent_k = k, ent_v = v, ent_h = hash h2 k \<rparr> (table h2) \<rparr>"
      using code True hash2 by auto
    then show ?thesis
      using push_ok [of canon h2 k, OF _ _ refl h'] h2 True cnt assms(2) by (simp add: ht_wf_def)
  next
    case False
    then show ?thesis
      using code h2 cnt by (simp add: ht_wf_def)
  qed
qed

lemma chain_remove_Some:
  "chain_remove eq hv k es = (Some e, es') \<Longrightarrow>
    \<exists>us vs. es = us @ e # vs \<and> es' = us @ vs \<and> hv = ent_h e \<and> eq k (ent_k e)"
proof (induction es arbitrary: es')
  case (Cons x es)
  show ?case
  proof (cases "hv = ent_h x \<and> eq k (ent_k x)")
    case True
    then show ?thesis
      using Cons.prems by (intro exI [of _ "[]"] exI [of _ es]) auto
  next
    case False
    then obtain es1 where 1: "chain_remove eq hv k es = (Some e, es1)" "es' = x # es1"
      using Cons.prems by (auto split: prod.splits)
    obtain us vs where "es = us @ e # vs" "es1 = us @ vs" "hv = ent_h e" "eq k (ent_k e)"
      using Cons.IH [OF 1(1)] by blast
    then show ?thesis
      using 1(2) by (intro exI [of _ "x # us"] exI [of _ vs]) simp
  qed
qed simp

lemma chain_remove_search: "map_option ent_v (fst (chain_remove eq hv k es)) = chain_search eq hv k es"
  by (induction es) (auto split: prod.splits)

text \<open>Taking one entry out of a chain.\<close>

lemma unlink_ok:
  assumes "ht_core canon h" "i < tablelength h" "table h ! i = us @ e # vs"
    "h' = h \<lparr> table := (table h)[i := us @ vs] \<rparr>"
  shows "ht_core canon h' \<and> ht_map canon h' = (ht_map canon h)(canon (ent_k e) := None)
    \<and> Suc (length (ht_entries h')) = length (ht_entries h)"
proof -
  have len: "i < length (table h)"
    using assms(2) ht_core_len [OF assms(1)] by simp
  have m: "add_mset e (mset (ht_entries h')) = mset (ht_entries h)"
    using mset_concat_update [OF len, of "us @ vs"] by (simp add: assms(3,4) ht_entries_def)
  have dist: "distinct (map (\<lambda>e. canon (ent_k e)) (e # ht_entries h'))"
  proof -
    have "mset (map (\<lambda>e. canon (ent_k e)) (e # ht_entries h')) = mset (map (\<lambda>e. canon (ent_k e)) (ht_entries h))"
      by (simp add: m [symmetric])
    then show ?thesis
      using ht_core_distinct [OF assms(1)] mset_eq_imp_distinct_iff by blast
  qed
  have set: "set (ht_entries h) = insert e (set (ht_entries h'))"
    using mset_eq_setD [of "e # ht_entries h'" "ht_entries h"] m by simp
  have entries: "concat ((table h)[i := us @ vs]) = ht_entries h'"
    by (simp add: ht_entries_def assms(4))
  have core: "ht_core canon h'"
    unfolding assms(4)
  proof (rule ht_core_tableI [OF assms(1)])
    show "bucket_ok (tablelength h) ((table h)[i := us @ vs])"
      unfolding bucket_ok_def
    proof (intro conjI allI impI ballI)
      show "length ((table h)[i := us @ vs]) = tablelength h"
        using ht_core_len [OF assms(1)] by simp
      fix j x
      assume j: "j < tablelength h" "x \<in> set ((table h)[i := us @ vs] ! j)"
      then have "x \<in> set (table h ! j)"
        using assms(3) len by (cases "j = i") auto
      then show "indexFor (tablelength h) (ent_h x) = j"
        using ht_core_bucket [OF assms(1) j(1)] by blast
    qed
    show "distinct (map (\<lambda>e. canon (ent_k e)) (concat ((table h)[i := us @ vs])))"
      using dist unfolding entries by simp
    show "ent_h x = hash h (ent_k x)" if "x \<in> set (concat ((table h)[i := us @ vs]))" for x
      using that ht_core_hash [OF assms(1)] set unfolding entries by blast
  qed
  have "ht_map canon h' = (ht_map canon h)(canon (ent_k e) := None)"
  proof (rule map_SomeI)
    fix c w
    have "canon (ent_k x) \<noteq> canon (ent_k e)" if "x \<in> set (ht_entries h')" for x
      using dist that by (auto simp: image_iff)
    then show "ht_map canon h' c = Some w \<longleftrightarrow> ((ht_map canon h)(canon (ent_k e) := None)) c = Some w"
      using ht_map_Some_iff [OF core, of c w] ht_map_Some_iff [OF assms(1), of c w] set by auto
  qed
  moreover have "Suc (length (ht_entries h')) = length (ht_entries h)"
    using mset_eq_length [of "e # ht_entries h'" "ht_entries h"] m by simp
  ultimately show ?thesis
    using core by blast
qed

lemma remove_ok:
  assumes "ht_wf canon h" "hashtable_remove h k = (r, h')"
  shows "ht_wf canon h' \<and> r = ht_map canon h (canon k) \<and> ht_map canon h' = (ht_map canon h)(canon k := None)"
proof -
  let ?i = "indexFor (tablelength h) (hash h k)"
  have core: "ht_core canon h" and cnt: "entrycount h = length (ht_entries h)"
    using assms(1) by (auto simp: ht_wf_def)
  obtain x es where x: "chain_remove (eqfn h) (hash h k) k (table h ! ?i) = (x, es)"
    by (cases "chain_remove (eqfn h) (hash h k) k (table h ! ?i)")
  have found: "map_option ent_v x = ht_map canon h (canon k)"
    using chain_remove_search [of "eqfn h" "hash h k" k "table h ! ?i"] search_ok [OF core, of k] x
    by (simp add: hashtable_search_def hashtable_search_prehashed_def)
  show ?thesis
  proof (cases x)
    case None
    then have "r = None" "h' = h"
      using assms(2) x by (auto simp: hashtable_remove_def hashtable_remove_prehashed_def Let_def)
    then show ?thesis
      using found None assms(1) by (simp add: fun_upd_idem)
  next
    case (Some e)
    let ?h = "h \<lparr> table := (table h)[?i := es] \<rparr>"
    have code: "r = Some (ent_v e)" "h' = ?h \<lparr> entrycount := entrycount h - 1 \<rparr>"
      using assms(2) x Some by (auto simp: hashtable_remove_def hashtable_remove_prehashed_def Let_def)
    obtain us vs where uv: "table h ! ?i = us @ e # vs" "es = us @ vs" "eqfn h k (ent_k e)"
      using chain_remove_Some [of "eqfn h" "hash h k" k "table h ! ?i" e es] x Some by blast
    have eq: "canon (ent_k e) = canon k"
      using uv(3) ht_core_eqfn [OF core] by simp
    have i: "?i < tablelength h"
      by (rule indexFor_less [OF ht_core_pos [OF core]])
    have "ht_core canon ?h \<and> ht_map canon ?h = (ht_map canon h)(canon k := None)
        \<and> Suc (length (ht_entries ?h)) = length (ht_entries h)"
      using unlink_ok [OF core i uv(1) refl] uv(2) eq by simp
    then show ?thesis
      using code found Some cnt by (auto simp: ht_wf_def)
  qed
qed

section \<open>Facts on the iterator\<close>

text \<open>What an iterator still has to show: the rest of its chain and the chains behind it.\<close>

definition itr_rest :: "('k, 'v) hashtable \<Rightarrow> hashtable_itr \<Rightarrow> ('k, 'v) entry list" where
  "itr_rest h itr =
     (case itr_e itr of
        None \<Rightarrow> []
      | Some off \<Rightarrow> drop off (table h ! itr_index itr) @ concat (drop (itr_index itr + 1) (table h)))"

definition itr_ok :: "('k, 'v) hashtable \<Rightarrow> hashtable_itr \<Rightarrow> bool" where
  "itr_ok h itr \<longleftrightarrow>
     (case itr_e itr of
        None \<Rightarrow> True
      | Some off \<Rightarrow> itr_index itr < length (table h) \<and> off < length (table h ! itr_index itr))"

lemma scan_chains_None: "scan_chains cs j = None \<Longrightarrow> concat cs = []"
  by (induction cs j rule: scan_chains.induct) (auto split: if_splits)

lemma scan_chains_Some:
  "scan_chains cs j = Some i \<Longrightarrow>
    j \<le> i \<and> i - j < length cs \<and> cs ! (i - j) \<noteq> [] \<and> concat cs = cs ! (i - j) @ concat (drop (i - j + 1) cs)"
proof (induction cs j rule: scan_chains.induct)
  case (2 c cs j)
  show ?case
  proof (cases "c \<noteq> []")
    case True
    then show ?thesis
      using 2(2) by simp
  next
    case False
    then have IH: "j + 1 \<le> i" "i - (j + 1) < length cs" "cs ! (i - (j + 1)) \<noteq> []"
      "concat cs = cs ! (i - (j + 1)) @ concat (drop (i - (j + 1) + 1) cs)"
      using 2 by auto
    have "i - j = Suc (i - (j + 1))"
      using IH(1) by simp
    then show ?thesis
      using IH False by simp
  qed
qed simp

lemma iterator_rest:
  assumes "length (table h) = tablelength h" "entrycount h = length (ht_entries h)" "malloc_ok sizeof_hashtable_itr"
  obtains itr where "hashtable_iterator malloc_ok h = Some itr" "itr_ok h itr" "itr_rest h itr = ht_entries h"
proof (cases "entrycount h = 0")
  case True
  then show ?thesis
    using assms that by (simp add: hashtable_iterator_def itr_ok_def itr_rest_def)
next
  case False
  have t: "take (tablelength h) (table h) = table h"
    using assms(1) by simp
  show ?thesis
  proof (cases "scan_chains (table h) 0")
    case None
    then show ?thesis
      using scan_chains_None [OF None] assms False by (simp add: ht_entries_def)
  next
    case (Some i)
    then show ?thesis
      using scan_chains_Some [OF Some] False assms(3) that
      by (simp add: hashtable_iterator_def t itr_ok_def itr_rest_def ht_entries_def)
  qed
qed

lemma next_chain_rest:
  assumes "length (table h) = tablelength h" "itr_index itr < tablelength h"
  shows "itr_ok h (snd (itr_next_chain h itr))
    \<and> itr_rest h (snd (itr_next_chain h itr)) = concat (drop (itr_index itr + 1) (table h))
    \<and> (fst (itr_next_chain h itr) \<longleftrightarrow> itr_e (snd (itr_next_chain h itr)) \<noteq> None)"
proof (cases "tablelength h \<le> itr_index itr + 1")
  case True
  then show ?thesis
    using assms by (simp add: itr_next_chain_def itr_ok_def itr_rest_def)
next
  case False
  let ?j = "itr_index itr + 1"
  have t: "take (tablelength h) (table h) = table h"
    using assms(1) by simp
  show ?thesis
  proof (cases "scan_chains (drop ?j (table h)) ?j")
    case None
    then show ?thesis
      using scan_chains_None [OF None] False by (simp add: itr_next_chain_def itr_ok_def itr_rest_def t)
  next
    case (Some i)
    have s: "?j \<le> i" "i - ?j < length (drop ?j (table h))" "drop ?j (table h) ! (i - ?j) \<noteq> []"
      "concat (drop ?j (table h)) = drop ?j (table h) ! (i - ?j) @ concat (drop (i - ?j + 1) (drop ?j (table h)))"
      using scan_chains_Some [OF Some] by blast+
    have i: "drop ?j (table h) ! (i - ?j) = table h ! i" "drop (i - ?j + 1) (drop ?j (table h)) = drop (i + 1) (table h)"
      "i < length (table h)"
      using s(1,2) by (auto simp: drop_drop)
    show ?thesis
      using s(3,4) i Some False by (simp add: itr_next_chain_def itr_ok_def itr_rest_def t)
  qed
qed

lemma advance_rest:
  assumes "length (table h) = tablelength h" "itr_ok h itr" "itr_e itr = Some off"
  shows "itr_rest h itr = table h ! itr_index itr ! off # itr_rest h (snd (hashtable_iterator_advance h itr))
    \<and> itr_ok h (snd (hashtable_iterator_advance h itr))
    \<and> (fst (hashtable_iterator_advance h itr) \<longleftrightarrow> itr_e (snd (hashtable_iterator_advance h itr)) \<noteq> None)"
proof -
  let ?c = "table h ! itr_index itr"
  have i: "itr_index itr < tablelength h" "off < length ?c"
    using assms by (auto simp: itr_ok_def)
  have d: "drop off ?c = ?c ! off # drop (off + 1) ?c"
    using i(2) by (simp add: Cons_nth_drop_Suc)
  show ?thesis
  proof (cases "off + 1 < length ?c")
    case True
    then show ?thesis
      using assms d i by (simp add: hashtable_iterator_advance_def itr_rest_def itr_ok_def)
  next
    case False
    then have "drop (off + 1) ?c = []"
      by simp
    then show ?thesis
      using next_chain_rest [OF assms(1) i(1)] assms(3) d False
      by (simp add: hashtable_iterator_advance_def itr_rest_def)
  qed
qed

lemma itr_loop_rest:
  assumes "length (table h) = tablelength h" "itr_ok h itr" "itr_rest h itr \<noteq> []"
  shows "itr_loop h itr = Some (itr_rest h itr)"
  using assms(2,3)
proof (induction "length (itr_rest h itr)" arbitrary: itr rule: less_induct)
  case less
  obtain off where off: "itr_e itr = Some off"
    using less.prems(2) by (cases "itr_e itr") (auto simp: itr_rest_def)
  obtain more itr' where a: "hashtable_iterator_advance h itr = (more, itr')"
    by fastforce
  have r: "itr_rest h itr = table h ! itr_index itr ! off # itr_rest h itr'" "itr_ok h itr'" "more \<longleftrightarrow> itr_e itr' \<noteq> None"
    using advance_rest [OF assms(1) less.prems(1) off] a by simp_all
  show ?case
  proof (cases more)
    case True
    then have "itr_rest h itr' \<noteq> []"
      using r(2,3) by (auto simp: itr_rest_def itr_ok_def)
    then have "itr_loop h itr' = Some (itr_rest h itr')"
      using less.hyps [OF _ r(2)] r(1) by simp
    then show ?thesis
      using True by (subst itr_loop.simps) (simp add: off a r(1))
  next
    case False
    then have "itr_rest h itr' = []"
      using r(3) by (simp add: itr_rest_def)
    then show ?thesis
      using False by (subst itr_loop.simps) (simp add: off a r(1))
  qed
qed

section \<open>The interface of a keyed map\<close>

text \<open>
  What the users of the table rely on: it behaves as a finite map from key classes to
  values, where storing under an unused key may fail and then changes nothing.
\<close>

locale keyed_map =
  fixes inv :: "'s \<Rightarrow> bool"
    and abs :: "'s \<Rightarrow> 'c \<Rightarrow> 'v option"
    and canon :: "'k \<Rightarrow> 'c"
    and lookup :: "'s \<Rightarrow> 'k \<Rightarrow> 'v option"
    and put :: "'s \<Rightarrow> 'k \<Rightarrow> 'v \<Rightarrow> bool \<times> 's"
    and del :: "'s \<Rightarrow> 'k \<Rightarrow> 'v option \<times> 's"
  assumes lookup_abs: "inv s \<Longrightarrow> lookup s k = abs s (canon k)"
    and put_inv: "inv s \<Longrightarrow> abs s (canon k) = None \<Longrightarrow> put s k v = (r, s') \<Longrightarrow> inv s'"
    and put_abs: "inv s \<Longrightarrow> abs s (canon k) = None \<Longrightarrow> put s k v = (r, s') \<Longrightarrow>
      abs s' = (if r then (abs s)(canon k \<mapsto> v) else abs s)"
    and del_inv: "inv s \<Longrightarrow> del s k = (x, s') \<Longrightarrow> inv s'"
    and del_abs: "inv s \<Longrightarrow> del s k = (x, s') \<Longrightarrow> x = abs s (canon k) \<and> abs s' = (abs s)(canon k := None)"
begin

lemma lookup_put:
  assumes "inv s" "lookup s k = None" "put s k v = (True, s')"
  shows "lookup s' k' = (if canon k' = canon k then Some v else lookup s k')"
  using assms lookup_abs put_abs [of s k v True s'] put_inv [of s k v True s'] by simp

lemma lookup_del:
  assumes "inv s" "del s k = (x, s')"
  shows "x = lookup s k \<and> lookup s' k' = (if canon k' = canon k then None else lookup s k')"
  using assms lookup_abs del_abs [OF assms] del_inv [OF assms] by simp

lemma put_del:
  assumes "inv s" "lookup s k = None" "put s k v = (True, s')" "del s' k = (x, s'')"
  shows "x = Some v \<and> inv s'' \<and> abs s'' = abs s"
proof -
  have none: "abs s (canon k) = None"
    using assms lookup_abs by simp
  have s': "inv s'" "abs s' = (abs s)(canon k \<mapsto> v)"
    using put_inv [OF assms(1) none assms(3)] put_abs [OF assms(1) none assms(3)] by auto
  show ?thesis
    using del_abs [OF s'(1) assms(4)] del_inv [OF s'(1) assms(4)] s'(2) none
    by (auto simp: fun_upd_idem)
qed

end

interpretation hm: keyed_map "ht_wf canon" "ht_map canon" canon hashtable_search
  "hashtable_insert malloc_ok realloc_ok" hashtable_remove for canon malloc_ok realloc_ok
proof (unfold_locales, goal_cases)
  case (1 s k)
  then show ?case
    by (simp add: ht_wf_def search_ok)
next
  case (2 s k v r s')
  then show ?case
    using insert_ok [OF 2] by (elim conjE)
next
  case (3 s k v r s')
  then show ?case
    using insert_ok [OF 3] by (elim conjE)
next
  case (4 s k x s')
  then show ?case
    using remove_ok [OF 4] by (elim conjE)
next
  case (5 s k x s')
  then show ?case
    using remove_ok [OF 5] by (elim conjE) (rule conjI)
qed

section \<open>Construction with the string callbacks\<close>

definition cstring :: "char list \<Rightarrow> char list" where
  "cstring k = take (strlen k) k"

lemma find_prime_found:
  "\<exists>p \<in> set ps. minsize < p \<Longrightarrow> find_prime ps i minsize = (j, q) \<Longrightarrow>
    i \<le> j \<and> j - i < length ps \<and> q = ps ! (j - i) \<and> minsize < q"
proof (induction ps i minsize rule: find_prime.induct)
  case (2 p ps i minsize)
  show ?case
  proof (cases "minsize < p")
    case False
    then have "i + 1 \<le> j \<and> j - (i + 1) < length ps \<and> q = ps ! (j - (i + 1)) \<and> minsize < q"
      using 2 by auto
    then show ?thesis
      by (auto simp: nth_Cons')
  qed (use 2 in simp)
qed simp

lemma concat_replicate_nil: "concat (replicate n []) = []"
  by (induction n) auto

lemma create_ok:
  assumes "create_hashtable malloc_ok minsize hashf eqf = Some h"
    "\<forall>a b. eqf a b \<longleftrightarrow> canon a = canon b" "\<forall>a b. canon a = canon b \<longrightarrow> hashf a = hashf b"
  shows "ht_wf canon h \<and> ht_map canon h = Map.empty \<and> minsize < tablelength h"
proof -
  obtain j q where jq: "find_prime primes 0 minsize = (j, q)"
    by (cases "find_prime primes 0 minsize")
  have le: "minsize \<le> 2 ^ 30"
    using assms(1) by (auto simp: create_hashtable_def split: if_splits)
  have "\<exists>p \<in> set primes. minsize < p"
    using le by (intro bexI [of _ 1610612741]) (auto simp: primes_def)
  then have j: "j < prime_table_length" "q = primes ! j" "minsize < q"
    using find_prime_found [OF _ jq] by (auto simp: prime_table_length_def)
  have h: "h = \<lparr> tablelength = q, table = replicate q [], entrycount = 0,
      loadlimit = getLoadLimit q, primeindex = j, hashfn = hashf, eqfn = eqf \<rparr>"
    using assms(1) jq by (auto simp: create_hashtable_def split: if_splits)
  have e: "ht_entries h = []"
    by (simp add: h ht_entries_def concat_replicate_nil)
  have f: "primeindex h = j" "tablelength h = q" "table h = replicate q []" "hashfn h = hashf" "eqfn h = eqf"
    by (simp_all add: h)
  have "ht_core canon h"
    unfolding ht_core_def e f by (intro conjI j(1,2) assms(2,3) bucket_ok_replicate) simp_all
  then show ?thesis
    using e j by (simp add: ht_wf_def ht_map_def h)
qed

lemma string_callbacks:
  "(\<forall>a b. key_equals_string a b \<longleftrightarrow> cstring a = cstring b)
   \<and> (\<forall>a b. cstring a = cstring b \<longrightarrow> hash_from_string a = hash_from_string b)"
  by (simp add: key_equals_string_def cstring_def hash_from_string_def)

section \<open>Properties\<close>

text \<open>
  C5: The table is a map. Inserting under a key that is not stored yet, when the allocation
  of the entry succeeds, makes a search for that key return the value and changes the result
  of no other search. This holds on every path: with or without growing the table, and
  whether it grows into a new table or in place.
\<close>

theorem insert_search:
  assumes "ht_wf canon h" "hashtable_search h k = None"
    "hashtable_insert malloc_ok realloc_ok h k v = (True, h')"
  shows "hashtable_search h' k' = (if canon k' = canon k then Some v else hashtable_search h k')"
  using assms by (rule hm.lookup_put)

definition demo_table :: "(char list, nat) hashtable" where
  "demo_table = \<lparr> tablelength = 53, table = replicate 53 [], entrycount = 0, loadlimit = getLoadLimit 53,
     primeindex = 0, hashfn = hash_from_string, eqfn = key_equals_string \<rparr>"

lemma demo_table_create: "create_hashtable (\<lambda>n. True) 10 hash_from_string key_equals_string = Some demo_table"
  by (simp add: create_hashtable_def primes_def demo_table_def)

lemma demo_table_wf: "ht_wf cstring demo_table" "ht_map cstring demo_table = Map.empty"
  using create_ok [OF demo_table_create, of cstring] string_callbacks by blast+

lemma demo_table_search: "hashtable_search demo_table k = None"
  using demo_table_wf search_ok [of cstring demo_table k] by (simp add: ht_wf_def)

theorem insert_search_witness:
  "\<exists>h'. hashtable_insert (\<lambda>n. True) (\<lambda>n. True) demo_table ''a'' 1 = (True, h')
    \<and> hashtable_search h' ''a'' = Some 1 \<and> hashtable_search h' ''b'' = None"
proof -
  obtain r h' where h': "hashtable_insert (\<lambda>n. True) (\<lambda>n. True) demo_table ''a'' 1 = (r, h')"
    by (cases "hashtable_insert (\<lambda>n. True) (\<lambda>n. True) demo_table ''a'' 1")
  have r: "r"
    using insert_ok [OF demo_table_wf(1) _ h'] demo_table_wf(2) by simp
  have "hashtable_search h' k = (if cstring k = cstring ''a'' then Some 1 else None)" for k
    using insert_search [OF demo_table_wf(1) demo_table_search, of "\<lambda>n. True" "\<lambda>n. True" "''a''" 1 h' k]
      h' r demo_table_search [of k] by simp
  then show ?thesis
    using h' r by (simp add: cstring_def strlen_def)
qed

text \<open>
  C13: Removing a key returns the value a search for it would have returned, and afterwards
  that key is not found while every other search gives the same result as before. The table
  stays well-formed, with its entry count right.
\<close>

theorem remove_search:
  assumes "ht_wf canon h" "hashtable_remove h k = (x, h')"
  shows "x = hashtable_search h k \<and> ht_wf canon h'
    \<and> hashtable_search h' k' = (if canon k' = canon k then None else hashtable_search h k')"
  using hm.lookup_del [OF assms] hm.del_inv [OF assms] by simp

text \<open>A table with one entry.\<close>

lemma distinct_singleton_list: "set xs = {x} \<Longrightarrow> distinct xs \<Longrightarrow> xs = [x]"
  by (cases xs; cases "tl xs") auto

lemma demo_one:
  obtains h where "hashtable_insert (\<lambda>n. True) (\<lambda>n. True) demo_table ''a'' 1 = (True, h)" "ht_wf cstring h"
    "hashtable_search h ''a'' = Some 1" "map (\<lambda>e. cstring (ent_k e)) (ht_entries h) = [''a'']"
proof -
  obtain h where h: "hashtable_insert (\<lambda>n. True) (\<lambda>n. True) demo_table ''a'' 1 = (True, h)"
    using insert_ok [OF demo_table_wf(1)] demo_table_wf(2)
    by (cases "hashtable_insert (\<lambda>n. True) (\<lambda>n. True) demo_table ''a'' 1") fastforce
  have wf: "ht_wf cstring h"
    using hm.put_inv [OF demo_table_wf(1) _ h] demo_table_wf(2) by simp
  moreover have "hashtable_search h ''a'' = Some 1"
    using hm.lookup_put [OF demo_table_wf(1) demo_table_search h] by simp
  moreover have "map (\<lambda>e. cstring (ent_k e)) (ht_entries h) = [''a'']"
  proof -
    have "ht_map cstring h = [''a'' \<mapsto> 1]"
      using hm.put_abs [OF demo_table_wf(1) _ h] demo_table_wf(2) by (simp add: cstring_def strlen_def)
    then have "dom (ht_map cstring h) = {''a''}"
      by simp
    then have "set (map (\<lambda>e. cstring (ent_k e)) (ht_entries h)) = {''a''}"
      by (simp add: ht_map_def dom_map_of_conv_image_fst image_image)
    moreover have "distinct (map (\<lambda>e. cstring (ent_k e)) (ht_entries h))"
      using wf by (simp add: ht_wf_def ht_core_def)
    ultimately show ?thesis
      by (simp only: distinct_singleton_list)
  qed
  ultimately show thesis
    using that h by simp
qed

theorem remove_search_witness:
  "\<exists>h h'. hashtable_insert (\<lambda>n. True) (\<lambda>n. True) demo_table ''a'' 1 = (True, h)
    \<and> hashtable_remove h ''a'' = (Some 1, h') \<and> ht_wf cstring h' \<and> hashtable_search h' ''a'' = None"
proof -
  obtain h where h: "hashtable_insert (\<lambda>n. True) (\<lambda>n. True) demo_table ''a'' 1 = (True, h)" "ht_wf cstring h"
      "hashtable_search h ''a'' = Some 1" "map (\<lambda>e. cstring (ent_k e)) (ht_entries h) = [''a'']"
    by (rule demo_one)
  obtain x h' where h': "hashtable_remove h ''a'' = (x, h')"
    by (cases "hashtable_remove h ''a''")
  show ?thesis
    using remove_search [OF h(2) h', of "''a''"] h(1,3) h' by auto
qed

text \<open>
  C19: A loop over the iterator ends and sees every entry of the table exactly once, in bucket
  order: the callers' loop goes on for as long as advancing reports a next entry, never looks
  through an iterator at the end, and has seen all entries when it stops. When there is no memory
  for the iterator, the caller is told so and nothing is visited.
\<close>

theorem iterator_visits_all:
  assumes "ht_wf canon h"
  shows "itr_visit malloc_ok h =
    Some (if hashtable_count h = 0 \<or> malloc_ok sizeof_hashtable_itr then (RS_RET_OK, ht_entries h) else (RS_RET_OUT_OF_MEMORY, []))"
proof -
  have len: "length (table h) = tablelength h" and cnt: "entrycount h = length (ht_entries h)"
    using assms ht_core_len by (auto simp: ht_wf_def)
  consider "entrycount h = 0" | "entrycount h \<noteq> 0" "\<not> malloc_ok sizeof_hashtable_itr" | "entrycount h \<noteq> 0" "malloc_ok sizeof_hashtable_itr"
    by blast
  then show ?thesis
  proof cases
    case 3
    obtain itr where itr: "hashtable_iterator malloc_ok h = Some itr" "itr_ok h itr" "itr_rest h itr = ht_entries h"
      by (rule iterator_rest [where malloc_ok = malloc_ok, OF len cnt 3(2)])
    then have "itr_loop h itr = Some (ht_entries h)"
      using itr_loop_rest [OF len itr(2)] 3(1) cnt by simp
    then show ?thesis
      using 3 itr(1) by (simp add: itr_visit_def hashtable_count_def)
  qed (use cnt in \<open>simp_all add: itr_visit_def hashtable_count_def hashtable_iterator_def\<close>)
qed

theorem iterator_visits_all_witness:
  "\<exists>h es. hashtable_insert (\<lambda>n. True) (\<lambda>n. True) demo_table ''a'' 1 = (True, h)
    \<and> itr_visit (\<lambda>n. True) h = Some (RS_RET_OK, es) \<and> map (\<lambda>e. cstring (ent_k e)) es = [''a'']"
proof -
  obtain h where h: "hashtable_insert (\<lambda>n. True) (\<lambda>n. True) demo_table ''a'' 1 = (True, h)" "ht_wf cstring h"
      "hashtable_search h ''a'' = Some 1" "map (\<lambda>e. cstring (ent_k e)) (ht_entries h) = [''a'']"
    by (rule demo_one)
  show ?thesis
    using iterator_visits_all [OF h(2), of "\<lambda>n. True"] h(1,4) by auto
qed

text \<open>
  The load limit is 65 percent of the table size for every size of the prime table up
  to 50331653. For each of the five larger sizes the product is cut to 32 bits before the
  division and the limit is a smaller number.
\<close>

theorem load_limit_exact_iff:
  "\<forall>i < prime_table_length. getLoadLimit (primes ! i) = primes ! i * 65 div 100 \<longleftrightarrow> i \<le> 20"
proof -
  have "\<forall>i \<in> set [0..<26]. (getLoadLimit (primes ! i) = primes ! i * 65 div 100) = (i \<le> 20)"
    by (simp add: getLoadLimit_def MAX_LOAD_FACTOR_def primes_def upt_rec del: set_upt)
  moreover have "prime_table_length = 26"
    by (simp add: prime_table_length_def primes_def)
  ultimately show ?thesis
    by simp
qed

theorem load_limit_exact_iff_witness:
  "getLoadLimit (primes ! 21) \<noteq> primes ! 21 * 65 div 100"
proof -
  have "21 < prime_table_length"
    by (simp add: prime_table_length_def primes_def)
  from load_limit_exact_iff [rule_format, OF this] show ?thesis
    by simp
qed

end
