(* ===== verification/Segdisk_Bytes.thy ===== *)
theory Segdisk_Bytes
imports Rsyslog_Prelude
begin

unbundle bit_operations_syntax

text \<open>
  The big-endian integer routines that \<^verbatim>\<open>runtime/segdisk_state.c\<close> and
  \<^verbatim>\<open>runtime/segdisk_codec.c\<close> both define, reads and writes at fixed offsets of a byte
  buffer, and the conversion between bytes and characters.
\<close>

section \<open>Definitions\<close>

type_synonym byte = "8 word"

definition put16 :: "16 word \<Rightarrow> byte list" where
  "put16 v = [ucast (drop_bit 8 v), ucast v]"

definition put32 :: "32 word \<Rightarrow> byte list" where
  "put32 v = [ucast (drop_bit 24 v), ucast (drop_bit 16 v), ucast (drop_bit 8 v), ucast v]"

definition put64 :: "64 word \<Rightarrow> byte list" where
  "put64 v = put32 (ucast (drop_bit 32 v)) @ put32 (ucast v)"

definition get16 :: "byte list \<Rightarrow> 16 word" where
  "get16 p = push_bit 8 (ucast (p ! 0)) OR ucast (p ! 1)"

definition get32 :: "byte list \<Rightarrow> 32 word" where
  "get32 p = push_bit 24 (ucast (p ! 0)) OR push_bit 16 (ucast (p ! 1)) OR push_bit 8 (ucast (p ! 2)) OR ucast (p ! 3)"

definition get64 :: "byte list \<Rightarrow> 64 word" where
  "get64 p = push_bit 32 (ucast (get32 p)) OR ucast (get32 (drop 4 p))"

text \<open>A copy into a buffer at an offset, and the bytes at an offset.\<close>

definition bput :: "byte list \<Rightarrow> nat \<Rightarrow> byte list \<Rightarrow> byte list" where
  "bput b off xs = take off b @ xs @ drop (off + length xs) b"

definition bget :: "nat \<Rightarrow> nat \<Rightarrow> byte list \<Rightarrow> byte list" where
  "bget n off b = take n (drop off b)"

definition byte_of_char :: "char \<Rightarrow> byte" where
  "byte_of_char c = of_nat (of_char c)"

definition char_of_byte :: "byte \<Rightarrow> char" where
  "char_of_byte b = char_of (unat b)"

section \<open>Facts\<close>

lemma length_put [simp]: "length (put16 a) = 2" "length (put32 b) = 4" "length (put64 c) = 8"
  by (simp_all add: put16_def put32_def put64_def)

lemma length_bput [simp]: "off + length xs \<le> length b \<Longrightarrow> length (bput b off xs) = length b"
  by (simp add: bput_def)

lemma bget_bput_same: "off + length xs \<le> length b \<Longrightarrow> n = length xs \<Longrightarrow> bget n off (bput b off xs) = xs"
  by (simp add: bget_def bput_def)

lemma bget_bput_before: "off' + n \<le> off \<Longrightarrow> off + length xs \<le> length b \<Longrightarrow> bget n off' (bput b off xs) = bget n off' b"
proof -
  assume "off' + n \<le> off" "off + length xs \<le> length b"
  then have "drop off' (bput b off xs) = drop off' (take off b) @ xs @ drop (off + length xs) b"
    "n \<le> length (drop off' (take off b))" "take n (drop off' (take off b)) = take n (drop off' b)"
    by (simp_all add: bput_def drop_take)
  then show ?thesis
    by (simp add: bget_def)
qed

lemma bget_bput_after:
  "off + length xs \<le> off' \<Longrightarrow> off + length xs \<le> length b \<Longrightarrow> bget n off' (bput b off xs) = bget n off' b"
  by (simp add: bget_def bput_def)

lemma get16_put16: "take 2 p = put16 v \<Longrightarrow> get16 p = v"
proof -
  assume p: "take 2 p = put16 v"
  have "p ! 0 = take 2 p ! 0" "p ! 1 = take 2 p ! 1"
    by simp_all
  then have "get16 p = push_bit 8 (ucast (ucast (drop_bit 8 v) :: byte)) OR ucast (ucast v :: byte)"
    by (simp add: get16_def p put16_def)
  also have "\<dots> = v"
    by (rule bit_word_eqI) (auto simp: bit_simps)
  finally show ?thesis .
qed

lemma get32_put32: "take 4 p = put32 v \<Longrightarrow> get32 p = v"
proof -
  assume p: "take 4 p = put32 v"
  have "p ! 0 = take 4 p ! 0" "p ! 1 = take 4 p ! 1" "p ! 2 = take 4 p ! 2" "p ! 3 = take 4 p ! 3"
    by simp_all
  then have "get32 p = push_bit 24 (ucast (ucast (drop_bit 24 v) :: byte))
      OR push_bit 16 (ucast (ucast (drop_bit 16 v) :: byte)) OR push_bit 8 (ucast (ucast (drop_bit 8 v) :: byte))
      OR ucast (ucast v :: byte)"
    by (simp add: get32_def p put32_def)
  also have "\<dots> = v"
  proof (rule bit_word_eqI)
    fix n
    assume "n < LENGTH(32)"
    then consider "n < 8" | "8 \<le> n" "n < 16" | "16 \<le> n" "n < 24" | "24 \<le> n" "n < 32"
      by fastforce
    then show "bit (push_bit 24 (ucast (ucast (drop_bit 24 v) :: byte) :: 32 word)
        OR push_bit 16 (ucast (ucast (drop_bit 16 v) :: byte)) OR push_bit 8 (ucast (ucast (drop_bit 8 v) :: byte))
        OR ucast (ucast v :: byte)) n = bit v n"
      by cases (auto simp: bit_simps)
  qed
  finally show ?thesis .
qed

lemma put32_get32: "4 \<le> length p \<Longrightarrow> put32 (get32 p) = take 4 p"
proof -
  assume "4 \<le> length p"
  then obtain a b c d q where p: "p = a # b # c # d # q"
    by (auto simp: numeral_eq_Suc Suc_le_length_iff)
  have "ucast (drop_bit 24 (get32 p)) = a" "ucast (drop_bit 16 (get32 p)) = b"
    "ucast (drop_bit 8 (get32 p)) = c" "ucast (get32 p) = d"
    by (rule bit_word_eqI; auto simp: p get32_def bit_simps dest: bit_imp_le_length)+
  then show ?thesis
    by (simp add: put32_def p)
qed

lemma get64_put64: "take 8 p = put64 v \<Longrightarrow> get64 p = v"
proof -
  assume p: "take 8 p = put64 v"
  have "take 4 p = take 4 (take 8 p)" "take 4 (drop 4 p) = drop 4 (take 8 p)"
    by (simp_all add: drop_take)
  then have "get32 p = ucast (drop_bit 32 v)" "get32 (drop 4 p) = ucast v"
    by (simp_all add: p put64_def get32_put32)
  moreover have "push_bit 32 (ucast (ucast (drop_bit 32 v) :: 32 word)) OR ucast (ucast v :: 32 word) = v"
    by (rule bit_word_eqI) (auto simp: bit_simps)
  ultimately show ?thesis
    by (simp add: get64_def)
qed

lemma char_of_byte_of_char [simp]: "char_of_byte (byte_of_char c) = c"
  by (simp add: char_of_byte_def byte_of_char_def unat_of_nat)

lemma byte_of_char_of_byte [simp]: "byte_of_char (char_of_byte b) = b"
  using unsigned_less [where ?'a = nat and w = b] by (simp add: char_of_byte_def byte_of_char_def)

section \<open>Sequences of writes\<close>

text \<open>
  Writes to disjoint, ascending places: what was written at a place is read back there, and
  places no write touches keep their content.
\<close>

abbreviation run_writes :: "(nat \<times> byte list) list \<Rightarrow> byte list \<Rightarrow> byte list" where
  "run_writes ws b \<equiv> fold (\<lambda>(off, xs) b. bput b off xs) ws b"

definition ascending :: "(nat \<times> byte list) list \<Rightarrow> bool" where
  "ascending ws = sorted_wrt (\<lambda>w w'. fst w + length (snd w) \<le> fst w') ws"

lemma length_run_writes:
  "\<forall>w \<in> set ws. fst w + length (snd w) \<le> length b \<Longrightarrow> length (run_writes ws b) = length b"
  by (induction ws arbitrary: b) (auto simp: case_prod_beta)

lemma run_writes_other:
  assumes "\<forall>w \<in> set ws. fst w + length (snd w) \<le> length b \<and> (off + n \<le> fst w \<or> fst w + length (snd w) \<le> off)"
  shows "bget n off (run_writes ws b) = bget n off b"
  using assms
proof (induction ws arbitrary: b)
  case (Cons w ws)
  have "bget n off (bput b (fst w) (snd w)) = bget n off b"
    using Cons.prems bget_bput_before [of off n "fst w" "snd w" b] bget_bput_after [of "fst w" "snd w" off b n]
    by auto
  then show ?case
    using Cons.IH [of "bput b (fst w) (snd w)"] Cons.prems by (simp add: case_prod_beta)
qed simp

lemma run_writes_get:
  assumes "ascending ws" "\<forall>w \<in> set ws. fst w + length (snd w) \<le> length b" "(off, xs) \<in> set ws"
  shows "bget (length xs) off (run_writes ws b) = xs"
  using assms
proof (induction ws arbitrary: b)
  case (Cons w ws)
  let ?b = "bput b (fst w) (snd w)"
  have len: "length ?b = length b" and le: "\<forall>w \<in> set ws. fst w + length (snd w) \<le> length ?b"
    using Cons.prems(2) by simp_all
  show ?case
  proof (cases "(off, xs) \<in> set ws")
    case True
    then show ?thesis
      using Cons.IH [OF _ le True] Cons.prems(1) by (simp add: ascending_def case_prod_beta)
  next
    case False
    then have w: "w = (off, xs)"
      using Cons.prems(3) by simp
    have "bget (length xs) off (run_writes ws ?b) = bget (length xs) off ?b"
      using Cons.prems(1,2) w by (intro run_writes_other) (auto simp: ascending_def)
    then show ?thesis
      using Cons.prems(2) w by (simp add: bget_bput_same)
  qed
qed simp

lemma get16_at: "bget 2 off b = put16 v \<Longrightarrow> get16 (drop off b) = v"
  by (simp add: bget_def get16_put16)

lemma get32_at: "bget 4 off b = put32 v \<Longrightarrow> get32 (drop off b) = v"
  by (simp add: bget_def get32_put32)

lemma get64_at: "bget 8 off b = put64 v \<Longrightarrow> get64 (drop off b) = v"
  by (simp add: bget_def get64_put64)

end
