(* ===== verification/Segdisk_Crc.thy ===== *)
theory Segdisk_Crc
imports Rsyslog_Prelude
begin

unbundle bit_operations_syntax

text \<open>
  The CRC-32C of \<^verbatim>\<open>runtime/segdisk_crc.c\<close>, which protects the state slots and the records
  of the segmented disk queue: the code's 256-entry table and byte loop, the bitwise
  definition of the checksum by its polynomial, and the proof that they agree.
\<close>

section \<open>The code\<close>

definition crc32c_table :: "32 word list" where
  "crc32c_table =
    [0x00000000, 0xF26B8303, 0xE13B70F7, 0x1350F3F4, 0xC79A971F, 0x35F1141C,
     0x26A1E7E8, 0xD4CA64EB, 0x8AD958CF, 0x78B2DBCC, 0x6BE22838, 0x9989AB3B,
     0x4D43CFD0, 0xBF284CD3, 0xAC78BF27, 0x5E133C24, 0x105EC76F, 0xE235446C,
     0xF165B798, 0x030E349B, 0xD7C45070, 0x25AFD373, 0x36FF2087, 0xC494A384,
     0x9A879FA0, 0x68EC1CA3, 0x7BBCEF57, 0x89D76C54, 0x5D1D08BF, 0xAF768BBC,
     0xBC267848, 0x4E4DFB4B, 0x20BD8EDE, 0xD2D60DDD, 0xC186FE29, 0x33ED7D2A,
     0xE72719C1, 0x154C9AC2, 0x061C6936, 0xF477EA35, 0xAA64D611, 0x580F5512,
     0x4B5FA6E6, 0xB93425E5, 0x6DFE410E, 0x9F95C20D, 0x8CC531F9, 0x7EAEB2FA,
     0x30E349B1, 0xC288CAB2, 0xD1D83946, 0x23B3BA45, 0xF779DEAE, 0x05125DAD,
     0x1642AE59, 0xE4292D5A, 0xBA3A117E, 0x4851927D, 0x5B016189, 0xA96AE28A,
     0x7DA08661, 0x8FCB0562, 0x9C9BF696, 0x6EF07595, 0x417B1DBC, 0xB3109EBF,
     0xA0406D4B, 0x522BEE48, 0x86E18AA3, 0x748A09A0, 0x67DAFA54, 0x95B17957,
     0xCBA24573, 0x39C9C670, 0x2A993584, 0xD8F2B687, 0x0C38D26C, 0xFE53516F,
     0xED03A29B, 0x1F682198, 0x5125DAD3, 0xA34E59D0, 0xB01EAA24, 0x42752927,
     0x96BF4DCC, 0x64D4CECF, 0x77843D3B, 0x85EFBE38, 0xDBFC821C, 0x2997011F,
     0x3AC7F2EB, 0xC8AC71E8, 0x1C661503, 0xEE0D9600, 0xFD5D65F4, 0x0F36E6F7,
     0x61C69362, 0x93AD1061, 0x80FDE395, 0x72966096, 0xA65C047D, 0x5437877E,
     0x4767748A, 0xB50CF789, 0xEB1FCBAD, 0x197448AE, 0x0A24BB5A, 0xF84F3859,
     0x2C855CB2, 0xDEEEDFB1, 0xCDBE2C45, 0x3FD5AF46, 0x7198540D, 0x83F3D70E,
     0x90A324FA, 0x62C8A7F9, 0xB602C312, 0x44694011, 0x5739B3E5, 0xA55230E6,
     0xFB410CC2, 0x092A8FC1, 0x1A7A7C35, 0xE811FF36, 0x3CDB9BDD, 0xCEB018DE,
     0xDDE0EB2A, 0x2F8B6829, 0x82F63B78, 0x709DB87B, 0x63CD4B8F, 0x91A6C88C,
     0x456CAC67, 0xB7072F64, 0xA457DC90, 0x563C5F93, 0x082F63B7, 0xFA44E0B4,
     0xE9141340, 0x1B7F9043, 0xCFB5F4A8, 0x3DDE77AB, 0x2E8E845F, 0xDCE5075C,
     0x92A8FC17, 0x60C37F14, 0x73938CE0, 0x81F80FE3, 0x55326B08, 0xA759E80B,
     0xB4091BFF, 0x466298FC, 0x1871A4D8, 0xEA1A27DB, 0xF94AD42F, 0x0B21572C,
     0xDFEB33C7, 0x2D80B0C4, 0x3ED04330, 0xCCBBC033, 0xA24BB5A6, 0x502036A5,
     0x4370C551, 0xB11B4652, 0x65D122B9, 0x97BAA1BA, 0x84EA524E, 0x7681D14D,
     0x2892ED69, 0xDAF96E6A, 0xC9A99D9E, 0x3BC21E9D, 0xEF087A76, 0x1D63F975,
     0x0E330A81, 0xFC588982, 0xB21572C9, 0x407EF1CA, 0x532E023E, 0xA145813D,
     0x758FE5D6, 0x87E466D5, 0x94B49521, 0x66DF1622, 0x38CC2A06, 0xCAA7A905,
     0xD9F75AF1, 0x2B9CD9F2, 0xFF56BD19, 0x0D3D3E1A, 0x1E6DCDEE, 0xEC064EED,
     0xC38D26C4, 0x31E6A5C7, 0x22B65633, 0xD0DDD530, 0x0417B1DB, 0xF67C32D8,
     0xE52CC12C, 0x1747422F, 0x49547E0B, 0xBB3FFD08, 0xA86F0EFC, 0x5A048DFF,
     0x8ECEE914, 0x7CA56A17, 0x6FF599E3, 0x9D9E1AE0, 0xD3D3E1AB, 0x21B862A8,
     0x32E8915C, 0xC083125F, 0x144976B4, 0xE622F5B7, 0xF5720643, 0x07198540,
     0x590AB964, 0xAB613A67, 0xB831C993, 0x4A5A4A90, 0x9E902E7B, 0x6CFBAD78,
     0x7FAB5E8C, 0x8DC0DD8F, 0xE330A81A, 0x115B2B19, 0x020BD8ED, 0xF0605BEE,
     0x24AA3F05, 0xD6C1BC06, 0xC5914FF2, 0x37FACCF1, 0x69E9F0D5, 0x9B8273D6,
     0x88D28022, 0x7AB90321, 0xAE7367CA, 0x5C18E4C9, 0x4F48173D, 0xBD23943E,
     0xF36E6F75, 0x0105EC76, 0x12551F82, 0xE03E9C81, 0x34F4F86A, 0xC69F7B69,
     0xD5CF889D, 0x27A40B9E, 0x79B737BA, 0x8BDCB4B9, 0x988C474D, 0x6AE7C44E,
     0xBE2DA0A5, 0x4C4623A6, 0x5F16D052, 0xAD7D5351]"

definition crc_update :: "32 word \<Rightarrow> 8 word \<Rightarrow> 32 word" where
  "crc_update crc b = crc32c_table ! unat ((crc XOR ucast b) AND 0xFF) XOR drop_bit 8 crc"

definition segdiskCrc32c :: "8 word list \<Rightarrow> 32 word" where
  "segdiskCrc32c buf = NOT (fold (\<lambda>b crc. crc_update crc b) buf (NOT 0))"

section \<open>The bitwise definition\<close>

text \<open>One step of the shift register with the reflected Castagnoli polynomial.\<close>

definition crc_step :: "32 word \<Rightarrow> 32 word" where
  "crc_step x = (if bit x 0 then drop_bit 1 x XOR 0x82F63B78 else drop_bit 1 x)"

definition crc_ref :: "8 word list \<Rightarrow> 32 word" where
  "crc_ref buf = NOT (fold (\<lambda>b crc. (crc_step ^^ 8) (crc XOR ucast b)) buf (NOT 0))"

section \<open>Facts\<close>

lemma funpow_8: "(f ^^ 8) x = f (f (f (f (f (f (f (f x)))))))"
  by (simp add: eval_nat_numeral)

text \<open>Evaluation rules for literals, so that the table is checked entry by entry.\<close>

definition crc_tab :: "nat \<Rightarrow> 32 word" where
  "crc_tab i = (crc_step ^^ 8) (of_nat i)"

lemma crc_step_literal:
  "crc_step 0 = 0" "crc_step 1 = 0x82F63B78"
  "crc_step (numeral n) = (if bit (numeral n :: 32 word) 0 then drop_bit 1 (numeral n) XOR 0x82F63B78
     else drop_bit 1 (numeral n))"
  by (simp_all add: crc_step_def)

lemma crc_tab_literal:
  "crc_tab 0 = (crc_step (crc_step (crc_step (crc_step (crc_step (crc_step (crc_step (crc_step 0))))))))"
  "crc_tab (Suc 0) = (crc_step (crc_step (crc_step (crc_step (crc_step (crc_step (crc_step (crc_step 1))))))))"
  "crc_tab (numeral n) =
     (crc_step (crc_step (crc_step (crc_step (crc_step (crc_step (crc_step (crc_step (numeral n)))))))))"
  by (simp_all add: crc_tab_def funpow_8)

lemma crc_table_bitwise: "map crc_tab [0..<256] = crc32c_table"
proof -
  have "[0..<256] = 0 # Suc 0 # [2..<256]"
    by (simp add: upt_conv_Cons numeral_2_eq_2)
  then show ?thesis
    by (simp add: crc_tab_literal crc_step_literal crc32c_table_def)
qed

lemma crc_step_xor: "crc_step (a XOR b) = crc_step a XOR crc_step b"
  by (simp add: crc_step_def bit_xor_iff ac_simps)

lemma crc_steps_xor: "(crc_step ^^ n) (a XOR b) = (crc_step ^^ n) a XOR (crc_step ^^ n) b"
  by (induction n) (simp_all add: crc_step_xor)

lemma crc_steps_low_zero: "\<forall>i < n. \<not> bit x i \<Longrightarrow> (crc_step ^^ n) x = drop_bit n x"
proof (induction n arbitrary: x)
  case (Suc n)
  have "crc_step x = drop_bit 1 x"
    using Suc.prems by (simp add: crc_step_def)
  moreover have "\<forall>i < n. \<not> bit (drop_bit 1 x) i"
    using Suc.prems by (simp add: bit_drop_bit_eq)
  ultimately show ?case
    using Suc.IH [of "drop_bit 1 x"] by (simp add: funpow_swap1)
qed simp

lemma crc_update_bitwise: "crc_update crc b = (crc_step ^^ 8) (crc XOR ucast b)"
proof -
  let ?x = "crc XOR ucast b"
  have split: "?x = (?x AND 0xFF) XOR (?x AND NOT 0xFF)"
    by (rule bit_word_eqI) (auto simp: bit_simps)
  have mask: "(0xFF :: 32 word) = mask 8"
    by (simp add: mask_eq_exp_minus_1)
  have lt: "unat (?x AND 0xFF) < 256"
    using and_mask_less' [of 8 ?x] by (simp add: mask word_less_nat_alt)
  have tab: "crc32c_table ! unat (?x AND 0xFF) = (crc_step ^^ 8) (?x AND 0xFF)"
    using lt by (simp add: crc_table_bitwise [symmetric] crc_tab_def)
  have "(crc_step ^^ 8) (?x AND NOT 0xFF) = drop_bit 8 (?x AND NOT 0xFF)"
    by (rule crc_steps_low_zero) (simp add: mask bit_simps)
  also have "\<dots> = drop_bit 8 crc"
    by (rule bit_word_eqI) (auto simp: mask bit_simps dest: bit_imp_le_length)
  finally have "(crc_step ^^ 8) ?x = (crc_step ^^ 8) (?x AND 0xFF) XOR drop_bit 8 crc"
    by (subst split) (simp add: crc_steps_xor)
  then show ?thesis
    by (simp add: crc_update_def tab)
qed

lemma xor_cancel: "(a :: 32 word) XOR c = b XOR c \<Longrightarrow> a = b"
  by (metis xor.assoc xor_self_eq xor.right_neutral)

lemma xor_cancel_left: "(c :: 32 word) XOR a = c XOR b \<Longrightarrow> a = b"
  using xor_cancel [of a c b] by (simp only: xor.commute)

lemma crc_step_inj: "crc_step x = crc_step y \<Longrightarrow> x = y"
proof -
  assume eq: "crc_step x = crc_step y"
  have top: "bit (crc_step z) 31 = bit z 0" for z
    using bit_imp_le_length [of z 32] by (auto simp: crc_step_def bit_simps)
  have low: "bit x 0 = bit y 0"
    using top [of x] top [of y] eq by simp
  then have "drop_bit 1 x = drop_bit 1 y"
    using eq by (cases "bit y 0") (auto simp: crc_step_def dest: xor_cancel)
  then have "bit x (Suc n) = bit y (Suc n)" for n
    by (metis bit_drop_bit_eq comp_apply plus_1_eq_Suc)
  with low show "x = y"
    by (intro bit_word_eqI) (metis not0_implies_Suc)
qed

lemma crc_steps_inj: "(crc_step ^^ n) x = (crc_step ^^ n) y \<Longrightarrow> x = y"
  by (induction n) (auto dest: crc_step_inj)

lemma crc_update_inj: "crc_update c a = crc_update d a \<Longrightarrow> c = d"
  unfolding crc_update_bitwise by (drule crc_steps_inj) (rule xor_cancel)

lemma crc_update_byte_inj: "crc_update c a = crc_update c b \<Longrightarrow> a = b"
proof -
  assume "crc_update c a = crc_update c b"
  then have "c XOR ucast a = c XOR ucast b"
    unfolding crc_update_bitwise by (rule crc_steps_inj)
  then have "(ucast a :: 32 word) = ucast b"
    by (simp add: xor.commute [of c] xor_cancel)
  then have eq: "bit (ucast a :: 32 word) n = bit (ucast b :: 32 word) n" for n
    by simp
  show "a = b"
  proof (rule bit_word_eqI)
    fix n
    assume "n < LENGTH(8)"
    then show "bit a n = bit b n"
      using eq [of n] by (simp add: bit_simps)
  qed
qed

lemma crc_fold_inj:
  "fold (\<lambda>b crc. crc_update crc b) ys c = fold (\<lambda>b crc. crc_update crc b) ys d \<Longrightarrow> c = d"
  by (induction ys arbitrary: c d) (auto dest!: crc_update_inj)

lemma crc_distinguishes: "segdiskCrc32c (xs @ a # ys) = segdiskCrc32c (xs @ b # ys) \<longleftrightarrow> a = b"
proof
  assume "segdiskCrc32c (xs @ a # ys) = segdiskCrc32c (xs @ b # ys)"
  then have "fold (\<lambda>b crc. crc_update crc b) ys (crc_update (fold (\<lambda>b crc. crc_update crc b) xs (NOT 0)) a)
      = fold (\<lambda>b crc. crc_update crc b) ys (crc_update (fold (\<lambda>b crc. crc_update crc b) xs (NOT 0)) b)"
    by (simp add: segdiskCrc32c_def)
  then show "a = b"
    by (blast dest: crc_fold_inj crc_update_byte_inj)
qed simp

text \<open>
  Up to four bytes are shifted into the register together: processing them is the same as
  adding them as one word and shifting that many bits. So a change of up to four
  consecutive bytes is always noticed.
\<close>

primrec reg_word :: "8 word list \<Rightarrow> 32 word" where
  "reg_word [] = 0"
| "reg_word (b # bs) = ucast b XOR push_bit 8 (reg_word bs)"

lemma reg_word_bits: "bit (reg_word bs) i \<Longrightarrow> i < 8 * length bs"
proof (induction bs arbitrary: i)
  case (Cons b bs)
  then show ?case
    by (cases "i < 8") (auto simp: bit_simps dest!: Cons.IH dest: bit_imp_le_length)
qed simp

lemma reg_word_drop:
  assumes "length bs \<le> 3"
  shows "drop_bit 8 (push_bit 8 (reg_word bs)) = reg_word bs"
proof (rule bit_word_eqI)
  fix i
  have "bit (reg_word bs) i \<Longrightarrow> i < 24"
    using reg_word_bits [of bs i] assms by simp
  then show "bit (drop_bit 8 (push_bit 8 (reg_word bs))) i = bit (reg_word bs) i"
    by (auto simp: bit_simps)
qed

lemma crc_fold_word:
  "length bs \<le> 4 \<Longrightarrow> fold (\<lambda>b crc. crc_update crc b) bs c = (crc_step ^^ (8 * length bs)) (c XOR reg_word bs)"
proof (induction bs arbitrary: c)
  case (Cons b bs)
  have "(crc_step ^^ 8) (push_bit 8 (reg_word bs)) = reg_word bs"
    using reg_word_drop [of bs] Cons.prems by (subst crc_steps_low_zero) (simp_all add: bit_simps)
  then have "(crc_step ^^ 8) (c XOR ucast b XOR push_bit 8 (reg_word bs)) = crc_update c b XOR reg_word bs"
    by (simp add: crc_steps_xor crc_update_bitwise xor.assoc)
  then have "(crc_step ^^ (8 * length bs + 8)) (c XOR reg_word (b # bs)) = (crc_step ^^ (8 * length bs)) (crc_update c b XOR reg_word bs)"
    by (simp add: funpow_add xor.assoc)
  moreover have "8 * length (b # bs) = 8 * length bs + 8"
    by simp
  ultimately show ?case
    using Cons.IH [of "crc_update c b"] Cons.prems by (simp add: add.commute del: reg_word.simps)
qed simp

lemma reg_word_low: "i < 8 \<Longrightarrow> bit (reg_word (b # bs)) i = bit b i"
  by (simp add: bit_simps)

lemma reg_word_inj: "length as = length bs \<Longrightarrow> length bs \<le> 4 \<Longrightarrow> reg_word as = reg_word bs \<Longrightarrow> as = bs"
proof (induction as bs rule: list_induct2)
  case (Cons a as b bs)
  have "a = b"
  proof (rule bit_word_eqI)
    fix i
    assume "i < LENGTH(8)"
    then have "i < 8"
      by simp
    then show "bit a i = bit b i"
      using reg_word_low [of i a as] reg_word_low [of i b bs] Cons.prems(2) by metis
  qed
  have "push_bit 8 (reg_word as) = push_bit 8 (reg_word bs)"
    using Cons.prems(2) unfolding \<open>a = b\<close> reg_word.simps by (rule xor_cancel_left)
  then have d: "drop_bit 8 (push_bit 8 (reg_word as)) = drop_bit 8 (push_bit 8 (reg_word bs))"
    by (rule arg_cong)
  have "length bs \<le> 3" "length as \<le> 3"
    using Cons.hyps Cons.prems(1) by simp_all
  then have "reg_word as = reg_word bs"
    using d unfolding reg_word_drop [OF \<open>length as \<le> 3\<close>] reg_word_drop [OF \<open>length bs \<le> 3\<close>] by blast
  then show ?case
    using Cons.IH \<open>length bs \<le> 3\<close> \<open>a = b\<close> by simp
qed simp

lemma crc_distinguishes_burst:
  assumes "length as = length bs" "length bs \<le> 4"
  shows "segdiskCrc32c (xs @ as @ ys) = segdiskCrc32c (xs @ bs @ ys) \<longleftrightarrow> as = bs"
proof
  let ?f = "fold (\<lambda>b crc. crc_update crc b)"
  let ?c = "?f xs (NOT 0)"
  assume "segdiskCrc32c (xs @ as @ ys) = segdiskCrc32c (xs @ bs @ ys)"
  then have "?f ys (?f as ?c) = ?f ys (?f bs ?c)"
    by (simp add: segdiskCrc32c_def)
  then have "?f as ?c = ?f bs ?c"
    by (rule crc_fold_inj)
  then have "(crc_step ^^ (8 * length bs)) (?c XOR reg_word as) = (crc_step ^^ (8 * length bs)) (?c XOR reg_word bs)"
    unfolding crc_fold_word [OF assms(2)] crc_fold_word [of as, unfolded assms(1), OF assms(2)] .
  then have "reg_word as = reg_word bs"
    by (rule xor_cancel_left [OF crc_steps_inj])
  then show "as = bs"
    by (rule reg_word_inj [OF assms])
qed simp

section \<open>Properties\<close>

text \<open>
  C23: The table-driven checksum is the CRC-32C: on every buffer it equals the bit-by-bit
  computation with the Castagnoli polynomial.
\<close>

theorem segdiskCrc32c_bitwise: "segdiskCrc32c buf = crc_ref buf"
  by (simp add: segdiskCrc32c_def crc_ref_def crc_update_bitwise)

text \<open>
  A changed byte never goes unnoticed: two buffers that agree everywhere but in one byte
  have different checksums.
\<close>

theorem crc_detects_byte_change:
  "segdiskCrc32c (xs @ a # ys) = segdiskCrc32c (xs @ b # ys) \<longleftrightarrow> a = b"
  by (rule crc_distinguishes)

end
