(* ===== verification/Segdisk_State.thy ===== *)
theory Segdisk_State
imports Segdisk_Bytes Segdisk_Crc
begin

text \<open>
  The durable state slots of the segmented disk queue (\<^verbatim>\<open>runtime/segdisk_state.c\<close>): a
  256-byte slot with a magic text, versions, the queue's counters and a checksum, written
  alternately to two places, and the selection of the newer valid slot at startup. Signed
  64-bit counters are kept as the 64-bit words the code stores.
\<close>

section \<open>Data\<close>

definition SEGDISK_STATE_STORE_VERSION :: "16 word" where "SEGDISK_STATE_STORE_VERSION = 2"
definition SEGDISK_CODEC_VERSION :: "16 word" where "SEGDISK_CODEC_VERSION = 1"
definition SEGDISK_STATE_SLOT_LEN :: nat where "SEGDISK_STATE_SLOT_LEN = 256"

definition STATE_MAGIC :: "byte list" where
  "STATE_MAGIC = map byte_of_char ''RSSEGST2''"

record segdisk_state_image =
  uuid :: "byte list"
  generation :: "64 word"
  flags :: "32 word"
  committed_segment :: "64 word"
  committed_offset :: "64 word"
  committed_record_sequence :: "64 word"
  first_live_segment :: "64 word"
  last_data_segment :: "64 word"
  active_segment :: "64 word"
  recovery_first :: "64 word"
  recovery_last :: "64 word"
  next_segment :: "64 word"
  known_queue_size :: "64 word"
  bytes :: "64 word"
  segments :: "64 word"
  writer_segment :: "64 word"
  writer_end :: "64 word"
  writer_sequence :: "64 word"
  writer_count :: "64 word"
  delete_first :: "64 word"
  delete_last :: "64 word"
  delete_bytes :: "64 word"
  delete_segments :: "64 word"

section \<open>Encoding and decoding\<close>

definition state_body :: "segdisk_state_image \<Rightarrow> 64 word \<Rightarrow> byte list" where
  "state_body s gen =
    (let b = replicate SEGDISK_STATE_SLOT_LEN 0;
       b = bput b 0 STATE_MAGIC;
       b = bput b 8 (put16 SEGDISK_STATE_STORE_VERSION);
       b = bput b 10 (put16 SEGDISK_CODEC_VERSION);
       b = bput b 12 (uuid s);
       b = bput b 28 (put64 gen);
       b = bput b 36 (put32 (flags s));
       b = bput b 40 (put64 (committed_segment s));
       b = bput b 48 (put64 (committed_offset s));
       b = bput b 56 (put64 (committed_record_sequence s));
       b = bput b 64 (put64 (first_live_segment s));
       b = bput b 72 (put64 (last_data_segment s));
       b = bput b 80 (put64 (active_segment s));
       b = bput b 88 (put64 (recovery_first s));
       b = bput b 96 (put64 (recovery_last s));
       b = bput b 104 (put64 (next_segment s));
       b = bput b 112 (put64 (known_queue_size s));
       b = bput b 120 (put64 (bytes s));
       b = bput b 128 (put64 (segments s));
       b = bput b 136 (put64 (writer_segment s));
       b = bput b 144 (put64 (writer_end s));
       b = bput b 152 (put64 (writer_sequence s));
       b = bput b 160 (put64 (writer_count s));
       b = bput b 168 (put64 (delete_first s));
       b = bput b 176 (put64 (delete_last s));
       b = bput b 184 (put64 (delete_bytes s));
       b = bput b 192 (put64 (delete_segments s))
     in b)"

definition segdiskStateEncode :: "segdisk_state_image \<Rightarrow> 64 word \<Rightarrow> byte list" where
  "segdiskStateEncode s gen =
     (let b = state_body s gen
      in bput b (SEGDISK_STATE_SLOT_LEN - 4) (put32 (segdiskCrc32c (take (SEGDISK_STATE_SLOT_LEN - 4) b))))"

definition segdiskStateValidate :: "byte list \<Rightarrow> bool" where
  "segdiskStateValidate b \<longleftrightarrow> bget 8 0 b = STATE_MAGIC \<and> get16 (drop 8 b) = SEGDISK_STATE_STORE_VERSION
     \<and> get16 (drop 10 b) = SEGDISK_CODEC_VERSION
     \<and> get32 (drop (SEGDISK_STATE_SLOT_LEN - 4) b) = segdiskCrc32c (take (SEGDISK_STATE_SLOT_LEN - 4) b)"

definition segdiskStateDecode :: "byte list \<Rightarrow> segdisk_state_image" where
  "segdiskStateDecode b =
     \<lparr> uuid = bget 16 12 b, generation = get64 (drop 28 b), flags = get32 (drop 36 b),
       committed_segment = get64 (drop 40 b),
       committed_offset = get64 (drop 48 b),
       committed_record_sequence = get64 (drop 56 b),
       first_live_segment = get64 (drop 64 b),
       last_data_segment = get64 (drop 72 b),
       active_segment = get64 (drop 80 b),
       recovery_first = get64 (drop 88 b),
       recovery_last = get64 (drop 96 b),
       next_segment = get64 (drop 104 b),
       known_queue_size = get64 (drop 112 b),
       bytes = get64 (drop 120 b),
       segments = get64 (drop 128 b),
       writer_segment = get64 (drop 136 b),
       writer_end = get64 (drop 144 b),
       writer_sequence = get64 (drop 152 b),
       writer_count = get64 (drop 160 b),
       delete_first = get64 (drop 168 b),
       delete_last = get64 (drop 176 b),
       delete_bytes = get64 (drop 184 b),
       delete_segments = get64 (drop 192 b) \<rparr>"

definition segdiskStateGenerationNewer :: "64 word \<Rightarrow> 64 word \<Rightarrow> bool" where
  "segdiskStateGenerationNewer candidate reference =
     (if candidate = reference then False
      else let distance = (if candidate > reference then candidate - reference
                           else 0xFFFFFFFFFFFFFFFF - reference + candidate + 1)
           in distance < 0x8000000000000000)"

text \<open>The result is the decoded state with the number of the slot it came from.\<close>

definition segdiskStateSelect ::
    "byte list \<Rightarrow> bool \<Rightarrow> byte list \<Rightarrow> bool \<Rightarrow> rsRetVal + (segdisk_state_image \<times> nat)" where
  "segdiskStateSelect slot0 present0 slot1 present1 =
     (let valid0 = (present0 \<and> segdiskStateValidate slot0);
          valid1 = (present1 \<and> segdiskStateValidate slot1);
          generation0 = get64 (drop 28 slot0); generation1 = get64 (drop 28 slot1)
      in if \<not> valid0 \<and> \<not> valid1 then Inl RS_RET_INVALID_VALUE
         else if valid0 \<and> valid1 \<and> bget 16 12 slot0 \<noteq> bget 16 12 slot1 then Inl RS_RET_INVALID_VALUE
         else if valid0 \<and> valid1 \<and> generation0 \<noteq> generation1
           \<and> \<not> segdiskStateGenerationNewer generation0 generation1
           \<and> \<not> segdiskStateGenerationNewer generation1 generation0 then Inl RS_RET_INVALID_VALUE
         else let selected = (if valid1 \<and> (\<not> valid0 \<or> segdiskStateGenerationNewer generation1 generation0)
                              then 1 else 0)
              in Inr (segdiskStateDecode (if selected = 0 then slot0 else slot1), selected))"

section \<open>Facts\<close>

definition state_writes :: "segdisk_state_image \<Rightarrow> 64 word \<Rightarrow> (nat \<times> byte list) list" where
  "state_writes s gen =
    [(0, STATE_MAGIC), (8, put16 SEGDISK_STATE_STORE_VERSION), (10, put16 SEGDISK_CODEC_VERSION), (12, uuid s),
     (28, put64 gen), (36, put32 (flags s)),
     (40, put64 (committed_segment s)),
     (48, put64 (committed_offset s)),
     (56, put64 (committed_record_sequence s)),
     (64, put64 (first_live_segment s)),
     (72, put64 (last_data_segment s)),
     (80, put64 (active_segment s)),
     (88, put64 (recovery_first s)),
     (96, put64 (recovery_last s)),
     (104, put64 (next_segment s)),
     (112, put64 (known_queue_size s)),
     (120, put64 (bytes s)),
     (128, put64 (segments s)),
     (136, put64 (writer_segment s)),
     (144, put64 (writer_end s)),
     (152, put64 (writer_sequence s)),
     (160, put64 (writer_count s)),
     (168, put64 (delete_first s)),
     (176, put64 (delete_last s)),
     (184, put64 (delete_bytes s)),
     (192, put64 (delete_segments s))]"

lemma state_body_writes: "state_body s gen = run_writes (state_writes s gen) (replicate SEGDISK_STATE_SLOT_LEN 0)"
  by (simp add: state_body_def state_writes_def Let_def)

lemma encode_writes:
  "\<exists>crc. segdiskStateEncode s gen
     = run_writes (state_writes s gen @ [(252, put32 crc)]) (replicate SEGDISK_STATE_SLOT_LEN 0)
     \<and> crc = segdiskCrc32c (take 252 (state_body s gen))"
  by (simp add: segdiskStateEncode_def Let_def state_body_writes SEGDISK_STATE_SLOT_LEN_def)

lemma length_magic [simp]: "length STATE_MAGIC = 8"
  by (simp add: STATE_MAGIC_def)

lemma state_writes_ok:
  assumes "length (uuid s) = 16"
  shows "ascending (state_writes s gen @ [(252, put32 crc)])"
    "\<forall>w \<in> set (state_writes s gen @ [(252, put32 crc)]). fst w + length (snd w) \<le> 256"
  using assms by (simp_all add: ascending_def state_writes_def)

lemma encode_get:
  assumes "length (uuid s) = 16" "(off, xs) \<in> set (state_writes s gen)" "n = length xs"
  shows "bget n off (segdiskStateEncode s gen) = xs"
proof -
  obtain crc where "segdiskStateEncode s gen
      = run_writes (state_writes s gen @ [(252, put32 crc)]) (replicate SEGDISK_STATE_SLOT_LEN 0)"
    using encode_writes by blast
  then show ?thesis
    using run_writes_get [OF state_writes_ok(1) [OF assms(1), of gen crc], of "replicate SEGDISK_STATE_SLOT_LEN 0" off xs]
      state_writes_ok(2) [OF assms(1), of gen crc] assms(2,3)
    by (simp add: SEGDISK_STATE_SLOT_LEN_def)
qed

lemma length_state_body [simp]: "length (uuid s) = 16 \<Longrightarrow> length (state_body s gen) = 256"
  using length_run_writes [of "state_writes s gen" "replicate SEGDISK_STATE_SLOT_LEN 0"]
    state_writes_ok(2) [of s gen 0]
  by (simp add: state_body_writes SEGDISK_STATE_SLOT_LEN_def)

lemma length_encode [simp]: "length (uuid s) = 16 \<Longrightarrow> length (segdiskStateEncode s gen) = 256"
  by (simp add: segdiskStateEncode_def Let_def SEGDISK_STATE_SLOT_LEN_def)

lemma encode_crc:
  assumes "length (uuid s) = 16"
  shows "take 252 (segdiskStateEncode s gen) = take 252 (state_body s gen)"
    "bget 4 252 (segdiskStateEncode s gen) = put32 (segdiskCrc32c (take 252 (segdiskStateEncode s gen)))"
proof -
  show eq: "take 252 (segdiskStateEncode s gen) = take 252 (state_body s gen)"
    using assms by (simp add: segdiskStateEncode_def Let_def SEGDISK_STATE_SLOT_LEN_def bput_def)
  show "bget 4 252 (segdiskStateEncode s gen) = put32 (segdiskCrc32c (take 252 (segdiskStateEncode s gen)))"
    unfolding eq using assms
    by (simp add: segdiskStateEncode_def Let_def SEGDISK_STATE_SLOT_LEN_def bget_bput_same)
qed

lemma encode_valid:
  assumes "length (uuid s) = 16"
  shows "segdiskStateValidate (segdiskStateEncode s gen)"
proof -
  have "bget 8 0 (segdiskStateEncode s gen) = STATE_MAGIC"
    "bget 2 8 (segdiskStateEncode s gen) = put16 SEGDISK_STATE_STORE_VERSION"
    "bget 2 10 (segdiskStateEncode s gen) = put16 SEGDISK_CODEC_VERSION"
    by (rule encode_get [OF assms]; simp add: state_writes_def)+
  then show ?thesis
    using encode_crc(2) [OF assms, of gen]
    by (simp add: segdiskStateValidate_def get16_at get32_at SEGDISK_STATE_SLOT_LEN_def)
qed

lemma decode_encode:
  assumes "length (uuid s) = 16"
  shows "segdiskStateDecode (segdiskStateEncode s gen) = s \<lparr> generation := gen \<rparr>"
proof -
  have w64: "get64 (drop off (segdiskStateEncode s gen)) = v" if "(off, put64 v) \<in> set (state_writes s gen)" for off v
    using that by (intro get64_at encode_get [OF assms]) simp_all
  have w32: "get32 (drop off (segdiskStateEncode s gen)) = v" if "(off, put32 v) \<in> set (state_writes s gen)" for off v
    using that by (intro get32_at encode_get [OF assms]) simp_all
  have u: "bget 16 12 (segdiskStateEncode s gen) = uuid s"
    by (rule encode_get [OF assms]) (simp_all add: state_writes_def assms)
  show ?thesis
    unfolding segdiskStateDecode_def u by (simp add: w64 w32 state_writes_def)
qed

text \<open>
  Damage to a slot that was written: up to four consecutive bytes in front of the checksum, or
  any bytes of the checksum, differ from what was written.
\<close>

definition slot_damage :: "byte list \<Rightarrow> byte list \<Rightarrow> bool" where
  "slot_damage b d \<longleftrightarrow> (\<exists>pre new old post. b = pre @ old @ post \<and> d = pre @ new @ post \<and> length new = length old \<and> new \<noteq> old
     \<and> (length (pre @ old) \<le> 252 \<and> length old \<le> 4 \<or> 252 \<le> length pre))"

lemma get32_inj: "length p = 4 \<Longrightarrow> length q = 4 \<Longrightarrow> get32 p = get32 q \<Longrightarrow> p = q"
  using put32_get32 [of p] put32_get32 [of q] by (metis le_refl take_all_iff)

lemma damaged_slot_invalid:
  assumes "length b = 256" "segdiskStateValidate b" "slot_damage b d"
  shows "\<not> segdiskStateValidate d"
proof
  assume "segdiskStateValidate d"
  then have v: "get32 (drop 252 d) = segdiskCrc32c (take 252 d)" "get32 (drop 252 b) = segdiskCrc32c (take 252 b)"
    using assms(2) by (simp_all add: segdiskStateValidate_def SEGDISK_STATE_SLOT_LEN_def)
  obtain pre new old post where d: "b = pre @ old @ post" "d = pre @ new @ post" "length new = length old" "new \<noteq> old"
      "length (pre @ old) \<le> 252 \<and> length old \<le> 4 \<or> 252 \<le> length pre"
    using assms(3) unfolding slot_damage_def by blast
  from d(5) show False
  proof
    assume w: "length (pre @ old) \<le> 252 \<and> length old \<le> 4"
    let ?p = "take (252 - length (pre @ old)) post"
    have "length old \<le> 252 - length pre"
      using w unfolding length_append by linarith
    then have "drop 252 d = drop 252 b" "take 252 d = pre @ new @ ?p" "take 252 b = pre @ old @ ?p"
      using w d(1-3) by simp_all
    then show False
      using v crc_distinguishes_burst [OF d(3), of pre ?p] w d(4) by simp
  next
    assume w: "252 \<le> length pre"
    then have "take 252 d = take 252 b" "drop 252 b = drop 252 pre @ old @ post" "drop 252 d = drop 252 pre @ new @ post"
      using d(1,2) by simp_all
    moreover from this have "get32 (drop 252 d) = get32 (drop 252 b)"
      using v by simp
    moreover have "length (drop 252 d) = 4" "length (drop 252 b) = 4"
      using assms(1) d(1-3) by simp_all
    ultimately show False
      using get32_inj [of "drop 252 d" "drop 252 b"] d(4) by simp
  qed
qed

text \<open>The distance computation of the code is subtraction modulo the word size.\<close>

lemma newer_iff:
  "segdiskStateGenerationNewer c r \<longleftrightarrow> c \<noteq> r \<and> c - r < 0x8000000000000000"
proof -
  have max: "(0xFFFFFFFFFFFFFFFF :: 64 word) = - 1"
    by simp
  have eq: "0xFFFFFFFFFFFFFFFF - r + c + 1 = c - r" for c r :: "64 word"
    unfolding max by simp
  show ?thesis
    unfolding segdiskStateGenerationNewer_def Let_def eq if_cancel by (cases "c = r") (simp_all only: simp_thms if_True if_False)
qed

lemma newer_swap: "c \<noteq> r \<Longrightarrow> c - r \<noteq> 0x8000000000000000 \<Longrightarrow>
    (c - r < 0x8000000000000000 \<longleftrightarrow> \<not> r - c < (0x8000000000000000 :: 64 word))"
proof -
  assume ne: "c \<noteq> r" "c - r \<noteq> 0x8000000000000000"
  define d where "d = c - r"
  have d: "d \<noteq> 0" "d \<noteq> 0x8000000000000000" "r - c = - d"
    using ne by (simp_all add: d_def)
  have "uint (- d) = 2 ^ 64 - uint d"
    using d(1) uint_lt2p [of d] by (simp add: uint_word_ariths zmod_zminus1_eq_if uint_0_iff)
  then have "(d < 0x8000000000000000) = (\<not> - d < 0x8000000000000000)"
    using d(2) by (simp add: word_less_def word_uint_eq_iff) arith
  then show ?thesis
    by (simp add: d(3) d_def [symmetric])
qed

section \<open>Properties\<close>

text \<open>
  C21: The state codec is exact: a slot written for a state with a 16-byte identifier is
  valid, and decoding it gives every field back, with the generation it was written under.
\<close>

theorem state_roundtrip:
  assumes "length (uuid s) = 16"
  shows "segdiskStateValidate (segdiskStateEncode s gen)
    \<and> segdiskStateDecode (segdiskStateEncode s gen) = s \<lparr> generation := gen \<rparr>"
  using encode_valid [OF assms] decode_encode [OF assms] by blast

definition demo_state :: segdisk_state_image where
  "demo_state = (segdiskStateDecode (replicate 256 0)) \<lparr> uuid := replicate 16 7, next_segment := 5 \<rparr>"

lemma demo_state_uuid: "length (uuid demo_state) = 16"
  by (simp add: demo_state_def)

theorem state_roundtrip_witness:
  "segdiskStateValidate (segdiskStateEncode demo_state 3)
   \<and> segdiskStateDecode (segdiskStateEncode demo_state 3) = demo_state \<lparr> generation := 3 \<rparr>"
  by (rule state_roundtrip [OF demo_state_uuid])

text \<open>
  C22: Startup survives a bad slot. When one slot holds a written state and the other one is not
  there, or does not validate, for instance because a write was torn, the selection returns
  the state of the intact slot, whichever of the two it is. Damage to a written slot within four
  consecutive bytes in front of the checksum, or within the checksum, always has this effect;
  other damage has it when the checksum does not happen to match.
\<close>

theorem select_survives_damage:
  assumes "length (uuid s) = 16" "length (uuid s') = 16"
    "present \<longrightarrow> \<not> segdiskStateValidate d \<or> slot_damage (segdiskStateEncode s' gen') d"
  shows "segdiskStateSelect (segdiskStateEncode s gen) True d present = Inr (s \<lparr> generation := gen \<rparr>, 0)
    \<and> segdiskStateSelect d present (segdiskStateEncode s gen) True = Inr (s \<lparr> generation := gen \<rparr>, 1)"
proof -
  have "\<not> (present \<and> segdiskStateValidate d)"
    using assms(3) damaged_slot_invalid [OF length_encode [OF assms(2)] encode_valid [OF assms(2)]] by blast
  then show ?thesis
    using encode_valid [OF assms(1), of gen] decode_encode [OF assms(1), of gen]
    by (auto simp: segdiskStateSelect_def)
qed

lemma split_three: "b = take i b @ take k (drop i b) @ drop (i + k) b"
  by (metis append_assoc append_take_drop_id take_add)

lemma map_NOT_changes: "(xs :: byte list) \<noteq> [] \<Longrightarrow> map NOT xs \<noteq> xs"
proof (cases xs)
  case (Cons x ys)
  have "NOT x \<noteq> x"
    by (metis bit_not_iff_eq bit_0 even_not_iff)
  then show ?thesis
    by (simp add: Cons)
qed simp

theorem select_survives_damage_witness:
  "\<exists>pre old post. segdiskStateEncode demo_state 4 = pre @ old @ post \<and> length pre = 40 \<and> length old = 4
    \<and> segdiskStateSelect (segdiskStateEncode demo_state 3) True (pre @ map NOT old @ post) True
      = Inr (demo_state \<lparr> generation := 3 \<rparr>, 0)"
proof -
  let ?b = "segdiskStateEncode demo_state 4"
  let ?pre = "take 40 ?b" and ?old = "take 4 (drop 40 ?b)" and ?post = "drop 44 ?b"
  have b: "?b = ?pre @ ?old @ ?post"
    using split_three [of ?b 40 4] by simp
  have l: "length ?pre = 40" "length ?old = 4"
    using length_encode [OF demo_state_uuid, of 4] by simp_all
  have "map NOT ?old \<noteq> ?old"
    using l(2) by (intro map_NOT_changes) auto
  then have "slot_damage ?b (?pre @ map NOT ?old @ ?post)"
    unfolding slot_damage_def using b l by (intro exI [of _ ?pre] exI [of _ "map NOT ?old"] exI [of _ ?old] exI [of _ ?post]) simp
  then show ?thesis
    using select_survives_damage [OF demo_state_uuid demo_state_uuid, of True "?pre @ map NOT ?old @ ?post" 4 3] b l by blast
qed

text \<open>
  Of two valid slots of the same queue the newer one is selected, also when the
  generation counter wraps around: the successor of any generation counts as newer.
\<close>

theorem select_newer:
  assumes "length (uuid s) = 16" "length (uuid s') = 16" "uuid s = uuid s'"
  shows "segdiskStateSelect (segdiskStateEncode s gen) True (segdiskStateEncode s' (gen + 1)) True
      = Inr (s' \<lparr> generation := gen + 1 \<rparr>, 1)
    \<and> segdiskStateSelect (segdiskStateEncode s' (gen + 1)) True (segdiskStateEncode s gen) True
      = Inr (s' \<lparr> generation := gen + 1 \<rparr>, 0)"
proof -
  have g: "get64 (drop 28 (segdiskStateEncode t k)) = k" "bget 16 12 (segdiskStateEncode t k) = uuid t"
    if "length (uuid t) = 16" for t k
    using decode_encode [OF that, of k] by (auto simp: segdiskStateDecode_def dest: arg_cong [of _ _ uuid]
        arg_cong [of _ _ generation])
  have newer: "segdiskStateGenerationNewer (gen + 1) gen" "\<not> segdiskStateGenerationNewer gen (gen + 1)"
    by (simp_all add: newer_iff)
  show ?thesis
    using g assms encode_valid decode_encode newer by (simp add: segdiskStateSelect_def)
qed

theorem select_newer_witness:
  "segdiskStateSelect (segdiskStateEncode demo_state (- 1)) True (segdiskStateEncode demo_state 0) True
    = Inr (demo_state \<lparr> generation := 0 \<rparr>, 1)"
  using select_newer [OF demo_state_uuid demo_state_uuid, of "- 1"] by simp

text \<open>
  For two different generations exactly one counts as newer than the other, except for
  generations exactly half the range apart, where neither does.
\<close>

theorem generation_newer_exclusive:
  "a \<noteq> b \<Longrightarrow> (segdiskStateGenerationNewer a b \<longleftrightarrow> \<not> segdiskStateGenerationNewer b a) \<longleftrightarrow> a - b \<noteq> 0x8000000000000000"
proof (cases "a - b = 0x8000000000000000")
  case True
  have "b - a = - (a - b)"
    by simp
  then have "b - a = 0x8000000000000000"
    unfolding True by simp
  with True show ?thesis
    by (simp add: newer_iff)
next
  case False
  then show "a \<noteq> b \<Longrightarrow> ?thesis"
    using newer_swap [of a b] by (auto simp: newer_iff)
qed

theorem generation_newer_exclusive_witness:
  "(segdiskStateGenerationNewer 1 0 \<longleftrightarrow> \<not> segdiskStateGenerationNewer 0 1) \<longleftrightarrow> (1 :: 64 word) - 0 \<noteq> 0x8000000000000000"
  by (rule generation_newer_exclusive) simp

end
