(* ===== verification/Datetime.thy ===== *)
theory Datetime
imports Rsyslog_Prelude
begin

text \<open>
  The timestamps of \<^verbatim>\<open>runtime/datetime.c\<close>: the structure \<^verbatim>\<open>syslogTime\<close>, the parsers for
  RFC 3339 and RFC 3164 timestamps and the routines that print a timestamp. The lemmas show
  that parsing reads inside the text it was given, that what it accepts is in range, and
  that printing followed by parsing gives the timestamp back.
\<close>

unbundle bit_operations_syntax

section \<open>Data\<close>

record syslogTime =
  timeType :: int
  month :: int
  day :: int
  wday :: int
  hour :: int
  minute :: int
  second :: int
  secfracPrecision :: int
  OffsetMinute :: int
  OffsetHour :: int
  OffsetMode :: char
  year :: int
  secfrac :: int
  inUTC :: int

record tzinfo =
  tz_id :: "char list"
  offsMode :: char
  offsHour :: int
  offsMin :: int

definition tenPowers :: "int list" where
  "tenPowers = [1, 10, 100, 1000, 10000, 100000]"

definition monthNames :: "char list list" where
  "monthNames = [''Jan'', ''Feb'', ''Mar'', ''Apr'', ''May'', ''Jun'',
     ''Jul'', ''Aug'', ''Sep'', ''Oct'', ''Nov'', ''Dec'']"

datatype dateTimeFormat_t = DATE_INVALID | DATE_RFC3164 | DATE_RFC3339 | DATE_UNIX

definition getDateTimeFormatFromStr :: "char list \<Rightarrow> dateTimeFormat_t" where
  "getDateTimeFormatFromStr s =
     (if s = ''date-rfc3164'' then DATE_RFC3164
      else if s = ''date-rfc3339'' then DATE_RFC3339
      else if s = ''date-unix'' then DATE_UNIX
      else DATE_INVALID)"

section \<open>Parsing\<close>

text \<open>
  A parse position is the rest of the text's object and \<^verbatim>\<open>lenStr\<close>, the number of bytes the
  parser believes to be left.
\<close>

type_synonym cursor = "char list \<times> int"

text \<open>The sum \<^verbatim>\<open>i * 10 + **ppsz\<close> is formed before \<^verbatim>\<open>'0'\<close> is subtracted.\<close>

fun srSLMGParseInt32_loop :: "int \<Rightarrow> char list \<Rightarrow> int \<Rightarrow> (int \<times> cursor) option" where
  "srSLMGParseInt32_loop i [] n = (if 0 < n then None else Some (i, [], n))"
| "srSLMGParseInt32_loop i (c # s) n =
     (if 0 < n \<and> isdigit c \<and> i < 2147483647 div 10 - 1
      then do { v \<leftarrow> ck_int (i * 10 + int (of_char c)); srSLMGParseInt32_loop (v - 48) s (n - 1) }
      else Some (i, c # s, n))"

definition srSLMGParseInt32 :: "cursor \<Rightarrow> (int \<times> cursor) res" where
  "srSLMGParseInt32 p = map_option Inr (srSLMGParseInt32_loop 0 (fst p) (snd p))"

abbreviation invld :: "'a res" where
  "invld \<equiv> abort RS_RET_INVLD_TIME"

text \<open>The recurring test \<^verbatim>\<open>if (lenStr == 0 || *pszTS++ != c) ABORT_FINALIZE(...); --lenStr;\<close>\<close>

definition skip_char :: "char \<Rightarrow> cursor \<Rightarrow> cursor res" where
  "skip_char c p = (if snd p = 0 then invld
     else case fst p of [] \<Rightarrow> None
       | x # s \<Rightarrow> if x \<noteq> c then invld else ret (s, snd p - 1))"

definition parse_secfrac :: "cursor \<Rightarrow> (int \<times> int \<times> cursor) res" where
  "parse_secfrac p =
     (if 0 < snd p
      then do {
        c \<leftarrow> deref (fst p);
        if c = CHR ''.''
        then rbind (srSLMGParseInt32 (tl (fst p), snd p - 1)) (\<lambda>(v, q).
               ret (v, int (length (tl (fst p))) - int (length (fst q)), q))
        else ret (0, 0, p) }
      else ret (0, 0, p))"

definition parse_offset :: "cursor \<Rightarrow> (char \<times> int \<times> int \<times> cursor) res" where
  "parse_offset p =
     (if snd p = 0 then invld
      else do {
        c \<leftarrow> deref (fst p);
        if c = CHR ''Z'' then ret (CHR ''Z'', 0, 0, tl (fst p), snd p - 1)
        else if c = CHR ''+'' \<or> c = CHR ''-''
        then rbind (srSLMGParseInt32 (tl (fst p), snd p - 1)) (\<lambda>(oh, q).
             if oh < 0 \<or> 23 < oh then invld
             else rbind (skip_char CHR '':'' q) (\<lambda>q.
             rbind (srSLMGParseInt32 q) (\<lambda>(om, q).
             if om < 0 \<or> 59 < om then invld else ret (c, oh, om, q))))
        else invld })"

definition expect_space :: "cursor \<Rightarrow> cursor res" where
  "expect_space p =
     (if 0 < snd p
      then do {
        c \<leftarrow> deref (fst p);
        if c \<noteq> CHR '' '' then invld else ret (tl (fst p), snd p - 1) }
      else ret p)"

definition ParseTIMESTAMP3339 :: "syslogTime \<Rightarrow> cursor \<Rightarrow> (syslogTime \<times> cursor) res" where
  "ParseTIMESTAMP3339 pTime p =
     rbind (srSLMGParseInt32 p) (\<lambda>(yr, p).
     rbind (skip_char CHR ''-'' p) (\<lambda>p.
     if yr < 0 \<or> 2100 \<le> yr then invld
     else rbind (srSLMGParseInt32 p) (\<lambda>(mon, p).
     if mon < 1 \<or> 12 < mon then invld
     else rbind (skip_char CHR ''-'' p) (\<lambda>p.
     rbind (srSLMGParseInt32 p) (\<lambda>(dy, p).
     if dy < 1 \<or> 31 < dy then invld
     else rbind (skip_char CHR ''T'' p) (\<lambda>p.
     rbind (srSLMGParseInt32 p) (\<lambda>(hr, p).
     if hr < 0 \<or> 23 < hr then invld
     else rbind (skip_char CHR '':'' p) (\<lambda>p.
     rbind (srSLMGParseInt32 p) (\<lambda>(mi, p).
     if mi < 0 \<or> 59 < mi then invld
     else rbind (skip_char CHR '':'' p) (\<lambda>p.
     rbind (srSLMGParseInt32 p) (\<lambda>(sec, p).
     if sec < 0 \<or> 60 < sec then invld
     else rbind (parse_secfrac p) (\<lambda>(frac, prec, p).
     rbind (parse_offset p) (\<lambda>(om, oh, omin, p).
     rbind (expect_space p) (\<lambda>p.
     ret (pTime \<lparr> timeType := 2, year := yr, month := mon, day := dy, hour := hr,
            minute := mi, second := sec, secfrac := frac, secfracPrecision := int8 prec,
            OffsetMode := om, OffsetHour := oh, OffsetMinute := omin \<rparr>, p)))))))))))))))"

text \<open>The nested switch on the letters of the month's name, in either case.\<close>

definition month_letter :: "(char list \<times> int) list \<Rightarrow> char list \<Rightarrow> (int \<times> char list) res" where
  "month_letter alts s = do {
     c \<leftarrow> deref s;
     case find (\<lambda>(x, m). c \<in> set x) alts of
       None \<Rightarrow> invld
     | Some (x, m) \<Rightarrow> ret (m, tl s) }"

definition parse_month :: "char list \<Rightarrow> (int \<times> char list) res" where
  "parse_month s = do {
     a \<leftarrow> deref s;
     if a \<in> set ''jJ'' then do {
       b \<leftarrow> deref (tl s);
       if b \<in> set ''aA'' then month_letter [(''nN'', 1)] (tl (tl s))
       else if b \<in> set ''uU'' then month_letter [(''nN'', 6), (''lL'', 7)] (tl (tl s))
       else invld }
     else if a \<in> set ''fF'' then do {
       b \<leftarrow> deref (tl s);
       if b \<in> set ''eE'' then month_letter [(''bB'', 2)] (tl (tl s)) else invld }
     else if a \<in> set ''mM'' then do {
       b \<leftarrow> deref (tl s);
       if b \<in> set ''aA'' then month_letter [(''rR'', 3), (''yY'', 5)] (tl (tl s)) else invld }
     else if a \<in> set ''aA'' then do {
       b \<leftarrow> deref (tl s);
       if b \<in> set ''pP'' then month_letter [(''rR'', 4)] (tl (tl s))
       else if b \<in> set ''uU'' then month_letter [(''gG'', 8)] (tl (tl s))
       else invld }
     else if a \<in> set ''sS'' then do {
       b \<leftarrow> deref (tl s);
       if b \<in> set ''eE'' then month_letter [(''pP'', 9)] (tl (tl s)) else invld }
     else if a \<in> set ''oO'' then do {
       b \<leftarrow> deref (tl s);
       if b \<in> set ''cC'' then month_letter [(''tT'', 10)] (tl (tl s)) else invld }
     else if a \<in> set ''nN'' then do {
       b \<leftarrow> deref (tl s);
       if b \<in> set ''oO'' then month_letter [(''vV'', 11)] (tl (tl s)) else invld }
     else if a \<in> set ''dD'' then do {
       b \<leftarrow> deref (tl s);
       if b \<in> set ''eE'' then month_letter [(''cC'', 12)] (tl (tl s)) else invld }
     else invld }"

definition leading_year :: "cursor \<Rightarrow> (int \<times> cursor) res" where
  "leading_year p = do {
     c \<leftarrow> deref (fst p);
     if isdigit c
     then rbind (srSLMGParseInt32 p) (\<lambda>(yr, p).
          if yr < 1970 \<or> 2100 < yr then invld
          else do {
            c \<leftarrow> deref (fst p);
            if c \<noteq> CHR '' '' then invld else ret (yr, tl (fst p), snd p) })
     else ret (0, p) }"

definition optional_space :: "cursor \<Rightarrow> cursor res" where
  "optional_space p = do {
     c \<leftarrow> deref (fst p);
     if c = CHR '' '' then ret (tl (fst p), snd p - 1) else ret p }"

text \<open>The hour, after a year in the Cisco format when no year was seen before.\<close>

definition parse_hour :: "int \<Rightarrow> cursor \<Rightarrow> (int \<times> int \<times> cursor) res" where
  "parse_hour yr p =
     rbind (srSLMGParseInt32 p) (\<lambda>(hr, p).
     rbind (if yr = 0 \<and> 1970 < hr \<and> hr < 2100
            then rbind (skip_char CHR '' '' p) (\<lambda>p.
                 rbind (srSLMGParseInt32 p) (\<lambda>(hr', p). ret (hr, hr', p)))
            else ret (yr, hr, p)) (\<lambda>(yr, hr, p).
     if hr < 0 \<or> 23 < hr then invld else ret (yr, hr, p)))"

text \<open>The characters of the time zone's name: at most 15, up to a colon or a space.\<close>

fun tz_loop :: "char list \<Rightarrow> char list \<Rightarrow> int \<Rightarrow> (char list \<times> cursor) option" where
  "tz_loop acc [] n = (if 0 < n \<and> length acc < 15 then None else Some (acc, [], n))"
| "tz_loop acc (c # s) n =
     (if 0 < n \<and> length acc < 15 \<and> c \<noteq> CHR '':'' \<and> c \<noteq> CHR '' ''
      then tz_loop (acc @ [c]) s (n - 1) else Some (acc, c # s, n))"

definition parse_tz :: "(char list \<Rightarrow> tzinfo option) \<Rightarrow> bool \<Rightarrow> cursor \<Rightarrow> (tzinfo option \<times> cursor) res" where
  "parse_tz glblFindTimezone bParseTZ p =
     (if bParseTZ \<and> 2 < snd p
      then do {
        c \<leftarrow> deref (fst p);
        if c = CHR '' ''
        then do {
          (tzstring, q) \<leftarrow> tz_loop [] (tl (fst p)) (snd p - 1);
          ret (if tzstring = [] then None else glblFindTimezone tzstring, q) }
        else ret (None, p) }
      else ret (None, p))"

fun year_digits :: "nat \<Rightarrow> int \<Rightarrow> char list \<Rightarrow> int option" where
  "year_digits 0 y s = Some y"
| "year_digits (Suc k) y s = do {
     c \<leftarrow> deref s;
     if isdigit c then year_digits k (10 * y + digit_val c) (tl s) else Some y }"

definition year_after_time :: "bool \<Rightarrow> int \<Rightarrow> cursor \<Rightarrow> (int \<times> cursor) res" where
  "year_after_time bDetectYearAfterTime yr p =
     (if bDetectYearAfterTime \<and> yr = 0 \<and> 5 < snd p
      then do {
        c \<leftarrow> deref (fst p);
        if c = CHR '' ''
        then do {
          y \<leftarrow> year_digits 4 0 (tl (fst p));
          y \<leftarrow> (if 6 < snd p
                then do { c \<leftarrow> deref (drop 5 (fst p)); Some (if c \<noteq> CHR '' '' then 0 else y) }
                else Some y);
          if 2000 \<le> y \<and> y < 2100 then ret (y, drop 5 (fst p), snd p - 5) else ret (yr, p) }
        else ret (yr, p) }
      else ret (yr, p))"

definition optional_colon :: "cursor \<Rightarrow> cursor res" where
  "optional_colon p =
     (if 0 < snd p
      then do { c \<leftarrow> deref (fst p); if c = CHR '':'' then ret (tl (fst p), snd p - 1) else ret p }
      else ret p)"

definition ParseTIMESTAMP3164 ::
  "(char list \<Rightarrow> tzinfo option) \<Rightarrow> syslogTime \<Rightarrow> cursor \<Rightarrow> bool \<Rightarrow> bool \<Rightarrow> (syslogTime \<times> cursor) res" where
  "ParseTIMESTAMP3164 glblFindTimezone pTime p bParseTZ bDetectYearAfterTime =
     (if snd p < 3 then invld
      else rbind (leading_year p) (\<lambda>(yr, s, n).
      rbind (parse_month s) (\<lambda>(mon, s).
      rbind (skip_char CHR '' '' (s, n - 3)) (\<lambda>p.
      rbind (optional_space p) (\<lambda>p.
      rbind (srSLMGParseInt32 p) (\<lambda>(dy, p).
      if dy < 1 \<or> 31 < dy then invld
      else rbind (skip_char CHR '' '' p) (\<lambda>p.
      rbind (parse_hour yr p) (\<lambda>(yr, hr, p).
      rbind (skip_char CHR '':'' p) (\<lambda>p.
      rbind (srSLMGParseInt32 p) (\<lambda>(mi, p).
      if mi < 0 \<or> 59 < mi then invld
      else rbind (skip_char CHR '':'' p) (\<lambda>p.
      rbind (srSLMGParseInt32 p) (\<lambda>(sec, p).
      if sec < 0 \<or> 60 < sec then invld
      else rbind (parse_secfrac p) (\<lambda>(frac, prec, p).
      rbind (parse_tz glblFindTimezone bParseTZ p) (\<lambda>(tz, p).
      rbind (year_after_time bDetectYearAfterTime yr p) (\<lambda>(yr, p).
      rbind (optional_colon p) (\<lambda>p.
      rbind (expect_space p) (\<lambda>p.
      let t = pTime \<lparr> timeType := 1, month := mon, day := dy, hour := hr, minute := mi, second := sec,
                secfrac := frac, secfracPrecision := int8 prec \<rparr>;
          t = (if 0 < yr then t \<lparr> year := yr \<rparr> else t);
          t = (case tz of
                 Some z \<Rightarrow> (if offsMode z \<noteq> NUL
                   then t \<lparr> OffsetMode := offsMode z, OffsetHour := offsHour z, OffsetMinute := offsMin z \<rparr>
                   else t)
               | None \<Rightarrow> t)
      in ret (t, p))))))))))))))))))"

definition applyDfltTZ :: "syslogTime \<Rightarrow> char list \<Rightarrow> syslogTime option" where
  "applyDfltTZ pTime tz =
     (if length tz < 6 then None
      else Some (pTime \<lparr> OffsetMode := tz ! 0,
        OffsetHour := int8 (digit_val (tz ! 1) * 10 + digit_val (tz ! 2)),
        OffsetMinute := int8 (digit_val (tz ! 4) * 10 + digit_val (tz ! 5)) \<rparr>))"

section \<open>Printing\<close>

text \<open>
  The routines write into a buffer of the caller; the model gives the bytes written from its
  start on, the terminating NUL included, and the value returned.
\<close>

definition dig :: "int \<Rightarrow> char" where
  "dig d = char_of (nat ((d + 48) mod 256))"

definition digits2 :: "int \<Rightarrow> char list" where
  "digits2 v = [dig ((v sdiv 10) smod 10), dig (v smod 10)]"

definition digits4 :: "int \<Rightarrow> char list" where
  "digits4 v = [dig ((v sdiv 1000) smod 10), dig ((v sdiv 100) smod 10), dig ((v sdiv 10) smod 10), dig (v smod 10)]"

definition formatTimestampToMySQL :: "syslogTime \<Rightarrow> char list \<times> int" where
  "formatTimestampToMySQL ts =
     (digits4 (year ts) @ digits2 (month ts) @ digits2 (day ts) @ digits2 (hour ts)
        @ digits2 (minute ts) @ digits2 (second ts) @ [NUL], 15)"

definition formatTimestampToPgSQL :: "syslogTime \<Rightarrow> char list \<times> int" where
  "formatTimestampToPgSQL ts =
     (digits4 (year ts) @ ''-'' @ digits2 (month ts) @ ''-'' @ digits2 (day ts) @ '' '' @ digits2 (hour ts)
        @ '':'' @ digits2 (minute ts) @ '':'' @ digits2 (second ts) @ [NUL], 19)"

text \<open>The fraction with at most six digits, and the power of ten of its first digit.\<close>

definition getNormalizedSecFracPower :: "syslogTime \<Rightarrow> int \<times> int" where
  "getNormalizedSecFracPower ts =
     (let k = nat (secfracPrecision ts - 6);
          frac = ((\<lambda>v. v sdiv 10) ^^ k) (secfrac ts);
          precision = secfracPrecision ts - int k
      in (tenPowers ! nat (precision - 1), frac))"

function (sequential) secfrac_loop :: "int \<Rightarrow> int \<Rightarrow> char list option" where
  "secfrac_loop pw frac =
     (if 0 < pw
      then do {
        let digit = int16 (frac sdiv pw);
        frac \<leftarrow> ck_int (frac - digit * pw);
        cs \<leftarrow> secfrac_loop (pw sdiv 10) frac;
        Some (dig digit # cs) }
      else Some [])"
  by pat_completeness auto
termination
  by (relation "measure (\<lambda>(p, f). nat p)") auto

definition formatTimestampSecFrac :: "syslogTime \<Rightarrow> (char list \<times> int) option" where
  "formatTimestampSecFrac ts = do {
     cs \<leftarrow> (if 0 < secfracPrecision ts
            then let (pw, frac) = getNormalizedSecFracPower ts in secfrac_loop pw frac
            else Some ''0'');
     Some (cs @ [NUL], int (length cs)) }"

definition formatTimestamp3339 :: "syslogTime \<Rightarrow> (char list \<times> int) option" where
  "formatTimestamp3339 ts = do {
     cs \<leftarrow> (if 0 < secfracPrecision ts
            then let (pw, frac) = getNormalizedSecFracPower ts
                 in map_option ((#) CHR ''.'') (secfrac_loop pw frac)
            else Some []);
     let out = digits4 (year ts) @ ''-'' @ digits2 (month ts) @ ''-'' @ digits2 (day ts) @ ''T''
           @ digits2 (hour ts) @ '':'' @ digits2 (minute ts) @ '':'' @ digits2 (second ts) @ cs
           @ (if OffsetMode ts = CHR ''Z'' then ''Z''
              else [OffsetMode ts] @ digits2 (OffsetHour ts) @ '':'' @ digits2 (OffsetMinute ts));
     Some (out @ [NUL], int (length out)) }"

definition formatTimestamp3164 :: "syslogTime \<Rightarrow> bool \<Rightarrow> (char list \<times> int) option" where
  "formatTimestamp3164 ts bBuggyDay =
     (let m = (month ts - 1) smod 12; iDay = (day ts sdiv 10) smod 10
      in if m < 0 then None
         else Some (monthNames ! nat m @ '' ''
           @ [if bBuggyDay \<or> 0 < iDay then dig iDay else CHR '' '', dig (day ts smod 10)] @ '' ''
           @ digits2 (hour ts) @ '':'' @ digits2 (minute ts) @ '':'' @ digits2 (second ts) @ [NUL], 16))"

section \<open>Facts on parsing\<close>

named_theorems dt_simps \<open>evaluation of the timestamp parsers\<close>

lemma parse_num_stop:
  "\<not> isdigit c \<Longrightarrow> srSLMGParseInt32_loop i (c # s) n = Some (i, c # s, n)"
  by simp

lemma parse_num_end [simp]: "n \<le> 0 \<Longrightarrow> srSLMGParseInt32_loop i s n = Some (i, s, n)"
  by (cases s) auto

lemma dig_digit [simp]: "0 \<le> d \<Longrightarrow> d \<le> 9 \<Longrightarrow> isdigit (dig d)"
  "0 \<le> d \<Longrightarrow> d \<le> 9 \<Longrightarrow> digit_val (dig d) = d"
  by (auto simp: dig_def isdigit_def digit_val_def of_char_of le_nat_iff nat_le_iff)

lemma isdigit_literals [simp]:
  "\<not> isdigit CHR ''-''" "\<not> isdigit CHR ''T''" "\<not> isdigit CHR '':''" "\<not> isdigit CHR ''.''"
  "\<not> isdigit CHR ''Z''" "\<not> isdigit CHR ''+''" "\<not> isdigit CHR '' ''" "\<not> isdigit NUL"
  by (simp_all add: isdigit_def)

lemma parse_num_step:
  "0 \<le> d \<Longrightarrow> d \<le> 9 \<Longrightarrow> 0 < n \<Longrightarrow> i < 214748360
    \<Longrightarrow> 0 \<le> i \<Longrightarrow> srSLMGParseInt32_loop i (dig d # s) n = srSLMGParseInt32_loop (i * 10 + d) s (n - 1)"
  using dig_digit(2) [of d] by (simp add: digit_val_def ck_int_def algebra_simps)

text \<open>A number printed with two or four digits is read back, whatever stops it.\<close>

definition stops :: "cursor \<Rightarrow> bool" where
  "stops p \<longleftrightarrow> snd p \<le> 0 \<or> (\<exists>c s. fst p = c # s \<and> \<not> isdigit c)"

lemma parse_num_stops: "stops (s, n) \<Longrightarrow> srSLMGParseInt32_loop i s n = Some (i, s, n)"
  by (auto simp: stops_def)

lemma parse_two:
  assumes "0 \<le> a" "a \<le> 9" "0 \<le> b" "b \<le> 9" "2 \<le> n" "stops (s, n - 2)"
  shows "srSLMGParseInt32 (dig a # dig b # s, n) = ret (a * 10 + b, s, n - 2)"
  using assms by (simp add: srSLMGParseInt32_def parse_num_step parse_num_stops del: srSLMGParseInt32_loop.simps)

lemma parse_four:
  assumes "0 \<le> a" "a \<le> 9" "0 \<le> b" "b \<le> 9" "0 \<le> c" "c \<le> 9" "0 \<le> d" "d \<le> 9" "4 \<le> n" "stops (s, n - 4)"
  shows "srSLMGParseInt32 (dig a # dig b # dig c # dig d # s, n) = ret (((a * 10 + b) * 10 + c) * 10 + d, s, n - 4)"
  using assms by (simp add: srSLMGParseInt32_def parse_num_step parse_num_stops del: srSLMGParseInt32_loop.simps)

lemma digits2_eq: "0 \<le> v \<Longrightarrow> digits2 v = [dig (v div 10 mod 10), dig (v mod 10)]"
  by (simp add: digits2_def pos_imp_zdiv_nonneg_iff)

lemma digits4_eq:
  "0 \<le> v \<Longrightarrow> digits4 v = [dig (v div 1000 mod 10), dig (v div 100 mod 10), dig (v div 10 mod 10), dig (v mod 10)]"
  by (simp add: digits4_def pos_imp_zdiv_nonneg_iff)

lemma mod10_range: "0 \<le> x mod 10" "x mod 10 \<le> 9" for x :: int
  using pos_mod_bound [of 10 x] by auto

lemma digits_split: "x div 10 * 10 + x mod 10 = x" for x :: int
  by simp

lemma parse_digits2:
  assumes "0 \<le> v" "v \<le> 99" "2 \<le> n" "stops (s, n - 2)"
  shows "srSLMGParseInt32 (digits2 v @ s, n) = ret (v, s, n - 2)"
proof -
  have "v div 10 mod 10 * 10 + v mod 10 = v"
    using digits_split [of v] assms(1,2) by (simp add: pos_imp_zdiv_nonneg_iff)
  then show ?thesis
    using parse_two [OF mod10_range mod10_range assms(3,4), of "v div 10" v] by (simp add: digits2_eq assms(1))
qed

lemma parse_digits4:
  assumes "0 \<le> v" "v \<le> 9999" "4 \<le> n" "stops (s, n - 4)"
  shows "srSLMGParseInt32 (digits4 v @ s, n) = ret (v, s, n - 4)"
proof -
  have "v div 1000 \<le> 9999 div 1000"
    using assms(2) by (rule zdiv_mono1) simp
  moreover have "0 \<le> v div 1000"
    using assms(1) by (rule div_int_pos_iff [THEN iffD2, OF disjI2, OF disjI2, OF disjI1, OF conjI]) simp
  ultimately have top: "v div 1000 mod 10 = v div 1000"
    by (intro mod_pos_pos_trivial) simp_all
  have "v div 1000 = v div 100 div 10"
    using zdiv_zmult2_eq [of 10 v 100] by simp
  moreover
  have "v div 100 = v div 10 div 10"
    using zdiv_zmult2_eq [of 10 v 10] by simp
  ultimately have eq: "((v div 1000 mod 10 * 10 + v div 100 mod 10) * 10 + v div 10 mod 10) * 10 + v mod 10 = v"
    unfolding top by (simp only: digits_split)
  show ?thesis
    using parse_four [OF mod10_range mod10_range mod10_range mod10_range assms(3,4), of "v div 1000" "v div 100" "v div 10" v]
    unfolding digits4_eq [OF assms(1)] eq append.simps .
qed

lemma skip_char_ok [simp]: "n \<noteq> 0 \<Longrightarrow> skip_char c (c # s, n) = ret (s, n - 1)"
  by (simp add: skip_char_def)

lemma stops_cons [simp]: "\<not> isdigit c \<Longrightarrow> stops (c # s, n)"
  by (simp add: stops_def)

lemma stops_end [simp]: "n \<le> 0 \<Longrightarrow> stops (s, n)"
  by (simp add: stops_def)

lemma length_digits [simp]: "length (digits2 v) = 2" "length (digits4 v) = 4"
  by (simp_all add: digits2_def digits4_def)

lemma secfrac_digit:
  fixes f :: int
  assumes "0 \<le> f" "f < 10 ^ Suc p"
  shows "0 \<le> f div 10 ^ p" "f div 10 ^ p \<le> 9" "0 \<le> f mod 10 ^ p" "f mod 10 ^ p < 10 ^ p"
    "f - f div 10 ^ p * 10 ^ p = f mod 10 ^ p"
proof -
  have "0 \<le> f mod 10 ^ p"
    by simp
  then have "f div 10 ^ p * 10 ^ p \<le> f"
    using div_mult_mod_eq [of f "10 ^ p"] by linarith
  then have "f div 10 ^ p * 10 ^ p < 10 * 10 ^ p"
    using assms(2) by (metis order_le_less_trans power_Suc)
  then have "f div 10 ^ p < 10"
    by (rule mult_right_less_imp_less) simp
  then show "f div 10 ^ p \<le> 9"
    by simp
qed (use assms in \<open>simp_all add: pos_imp_zdiv_nonneg_iff minus_div_mult_eq_mod\<close>)

lemma secfrac_loop_step:
  assumes "0 \<le> f" "f < 10 ^ Suc p" "p < 9"
  shows "secfrac_loop (10 ^ p) f
    = map_option ((#) (dig (f div 10 ^ p))) (secfrac_loop (10 ^ p div 10) (f mod 10 ^ p))"
proof -
  note d = secfrac_digit [OF assms(1,2)]
  have "(10 :: int) ^ p \<le> 1000000000"
    using assms(3) power_increasing [of p 9 "10 :: int"] by simp
  then have "f mod 10 ^ p < 2147483648" "- 2147483648 \<le> f mod 10 ^ p"
    using d(3,4) by linarith+
  then have "ck_int (f mod 10 ^ p) = Some (f mod 10 ^ p)"
    by (simp add: ck_int_def)
  then show ?thesis
    using assms(1) d by (subst secfrac_loop.simps)
      (simp add: Let_def map_option_case split: option.split del: secfrac_loop.simps)
qed

lemma secfrac_loop_zero [simp]: "secfrac_loop 0 f = Some []"
  by simp

text \<open>The digits printed for a fraction, and what the parser makes of them.\<close>

lemma secfrac_digits:
  assumes "0 \<le> f" "f < 10 ^ Suc p" "p < 9"
  shows "\<exists>ds. secfrac_loop (10 ^ p) f = Some ds \<and> length ds = Suc p
    \<and> (\<forall>i s n. 0 \<le> i \<longrightarrow> i * 10 ^ Suc p + f < 214748360 \<longrightarrow> int (Suc p) \<le> n \<longrightarrow>
          srSLMGParseInt32_loop i (ds @ s) n = srSLMGParseInt32_loop (i * 10 ^ Suc p + f) s (n - int (Suc p)))"
  using assms
proof (induction p arbitrary: f)
  case 0
  then have "f < 10"
    by simp
  with 0 have "secfrac_loop (10 ^ 0) f = Some [dig f]"
    using secfrac_loop_step [of f 0] by simp
  with 0 \<open>f < 10\<close> show ?case
    by (intro exI [of _ "[dig f]"]) (simp add: parse_num_step del: srSLMGParseInt32_loop.simps)
next
  case (Suc p)
  note d = secfrac_digit [OF Suc.prems(1,2)]
  obtain ds where ds: "secfrac_loop (10 ^ p) (f mod 10 ^ Suc p) = Some ds" "length ds = Suc p"
    "\<forall>i s n. 0 \<le> i \<longrightarrow> i * 10 ^ Suc p + f mod 10 ^ Suc p < 214748360 \<longrightarrow> int (Suc p) \<le> n \<longrightarrow>
        srSLMGParseInt32_loop i (ds @ s) n
      = srSLMGParseInt32_loop (i * 10 ^ Suc p + f mod 10 ^ Suc p) s (n - int (Suc p))"
    using Suc.IH [OF d(3,4) Suc_lessD [OF Suc.prems(3)]] by (elim exE conjE) (rule that)
  have split: "f div 10 ^ Suc p * 10 ^ Suc p + f mod 10 ^ Suc p = f"
    by (rule div_mult_mod_eq)
  show ?case
  proof (intro exI [of _ "dig (f div 10 ^ Suc p) # ds"] conjI allI impI)
    show "secfrac_loop (10 ^ Suc p) f = Some (dig (f div 10 ^ Suc p) # ds)"
      using secfrac_loop_step [OF Suc.prems] ds(1) by simp
    show "length (dig (f div 10 ^ Suc p) # ds) = Suc (Suc p)"
      using ds(2) by simp
  next
    fix i s n
    assume i: "0 \<le> (i::int)" "i * 10 ^ Suc (Suc p) + f < 214748360" "int (Suc (Suc p)) \<le> n"
    have eq: "(i * 10 + f div 10 ^ Suc p) * 10 ^ Suc p + f mod 10 ^ Suc p = i * 10 ^ Suc (Suc p) + f"
      using split by (simp add: algebra_simps)
    have "i \<le> i * 10 ^ Suc (Suc p)"
      using mult_left_mono [of 1 "10 ^ Suc (Suc p)" i] i(1) one_le_power [of "10::int" "Suc (Suc p)"] by simp
    then have "i < 214748360"
      using i(2) Suc.prems(1) by linarith
    then have "srSLMGParseInt32_loop i (dig (f div 10 ^ Suc p) # ds @ s) n
        = srSLMGParseInt32_loop (i * 10 + f div 10 ^ Suc p) (ds @ s) (n - 1)"
      using d(1,2) i(1,3) by (intro parse_num_step) simp_all
    also have "\<dots> = srSLMGParseInt32_loop (i * 10 ^ Suc (Suc p) + f) s (n - 1 - int (Suc p))"
      using ds(3) [rule_format, of "i * 10 + f div 10 ^ Suc p" "n - 1" s] i d(1) unfolding eq by simp
    finally show "srSLMGParseInt32_loop i ((dig (f div 10 ^ Suc p) # ds) @ s) n
        = srSLMGParseInt32_loop (i * 10 ^ Suc (Suc p) + f) s (n - int (Suc (Suc p)))"
      by (simp add: algebra_simps)
  qed
qed

definition fraction_ok :: "syslogTime \<Rightarrow> bool" where
  "fraction_ok ts \<longleftrightarrow> 0 \<le> secfracPrecision ts \<and> secfracPrecision ts \<le> 6
     \<and> 0 \<le> secfrac ts \<and> secfrac ts < 10 ^ nat (secfracPrecision ts)"

definition valid_time :: "syslogTime \<Rightarrow> bool" where
  "valid_time ts \<longleftrightarrow> 0 \<le> year ts \<and> year ts < 2100 \<and> 1 \<le> month ts \<and> month ts \<le> 12 \<and> 1 \<le> day ts \<and> day ts \<le> 31
     \<and> 0 \<le> hour ts \<and> hour ts \<le> 23 \<and> 0 \<le> minute ts \<and> minute ts \<le> 59 \<and> 0 \<le> second ts \<and> second ts \<le> 60
     \<and> 0 \<le> OffsetHour ts \<and> OffsetHour ts \<le> 23 \<and> 0 \<le> OffsetMinute ts \<and> OffsetMinute ts \<le> 59
     \<and> (OffsetMode ts = CHR ''Z'' \<and> OffsetHour ts = 0 \<and> OffsetMinute ts = 0
        \<or> OffsetMode ts = CHR ''+'' \<or> OffsetMode ts = CHR ''-'')"

lemma tenPowers_nth: "k < 6 \<Longrightarrow> tenPowers ! k = 10 ^ k"
  by (auto simp: tenPowers_def numeral_eq_Suc less_Suc_eq)

lemma secfrac_text:
  assumes "fraction_ok ts" "0 < secfracPrecision ts"
  shows "\<exists>ds. secfrac_loop (fst (getNormalizedSecFracPower ts)) (snd (getNormalizedSecFracPower ts)) = Some ds
    \<and> int (length ds) = secfracPrecision ts
    \<and> (\<forall>s n. secfracPrecision ts \<le> n \<longrightarrow> stops (s, n - secfracPrecision ts) \<longrightarrow>
         parse_secfrac (CHR ''.'' # ds @ s, n + 1) = ret (secfrac ts, secfracPrecision ts, s, n - secfracPrecision ts))"
proof -
  obtain p where p: "secfracPrecision ts = int (Suc p)" "p < 6"
    using assms by (metis fraction_ok_def gr0_implies_Suc int_ops(1) less_eq_Suc_le nat_int nat_le_iff
        of_nat_less_iff of_nat_numeral zero_less_imp_eq_int)
  then have p9: "p < 9"
    by simp
  have f: "0 \<le> secfrac ts" "secfrac ts < 10 ^ Suc p"
    using assms(1) p(1) by (auto simp: fraction_ok_def nat_add_distrib)
  have norm: "getNormalizedSecFracPower ts = (10 ^ p, secfrac ts)"
    using p by (simp add: getNormalizedSecFracPower_def tenPowers_nth)
  have "(10 :: int) ^ Suc p \<le> 1000000"
    using p(2) power_increasing [of "Suc p" 6 "10 :: int"] by simp
  then have small: "0 * 10 ^ Suc p + secfrac ts < 214748360"
    using f(2) by linarith
  obtain ds where ds: "secfrac_loop (10 ^ p) (secfrac ts) = Some ds" "length ds = Suc p"
    "\<forall>i s n. 0 \<le> i \<longrightarrow> i * 10 ^ Suc p + secfrac ts < 214748360 \<longrightarrow> int (Suc p) \<le> n \<longrightarrow>
       srSLMGParseInt32_loop i (ds @ s) n = srSLMGParseInt32_loop (i * 10 ^ Suc p + secfrac ts) s (n - int (Suc p))"
    using secfrac_digits [OF f p9] by (elim exE conjE) (rule that)
  show ?thesis
  proof (intro exI [of _ ds] conjI allI impI)
    show "secfrac_loop (fst (getNormalizedSecFracPower ts)) (snd (getNormalizedSecFracPower ts)) = Some ds"
      by (simp only: norm fst_conv snd_conv ds(1))
    show "int (length ds) = secfracPrecision ts"
      by (simp add: ds(2) p(1))
    fix s n
    assume n: "secfracPrecision ts \<le> n" "stops (s, n - secfracPrecision ts)"
    have "srSLMGParseInt32_loop 0 (ds @ s) n = Some (secfrac ts, s, n - secfracPrecision ts)"
      using ds(3) [rule_format, OF order_refl small] n p(1) parse_num_stops by (simp add: parse_num_stops)
    then show "parse_secfrac (CHR ''.'' # ds @ s, n + 1) = ret (secfrac ts, secfracPrecision ts, s, n - secfracPrecision ts)"
      using n p(1) ds(2) by (simp add: parse_secfrac_def srSLMGParseInt32_def)
  qed
qed

text \<open>The time zone part of a printed timestamp.\<close>

definition offset_text :: "syslogTime \<Rightarrow> char list" where
  "offset_text ts = (if OffsetMode ts = CHR ''Z'' then ''Z''
     else [OffsetMode ts] @ digits2 (OffsetHour ts) @ '':'' @ digits2 (OffsetMinute ts))"

lemma offset_text_parse:
  assumes "valid_time ts" "int (length (offset_text ts)) \<le> n" "stops (s, n - int (length (offset_text ts)))"
  shows "parse_offset (offset_text ts @ s, n)
    = ret (OffsetMode ts, OffsetHour ts, OffsetMinute ts, s, n - int (length (offset_text ts)))"
proof (cases "OffsetMode ts = CHR ''Z''")
  case True
  then show ?thesis
    using assms by (simp add: parse_offset_def offset_text_def valid_time_def)
next
  case False
  then have sign: "OffsetMode ts = CHR ''+'' \<or> OffsetMode ts = CHR ''-''"
    using assms(1) by (simp add: valid_time_def)
  have "srSLMGParseInt32 (digits2 (OffsetHour ts) @ CHR '':'' # digits2 (OffsetMinute ts) @ s, n - 1)
      = ret (OffsetHour ts, CHR '':'' # digits2 (OffsetMinute ts) @ s, n - 1 - 2)"
    using assms False by (intro parse_digits2) (simp_all add: valid_time_def offset_text_def)
  moreover have "srSLMGParseInt32 (digits2 (OffsetMinute ts) @ s, n - 1 - 2 - 1)
      = ret (OffsetMinute ts, s, n - 1 - 2 - 1 - 2)"
    using assms False by (intro parse_digits2) (simp_all add: valid_time_def offset_text_def)
  ultimately show ?thesis
    using assms(1,2) False sign by (auto simp: parse_offset_def offset_text_def valid_time_def)
qed

lemma expect_space_ok [simp]: "0 < n \<Longrightarrow> expect_space (CHR '' '' # s, n) = ret (s, n - 1)" "expect_space (s, 0) = ret (s, 0)"
  by (simp_all add: expect_space_def)

definition date_text :: "syslogTime \<Rightarrow> char list" where
  "date_text ts = digits4 (year ts) @ ''-'' @ digits2 (month ts) @ ''-'' @ digits2 (day ts) @ ''T''
     @ digits2 (hour ts) @ '':'' @ digits2 (minute ts) @ '':'' @ digits2 (second ts)"

text \<open>The part of the parser up to the seconds, on a printed date.\<close>

lemma parse_date_text:
  assumes v: "valid_time ts" and n: "19 \<le> n" and st: "stops (s, n - 19)"
  shows "ParseTIMESTAMP3339 t0 (date_text ts @ s, n) =
     rbind (parse_secfrac (s, n - 19)) (\<lambda>(frac, prec, p).
     rbind (parse_offset p) (\<lambda>(om, oh, omin, p).
     rbind (expect_space p) (\<lambda>p.
     ret (t0 \<lparr> timeType := 2, year := year ts, month := month ts, day := day ts, hour := hour ts,
            minute := minute ts, second := second ts, secfrac := frac, secfracPrecision := int8 prec,
            OffsetMode := om, OffsetHour := oh, OffsetMinute := omin \<rparr>, p))))"
proof -
  have num: "srSLMGParseInt32 (digits2 w @ c # x, k) = ret (w, c # x, k - 2)"
    if "0 \<le> w" "w \<le> 99" "2 \<le> k" "\<not> isdigit c" for w c x k
    using that by (intro parse_digits2) simp_all
  have yr: "srSLMGParseInt32 (digits4 (year ts) @ CHR ''-'' # x, n) = ret (year ts, CHR ''-'' # x, n - 4)" for x
    using v n by (intro parse_digits4) (simp_all add: valid_time_def)
  have se: "srSLMGParseInt32 (digits2 (second ts) @ s, n - 17) = ret (second ts, s, n - 19)"
    using parse_digits2 [of "second ts" "n - 17" s] v n st by (simp add: valid_time_def)
  show ?thesis
    using v n unfolding valid_time_def
    by (simp add: ParseTIMESTAMP3339_def date_text_def yr num se)
qed

lemma format_3339_text:
  assumes "fraction_ok ts"
  obtains fr where "formatTimestamp3339 ts = Some (date_text ts @ fr @ offset_text ts @ [NUL],
      19 + int (length fr) + int (length (offset_text ts)))"
    "length fr \<le> 7"
    "\<And>s n. int (length fr) < n \<Longrightarrow> stops (s, n - int (length fr)) \<Longrightarrow> s \<noteq> [] \<Longrightarrow> hd s \<noteq> CHR ''.'' \<Longrightarrow>
       parse_secfrac (fr @ s, n) = ret (secfrac ts, secfracPrecision ts, s, n - int (length fr))"
    "\<And>s n. 0 < n \<Longrightarrow> stops (s, n) \<Longrightarrow> stops (fr @ s, n)"
proof (cases "0 < secfracPrecision ts")
  case True
  obtain ds where ds: "secfrac_loop (fst (getNormalizedSecFracPower ts)) (snd (getNormalizedSecFracPower ts)) = Some ds"
    "int (length ds) = secfracPrecision ts"
    "\<forall>s n. secfracPrecision ts \<le> n \<longrightarrow> stops (s, n - secfracPrecision ts) \<longrightarrow>
         parse_secfrac (CHR ''.'' # ds @ s, n + 1) = ret (secfrac ts, secfracPrecision ts, s, n - secfracPrecision ts)"
    using secfrac_text [OF assms True] by (elim exE conjE) (rule that)
  show ?thesis
  proof (rule that [of "CHR ''.'' # ds"])
    show "formatTimestamp3339 ts = Some (date_text ts @ (CHR ''.'' # ds) @ offset_text ts @ [NUL],
        19 + int (length (CHR ''.'' # ds)) + int (length (offset_text ts)))"
      using True ds(1) by (simp add: formatTimestamp3339_def date_text_def offset_text_def case_prod_unfold Let_def)
    show "length (CHR ''.'' # ds) \<le> 7"
      using ds(2) assms by (simp add: fraction_ok_def)
    show "parse_secfrac ((CHR ''.'' # ds) @ s, n) = ret (secfrac ts, secfracPrecision ts, s, n - int (length (CHR ''.'' # ds)))"
      if "int (length (CHR ''.'' # ds)) < n" "stops (s, n - int (length (CHR ''.'' # ds)))" for s n
      using ds(3) [rule_format, of "n - 1" s] that ds(2) by (simp add: algebra_simps)
  qed simp
next
  case False
  then have z: "secfracPrecision ts = 0" "secfrac ts = 0"
    using assms by (simp_all add: fraction_ok_def)
  show ?thesis
  proof (rule that [of "[]"])
    show "formatTimestamp3339 ts = Some (date_text ts @ [] @ offset_text ts @ [NUL],
        19 + int (length []) + int (length (offset_text ts)))"
      using False by (simp add: formatTimestamp3339_def date_text_def offset_text_def)
    show "parse_secfrac ([] @ s, n) = ret (secfrac ts, secfracPrecision ts, s, n - int (length []))"
      if "int (length []) < n" "s \<noteq> []" "hd s \<noteq> CHR ''.''" for s n
      using that z by (cases s) (simp_all add: parse_secfrac_def)
  qed simp_all
qed

lemma offset_text_props:
  assumes "valid_time ts"
  shows "offset_text ts \<noteq> []" "hd (offset_text ts) \<noteq> CHR ''.''" "length (offset_text ts) \<le> 6"
    "stops (offset_text ts @ s, n)"
  using assms by (auto simp: offset_text_def valid_time_def)

lemma roundtrip_3339:
  assumes v: "valid_time ts" and f: "fraction_ok ts" and k: "k = 0 \<or> (\<exists>x. s = CHR '' '' # x) \<and> 0 < k"
  obtains out where "formatTimestamp3339 ts = Some (out @ [NUL], int (length out))" "length out \<le> 32"
    "ParseTIMESTAMP3339 t0 (out @ s, int (length out) + k)
      = ret (ts \<lparr> timeType := 2, wday := wday t0, inUTC := inUTC t0 \<rparr>, if k = 0 then (s, 0) else (tl s, k - 1))"
proof -
  obtain fr where fr: "formatTimestamp3339 ts = Some (date_text ts @ fr @ offset_text ts @ [NUL],
      19 + int (length fr) + int (length (offset_text ts)))" "length fr \<le> 7"
    "\<And>s n. int (length fr) < n \<Longrightarrow> stops (s, n - int (length fr)) \<Longrightarrow> s \<noteq> [] \<Longrightarrow> hd s \<noteq> CHR ''.'' \<Longrightarrow>
       parse_secfrac (fr @ s, n) = ret (secfrac ts, secfracPrecision ts, s, n - int (length fr))"
    "\<And>s n. 0 < n \<Longrightarrow> stops (s, n) \<Longrightarrow> stops (fr @ s, n)"
    by (rule format_3339_text [OF f]) (rule that)
  note o = offset_text_props [OF v]
  have lo: "0 < length (offset_text ts)"
    using o(1) by simp
  let ?out = "date_text ts @ fr @ offset_text ts" and ?o = "int (length (offset_text ts))"
  have ld: "length (date_text ts) = 19"
    by (simp add: date_text_def)
  have st: "stops (s, k)"
    using k by (elim disjE exE conjE) simp_all
  have fields: "t0 \<lparr> timeType := 2, year := year ts, month := month ts, day := day ts, hour := hour ts,
        minute := minute ts, second := second ts, secfrac := secfrac ts, secfracPrecision := secfracPrecision ts,
        OffsetMode := OffsetMode ts, OffsetHour := OffsetHour ts, OffsetMinute := OffsetMinute ts \<rparr>
      = ts \<lparr> timeType := 2, wday := wday t0, inUTC := inUTC t0 \<rparr>"
    by (rule syslogTime.equality) simp_all
  have k0: "0 \<le> k"
    using k by auto
  have "ParseTIMESTAMP3339 t0 (date_text ts @ (fr @ offset_text ts @ s), 19 + int (length fr) + ?o + k) =
     rbind (parse_secfrac (fr @ offset_text ts @ s, int (length fr) + ?o + k)) (\<lambda>(frac, prec, p).
     rbind (parse_offset p) (\<lambda>(om, oh, omin, p).
     rbind (expect_space p) (\<lambda>p.
     ret (t0 \<lparr> timeType := 2, year := year ts, month := month ts, day := day ts, hour := hour ts,
            minute := minute ts, second := second ts, secfrac := frac, secfracPrecision := int8 prec,
            OffsetMode := om, OffsetHour := oh, OffsetMinute := omin \<rparr>, p))))"
    using parse_date_text [OF v, of "19 + int (length fr) + ?o + k" "fr @ offset_text ts @ s" t0]
      fr(4) [OF _ o(4), of "int (length fr) + ?o + k" s] lo k0 by (simp add: algebra_simps)
  also have "parse_secfrac (fr @ offset_text ts @ s, int (length fr) + ?o + k)
      = ret (secfrac ts, secfracPrecision ts, offset_text ts @ s, ?o + k)"
    using fr(3) [of "int (length fr) + ?o + k" "offset_text ts @ s"] o lo k0 by simp
  finally have p: "ParseTIMESTAMP3339 t0 (?out @ s, 19 + int (length fr) + ?o + k) =
     rbind (expect_space (s, k)) (\<lambda>p.
     ret (ts \<lparr> timeType := 2, wday := wday t0, inUTC := inUTC t0 \<rparr>, p))"
    using offset_text_parse [OF v, of "?o + k" s] st k0 f by (simp add: fraction_ok_def fields)
  show ?thesis
  proof (rule that [of ?out])
    show "ParseTIMESTAMP3339 t0 (?out @ s, int (length ?out) + k)
      = ret (ts \<lparr> timeType := 2, wday := wday t0, inUTC := inUTC t0 \<rparr>, if k = 0 then (s, 0) else (tl s, k - 1))"
      using p k ld by (auto simp: algebra_simps)
  qed (use fr(1,2) o(3) ld in simp_all)
qed

section \<open>The parser stays inside its text\<close>

text \<open>
  The numbers on which the integer scan overflows: a run of digits with a value from 2147483600
  to 2147483629 passes the guard of the loop before its last digit. A text without such a run
  is scanned without overflow, wherever the scan starts.
\<close>

definition no_int_overflow :: "char list \<Rightarrow> bool" where
  "no_int_overflow s \<longleftrightarrow> (\<forall>pre ds rest. s = pre @ ds @ rest \<longrightarrow> (\<forall>d \<in> set ds. isdigit d) \<longrightarrow>
     dec_val 0 ds < 2147483600 \<or> 2147483629 < dec_val 0 ds)"

lemma no_int_overflow_suffix: "no_int_overflow (u @ v) \<Longrightarrow> no_int_overflow v"
  unfolding no_int_overflow_def by (metis append_assoc)

lemma dec_val_less: "\<forall>d \<in> set ds. isdigit d \<Longrightarrow> dec_val v ds < (v + 1) * 10 ^ length ds"
proof (induction ds arbitrary: v)
  case (Cons d ds)
  have "digit_val d \<le> 9"
    using Cons.prems digit_val_bounds by simp
  then have "(v * 10 + digit_val d + 1) * 10 ^ length ds \<le> (v + 1) * 10 * 10 ^ length ds"
    by (intro mult_right_mono) simp_all
  also have "(v + 1) * 10 * 10 ^ length ds = (v + 1) * 10 ^ length (d # ds)"
    by simp
  finally show ?case
    using Cons.IH [of "v * 10 + digit_val d"] Cons.prems unfolding dec_val.simps by (meson less_le_trans list.set_intros(2))
qed simp

text \<open>A text without ten digits in a row.\<close>

lemma no_int_overflow_short:
  assumes "\<forall>i < length s - 9. \<exists>d \<in> set (take 10 (drop i s)). \<not> isdigit d"
  shows "no_int_overflow s"
  unfolding no_int_overflow_def
proof (intro allI impI disjI1)
  fix pre ds rest
  assume s: "s = pre @ ds @ rest" "\<forall>d \<in> set ds. isdigit d"
  have "length ds \<le> 9"
  proof (rule ccontr)
    assume "\<not> length ds \<le> 9"
    then have "length pre < length s - 9" "take 10 (drop (length pre) s) = take 10 ds"
      using s(1) by simp_all
    then show False
      using assms s(2) by (metis in_set_takeD)
  qed
  then have "(10 :: int) ^ length ds \<le> 10 ^ 9"
    by (intro power_increasing) simp_all
  then show "dec_val 0 ds < 2147483600"
    using dec_val_less [OF s(2), of 0] by simp
qed

text \<open>
  The parser reads no further than the first space, so only the word before it matters. A step of
  the parser that consumes no space moves on inside of that word.
\<close>

definition first_word :: "char list \<Rightarrow> char list" where
  "first_word s = takeWhile (\<lambda>c. c \<noteq> CHR '' '') s"

lemma first_word_append: "CHR '' '' \<notin> set u \<Longrightarrow> first_word (u @ s) = u @ first_word s"
  by (induction u) (auto simp: first_word_def)

lemma digits_no_space: "\<forall>d \<in> set ds. isdigit d \<Longrightarrow> CHR '' '' \<notin> set ds"
  by (auto simp: isdigit_def)

definition inside :: "cursor \<Rightarrow> bool" where
  "inside p \<longleftrightarrow> 0 \<le> snd p \<and> snd p \<le> int (length (fst p)) \<and> no_int_overflow (first_word (take (nat (snd p)) (fst p)))"

definition advances :: "cursor \<Rightarrow> cursor \<Rightarrow> bool" where
  "advances p q \<longleftrightarrow> (\<exists>u. fst p = u @ fst q \<and> snd q = snd p - int (length u) \<and> 0 \<le> snd q)"

definition moves :: "cursor \<Rightarrow> cursor \<Rightarrow> bool" where
  "moves p q \<longleftrightarrow> (\<exists>u. CHR '' '' \<notin> set u \<and> fst p = u @ fst q \<and> snd q = snd p - int (length u) \<and> 0 \<le> snd q)"

lemma moves_refl: "0 \<le> snd p \<Longrightarrow> moves p p"
  by (simp add: moves_def)

lemma moves_advances: "moves p q \<Longrightarrow> advances p q"
  by (auto simp: moves_def advances_def)

lemma advances_trans: "advances p q \<Longrightarrow> advances q r \<Longrightarrow> advances p r"
  by (fastforce simp: advances_def)

lemma moves_trans:
  assumes "moves p q" "moves q r"
  shows "moves p r"
proof -
  obtain u v where "CHR '' '' \<notin> set u" "fst p = u @ fst q" "snd q = snd p - int (length u)"
      "CHR '' '' \<notin> set v" "fst q = v @ fst r" "snd r = snd q - int (length v)" "0 \<le> snd r"
    using assms by (auto simp: moves_def)
  then show ?thesis
    unfolding moves_def by (intro exI [of _ "u @ v"]) simp
qed

lemma moves_inside:
  assumes "inside p" "moves p q"
  shows "inside q"
proof -
  obtain u where u: "CHR '' '' \<notin> set u" "fst p = u @ fst q" "snd q = snd p - int (length u)" "0 \<le> snd q"
    using assms(2) by (auto simp: moves_def)
  then have "take (nat (snd p)) (fst p) = u @ take (nat (snd q)) (fst q)"
    by (simp add: nat_diff_distrib)
  then have "no_int_overflow (first_word (take (nat (snd q)) (fst q)))"
    using assms(1) u(1) no_int_overflow_suffix [of u] by (simp add: inside_def first_word_append)
  then show ?thesis
    using assms(1) u by (simp add: inside_def)
qed

lemma moves_step: "0 < n \<Longrightarrow> c \<noteq> CHR '' '' \<Longrightarrow> moves (c # s, n) (s, n - 1)"
  by (auto simp: moves_def intro: exI [of _ "[c]"])

lemma inside_deref: "inside p \<Longrightarrow> 0 < snd p \<Longrightarrow> \<exists>c s. fst p = c # s"
  by (cases "fst p") (auto simp: inside_def)

text \<open>The scan after the value \<^term>\<open>i\<close>; the value read has at most as many digits as were consumed.\<close>

lemma num_loop_safe:
  assumes "0 \<le> n" "n \<le> int (length s)" "0 \<le> i" "i \<le> 2147483599"
    "\<forall>ds rest. take (nat n) s = ds @ rest \<longrightarrow> (\<forall>d \<in> set ds. isdigit d) \<longrightarrow> dec_val i ds < 2147483600 \<or> 2147483629 < dec_val i ds"
  shows "\<exists>v u q. srSLMGParseInt32_loop i s n = Some (v, q, n - int (length u)) \<and> s = u @ q \<and> int (length u) \<le> n
    \<and> 0 \<le> v \<and> v \<le> 2147483599 \<and> v < (i + 1) * 10 ^ length u \<and> CHR '' '' \<notin> set u"
  using assms
proof (induction i s n rule: srSLMGParseInt32_loop.induct)
  case (2 i c s n)
  show ?case
  proof (cases "0 < n \<and> isdigit c \<and> i < 2147483647 div 10 - 1")
    case True
    then have d: "0 \<le> digit_val c" "digit_val c \<le> 9" "int (of_char c) = digit_val c + 48"
      using digit_val_bounds by (auto simp: digit_val_def)
    let ?v = "i * 10 + digit_val c"
    have t: "take (nat n) (c # s) = c # take (nat (n - 1)) s"
      using True by (cases "nat n") (auto simp: nat_diff_distrib)
    have run: "dec_val i ds < 2147483600 \<or> 2147483629 < dec_val i ds"
      if "take (nat n) (c # s) = ds @ rest" "\<forall>d \<in> set ds. isdigit d" for ds rest
      using 2(6) that by blast
    have "i < 214748360"
      using run [of "[c]" "take (nat (n - 1)) s"] True d t by auto
    then have ck: "ck_int (i * 10 + int (of_char c)) = Some (?v + 48)" and small: "?v \<le> 2147483599"
      using d 2(4) by (simp_all add: ck_int_def)
    have "dec_val ?v ds < 2147483600 \<or> 2147483629 < dec_val ?v ds"
      if "take (nat (n - 1)) s = ds @ rest" "\<forall>d \<in> set ds. isdigit d" for ds rest
      using run [of "c # ds" rest] that t True by simp
    then obtain v u q where v: "srSLMGParseInt32_loop ?v s (n - 1) = Some (v, q, n - 1 - int (length u))" "s = u @ q"
        "int (length u) \<le> n - 1" "0 \<le> v" "v \<le> 2147483599" "v < (?v + 1) * 10 ^ length u" "CHR '' '' \<notin> set u"
      using "2.IH" [OF True ck] 2(2-4) True d small by auto
    have "(?v + 1) * 10 ^ length u \<le> (i + 1) * 10 * 10 ^ length u"
      using d by (intro mult_right_mono) simp_all
    also have "(i + 1) * 10 * 10 ^ length u = (i + 1) * 10 ^ length (c # u)"
      by simp
    finally have "v < (i + 1) * 10 ^ length (c # u)"
      using v(6) by linarith
    moreover have "srSLMGParseInt32_loop i (c # s) n = Some (v, q, n - int (length (c # u)))"
      using True ck v(1) by (simp add: algebra_simps)
    moreover have "c # s = (c # u) @ q" "int (length (c # u)) \<le> n" "CHR '' '' \<notin> set (c # u)"
      using v(2,3,7) True by (auto simp: isdigit_def)
    ultimately show ?thesis
      using v(4,5) by blast
  next
    case False
    then show ?thesis
      using 2 by (intro exI [of _ i] exI [of _ "[]"] exI [of _ "c # s"]) auto
  qed
qed auto

lemma num_loop_overflow:
  assumes "\<forall>d \<in> set ds. isdigit d" "int (length ds) \<le> n" "0 \<le> i" "i < 2147483600" "2147483600 \<le> dec_val i ds" "dec_val i ds \<le> 2147483629"
  shows "srSLMGParseInt32_loop i (ds @ rest) n = None"
  using assms
proof (induction ds arbitrary: i n)
  case (Cons c ds)
  have d: "isdigit c" "0 \<le> digit_val c" "digit_val c \<le> 9" "int (of_char c) = digit_val c + 48"
    using Cons.prems(1) digit_val_bounds by (auto simp: digit_val_def)
  let ?v = "i * 10 + digit_val c"
  have "?v \<le> dec_val ?v ds"
    using Cons.prems(1,3) d by (intro dec_val_ge) simp_all
  then have i: "i < 214748363"
    using Cons.prems(6) d by simp
  show ?case
  proof (cases "i < 214748360")
    case True
    then have "srSLMGParseInt32_loop ?v (ds @ rest) (n - 1) = None"
      using Cons.prems d by (intro Cons.IH) simp_all
    then show ?thesis
      using i Cons.prems(2) by (simp add: d ck_int_def)
  next
    case False
    then show ?thesis
      using i d Cons.prems(2) by (simp add: ck_int_def)
  qed
qed simp

lemma num_safe:
  assumes "inside p"
  shows "\<exists>v u q. srSLMGParseInt32 p = ret (v, q, snd p - int (length u)) \<and> fst p = u @ q \<and> int (length u) \<le> snd p
    \<and> 0 \<le> v \<and> v \<le> 2147483599 \<and> v < 10 ^ length u \<and> CHR '' '' \<notin> set u"
proof -
  have "\<exists>v u q. srSLMGParseInt32_loop 0 (fst p) (snd p) = Some (v, q, snd p - int (length u)) \<and> fst p = u @ q \<and> int (length u) \<le> snd p
    \<and> 0 \<le> v \<and> v \<le> 2147483599 \<and> v < (0 + 1) * 10 ^ length u \<and> CHR '' '' \<notin> set u"
  proof (intro num_loop_safe allI impI)
    fix ds rest
    assume "take (nat (snd p)) (fst p) = ds @ rest" "\<forall>d \<in> set ds. isdigit d"
    then show "dec_val 0 ds < 2147483600 \<or> 2147483629 < dec_val 0 ds"
      using assms first_word_append [OF digits_no_space, of ds rest] unfolding inside_def no_int_overflow_def by (metis append_Nil)
  qed (use assms in \<open>simp_all add: inside_def\<close>)
  then show ?thesis
    by (auto simp: srSLMGParseInt32_def)
qed

lemma num_safe_returns:
  assumes "inside p"
  shows "returns (srSLMGParseInt32 p) (\<lambda>(v, q). 0 \<le> v \<and> v \<le> 2147483599 \<and> moves p q)"
proof -
  obtain v u q where "srSLMGParseInt32 p = ret (v, q, snd p - int (length u))" "fst p = u @ q" "int (length u) \<le> snd p"
      "0 \<le> v" "v \<le> 2147483599" "CHR '' '' \<notin> set u"
    using num_safe [OF assms] by blast
  then show ?thesis
    by (simp add: moves_def)
qed

lemma skip_char_safe: "inside p \<Longrightarrow> c \<noteq> CHR '' '' \<Longrightarrow> returns (skip_char c p) (moves p)"
  using inside_deref [of p] moves_step [of "snd p"] by (cases p) (fastforce simp: skip_char_def inside_def)

lemma expect_space_safe: "inside p \<Longrightarrow> returns (expect_space p) (advances p)"
  using inside_deref [of p] by (cases p) (fastforce simp: expect_space_def inside_def advances_def)

lemma parse_secfrac_safe:
  assumes "inside p"
  shows "returns (parse_secfrac p) (\<lambda>(v, d, q). 0 \<le> v \<and> v \<le> 2147483599 \<and> 0 \<le> d \<and> d \<le> snd p \<and> v < 10 ^ nat d \<and> moves p q)"
proof (cases "0 < snd p \<and> (\<exists>s. fst p = CHR ''.'' # s)")
  case True
  then obtain s where p: "p = (CHR ''.'' # s, snd p)"
    by (cases p) auto
  have adv: "moves p (s, snd p - 1)"
    using True by (subst p) (simp add: moves_step)
  then have "inside (s, snd p - 1)"
    using moves_inside [OF assms] by blast
  from num_safe [OF this] obtain v u q where n: "srSLMGParseInt32 (s, snd p - 1) = ret (v, q, snd p - 1 - int (length u))"
      "s = u @ q" "int (length u) \<le> snd p - 1" "0 \<le> v" "v \<le> 2147483599" "v < 10 ^ length u" "CHR '' '' \<notin> set u"
    by auto
  have "parse_secfrac p = ret (v, int (length u), q, snd p - 1 - int (length u))"
    using True n(1,2) by (subst p) (simp add: parse_secfrac_def)
  moreover have "moves (s, snd p - 1) (q, snd p - 1 - int (length u))"
    using n(2,3,7) by (simp add: moves_def)
  ultimately show ?thesis
    using n(3-6) moves_trans [OF adv] by simp
next
  case False
  then have "parse_secfrac p = ret (0, 0, p)"
    using inside_deref [OF assms] by (cases "0 < snd p") (auto simp: parse_secfrac_def)
  then show ?thesis
    using assms by (simp add: inside_def moves_refl)
qed

text \<open>The same facts along a chain of steps that started at \<^verbatim>\<open>o\<close>.\<close>

lemma num_safe_from:
  "inside s \<Longrightarrow> moves s p \<Longrightarrow> returns (srSLMGParseInt32 p) (\<lambda>(v, q). 0 \<le> v \<and> moves s q)"
  by (rule returns_mono [OF num_safe_returns]) (auto intro: moves_inside moves_trans)

lemma skip_char_safe_from: "inside s \<Longrightarrow> c \<noteq> CHR '' '' \<Longrightarrow> moves s p \<Longrightarrow> returns (skip_char c p) (moves s)"
  by (rule returns_mono [OF skip_char_safe]) (auto intro: moves_inside moves_trans)

lemma expect_space_safe_from: "inside s \<Longrightarrow> moves s p \<Longrightarrow> returns (expect_space p) (advances s)"
  by (rule returns_mono [OF expect_space_safe]) (auto intro: moves_inside advances_trans moves_advances)

text \<open>
  The fraction of a timestamp that was read from \<^term>\<open>n\<close> bytes. Its precision is the number of its
  digits, cut to a byte, so that it belongs to the fraction only when there are fewer than 128.
\<close>

definition fraction_read :: "int \<Rightarrow> int \<Rightarrow> int \<Rightarrow> bool" where
  "fraction_read n f d \<longleftrightarrow> 0 \<le> f \<and> f \<le> 2147483599 \<and> (n < 128 \<longrightarrow> 0 \<le> d \<and> f < 10 ^ nat d)"

lemma parse_secfrac_safe_from:
  assumes "inside s" "moves s p"
  shows "returns (parse_secfrac p) (\<lambda>(v, d, q). fraction_read (snd s) v (int8 d) \<and> moves s q)"
proof -
  have "snd p \<le> snd s"
    using assms(2) by (auto simp: moves_def)
  then show ?thesis
    using moves_trans [OF assms(2)]
    by (intro returns_mono [OF parse_secfrac_safe [OF moves_inside [OF assms]]]) (auto simp: fraction_read_def)
qed

definition offset_ok :: "char \<Rightarrow> int \<Rightarrow> int \<Rightarrow> bool" where
  "offset_ok c oh om \<longleftrightarrow> 0 \<le> oh \<and> oh \<le> 23 \<and> 0 \<le> om \<and> om \<le> 59
     \<and> (c = CHR ''Z'' \<and> oh = 0 \<and> om = 0 \<or> c = CHR ''+'' \<or> c = CHR ''-'')"

lemma parse_offset_safe:
  assumes "inside p"
  shows "returns (parse_offset p) (\<lambda>(c, oh, om, q). offset_ok c oh om \<and> moves p q)"
proof (cases "snd p = 0")
  case False
  then have n: "0 < snd p"
    using assms by (simp add: inside_def)
  then obtain c s where p: "p = (c # s, snd p)"
    using inside_deref [OF assms] by (cases p) auto
  have adv: "moves p (s, snd p - 1)" if "c \<noteq> CHR '' ''"
    using moves_step [OF n that] by (subst p)
  have "returns (rbind (srSLMGParseInt32 (s, snd p - 1)) (\<lambda>(oh, q).
             if oh < 0 \<or> 23 < oh then invld
             else rbind (skip_char CHR '':'' q) (\<lambda>q.
             rbind (srSLMGParseInt32 q) (\<lambda>(om, q).
             if om < 0 \<or> 59 < om then invld else ret (c, oh, om, q)))))
       (\<lambda>(c, oh, om, q). offset_ok c oh om \<and> moves p q)"
    if "c = CHR ''+'' \<or> c = CHR ''-''"
    using that
    by (auto simp: offset_ok_def intro!: returns_if returns_rbind [OF num_safe_from [OF assms]] adv
        returns_rbind [OF skip_char_safe_from [OF assms]] returns_rbind [OF num_safe_from [OF assms]])
  then show ?thesis
    using False adv by (subst p) (auto simp: parse_offset_def offset_ok_def)
qed (simp add: parse_offset_def)

lemma parse_offset_safe_from:
  "inside s \<Longrightarrow> moves s p \<Longrightarrow> returns (parse_offset p) (\<lambda>(c, oh, om, q). offset_ok c oh om \<and> moves s q)"
  by (rule returns_mono [OF parse_offset_safe]) (auto intro: moves_inside moves_trans)

lemma parse_3339_safe:
  assumes "inside p"
  shows "returns (ParseTIMESTAMP3339 t0 p) (\<lambda>(t, q). valid_time t \<and> fraction_read (snd p) (secfrac t) (secfracPrecision t) \<and> advances p q)"
proof -
  have "returns (rbind (parse_secfrac q) (\<lambda>(frac, prec, p).
     rbind (parse_offset p) (\<lambda>(om, oh, omin, p).
     rbind (expect_space p) (\<lambda>p.
     ret (t0 \<lparr> timeType := 2, year := yr, month := mon, day := dy, hour := hr,
            minute := mi, second := sec, secfrac := frac, secfracPrecision := int8 prec,
            OffsetMode := om, OffsetHour := oh, OffsetMinute := omin \<rparr>, p)))))
      (\<lambda>(t, q). valid_time t \<and> fraction_read (snd p) (secfrac t) (secfracPrecision t) \<and> advances p q)"
    if "moves p q" "0 \<le> yr" "yr < 2100" "1 \<le> mon" "mon \<le> 12" "1 \<le> dy" "dy \<le> 31" "0 \<le> hr" "hr \<le> 23"
      "0 \<le> mi" "mi \<le> 59" "0 \<le> sec" "sec \<le> 60" for q yr mon dy hr mi sec
    using that
    by (auto simp: valid_time_def offset_ok_def intro!: returns_rbind [OF parse_secfrac_safe_from [OF assms]]
        returns_rbind [OF parse_offset_safe_from [OF assms]] returns_rbind [OF expect_space_safe_from [OF assms]])
  moreover have "moves p p"
    using assms by (simp add: inside_def moves_refl)
  ultimately show ?thesis
    unfolding ParseTIMESTAMP3339_def
    by (auto intro!: returns_if returns_rbind [OF skip_char_safe_from [OF assms]]
        returns_rbind [OF num_safe_from [OF assms]])
qed

section \<open>Printing and parsing RFC 3164 timestamps\<close>

lemma month_name_parse:
  assumes "1 \<le> m" "m \<le> 12"
  shows "parse_month (monthNames ! nat (m - 1) @ s) = ret (m, s)"
proof -
  have months: "[1..12] = [1, 2, 3, 4, 5, 6, 7, 8, 9, 10, 11, 12 :: int]"
    by code_simp
  have "m \<in> set [1..12]"
    using assms by simp
  then show ?thesis
    unfolding months list.set insert_iff empty_iff
    by (elim disjE FalseE) (simp_all add: monthNames_def parse_month_def month_letter_def)
qed

lemma dig_neq_space [simp]: "0 \<le> d \<Longrightarrow> d \<le> 9 \<Longrightarrow> dig d \<noteq> CHR '' ''"
  using dig_digit(1) [of d] by (auto simp: isdigit_def)

definition day_text :: "int \<Rightarrow> bool \<Rightarrow> char list" where
  "day_text d bBuggyDay = (let iDay = (d sdiv 10) smod 10
     in [if bBuggyDay \<or> 0 < iDay then dig iDay else CHR '' '', dig (d smod 10)])"

lemma day_text_parse:
  assumes "1 \<le> d" "d \<le> 31" "2 \<le> n"
  shows "rbind (optional_space (day_text d b @ CHR '' '' # s, n)) srSLMGParseInt32 = ret (d, CHR '' '' # s, n - 2)"
proof (cases "b \<or> 0 < d div 10 mod 10")
  case True
  then have "day_text d b = digits2 d"
    using assms(1) by (simp add: day_text_def digits2_def pos_imp_zdiv_nonneg_iff)
  moreover have "optional_space (digits2 d @ CHR '' '' # s, n) = ret (digits2 d @ CHR '' '' # s, n)"
    using assms(1) by (simp add: optional_space_def digits2_eq)
  ultimately show ?thesis
    using parse_digits2 [of d n "CHR '' '' # s"] assms by simp
next
  case False
  then have "d div 10 = 0 \<or> d = 10 * (d div 10) + d mod 10 \<and> d div 10 mod 10 = 0"
    using pos_mod_sign [of 10 "d div 10"] by auto
  then have small: "d \<le> 9"
    using assms by (elim disjE) presburger+
  then have "day_text d b = [CHR '' '', dig d]"
    using False assms(1) by (simp add: day_text_def)
  then show ?thesis
    using assms small by (simp add: optional_space_def srSLMGParseInt32_def parse_num_step parse_num_stop
        del: srSLMGParseInt32_loop.simps)
qed

definition text_3164 :: "syslogTime \<Rightarrow> bool \<Rightarrow> char list" where
  "text_3164 ts b = monthNames ! nat (month ts - 1) @ '' '' @ day_text (day ts) b @ '' ''
     @ digits2 (hour ts) @ '':'' @ digits2 (minute ts) @ '':'' @ digits2 (second ts)"

lemma format_3164_text:
  "1 \<le> month ts \<Longrightarrow> month ts \<le> 12 \<Longrightarrow> formatTimestamp3164 ts b = Some (text_3164 ts b @ [NUL], 16)"
  by (simp add: formatTimestamp3164_def text_3164_def day_text_def Let_def)

lemma length_text_3164:
  assumes "1 \<le> month ts" "month ts \<le> 12"
  shows "length (text_3164 ts b) = 15"
proof -
  have "monthNames ! nat (month ts - 1) \<in> set monthNames"
    using assms by (intro nth_mem) (simp add: monthNames_def nat_less_iff)
  moreover have "\<forall>m \<in> set monthNames. length m = 3"
    by (simp add: monthNames_def)
  ultimately have "length (monthNames ! nat (month ts - 1)) = 3"
    by blast
  then show ?thesis
    by (simp add: text_3164_def day_text_def Let_def)
qed

text \<open>The fields an RFC 3164 timestamp carries, set in a given timestamp.\<close>

definition with_3164 :: "syslogTime \<Rightarrow> syslogTime \<Rightarrow> syslogTime" where
  "with_3164 t0 ts = t0 \<lparr> timeType := 1, month := month ts, day := day ts, hour := hour ts, minute := minute ts,
     second := second ts, secfrac := 0, secfracPrecision := 0 \<rparr>"

lemma parse_3164_text:
  assumes v: "valid_time ts" and n: "16 \<le> n" and lead: "leading_year p = ret (yr, text_3164 ts b @ CHR '' '' # s, n)"
    and p: "3 \<le> snd p"
  shows "ParseTIMESTAMP3164 ftz t0 p False False
    = ret (if 0 < yr then (with_3164 t0 ts) \<lparr> year := yr \<rparr> else with_3164 t0 ts, s, n - 16)"
proof -
  have num: "srSLMGParseInt32 (digits2 w @ c # x, k) = ret (w, c # x, k - 2)"
    if "0 \<le> w" "w \<le> 99" "2 \<le> k" "\<not> isdigit c" for w c x k
    using that by (intro parse_digits2) simp_all
  have mon: "parse_month (monthNames ! nat (month ts - 1) @ x) = ret (month ts, x)" for x
    using v by (intro month_name_parse) (simp_all add: valid_time_def)
  have dy: "rbind (optional_space (day_text (day ts) b @ CHR '' '' # x, n - 4)) (\<lambda>p. rbind (srSLMGParseInt32 p) f)
      = f (day ts, CHR '' '' # x, n - 6)" for x and f :: "int \<times> cursor \<Rightarrow> (syslogTime \<times> cursor) res"
  proof -
    have "rbind (rbind m g) f = rbind m (\<lambda>p. rbind (g p) f)" for m :: "cursor res" and g
      by (cases "(m, g)" rule: rbind.cases) auto
    then show ?thesis
      using arg_cong [OF day_text_parse [of "day ts" "n - 4" b x], of "\<lambda>m. rbind m f"] v n
      by (simp add: valid_time_def)
  qed
  show ?thesis
    using v n p unfolding valid_time_def
    by (simp add: ParseTIMESTAMP3164_def lead text_3164_def mon dy num parse_hour_def parse_secfrac_def parse_tz_def
        year_after_time_def optional_colon_def with_3164_def)
qed

lemma leading_year_none: "\<not> isdigit c \<Longrightarrow> leading_year (c # s, n) = ret (0, c # s, n)"
  by (simp add: leading_year_def)

lemma month_name_not_digit:
  assumes "1 \<le> m" "m \<le> 12"
  obtains c r where "monthNames ! nat (m - 1) = c # r" "\<not> isdigit c"
proof -
  have "monthNames ! nat (m - 1) \<in> set monthNames"
    using assms by (intro nth_mem) (simp add: monthNames_def nat_less_iff)
  moreover have "\<forall>w \<in> set monthNames. w \<noteq> [] \<and> \<not> isdigit (hd w)"
    by (simp add: monthNames_def isdigit_def)
  ultimately have "monthNames ! nat (m - 1) \<noteq> []" "\<not> isdigit (hd (monthNames ! nat (m - 1)))"
    by blast+
  then show ?thesis
    by (metis list.exhaust_sel that)
qed

section \<open>Properties\<close>

text \<open>
  C24: Printing a timestamp in RFC 3339 format fits the 32 characters reserved for it, and
  parsing the text, at the end of a message or before a space, gives back every field that
  the format carries: date, time, fraction with its precision, and zone.
\<close>

theorem timestamp3339_roundtrip:
  assumes "valid_time ts" "fraction_ok ts"
  shows "\<exists>out. formatTimestamp3339 ts = Some (out @ [NUL], int (length out)) \<and> length out \<le> 32
    \<and> ParseTIMESTAMP3339 t0 (out, int (length out))
        = ret (ts \<lparr> timeType := 2, wday := wday t0, inUTC := inUTC t0 \<rparr>, [], 0)
    \<and> ParseTIMESTAMP3339 t0 (out @ '' '' @ rest, int (length out + 1 + length rest))
        = ret (ts \<lparr> timeType := 2, wday := wday t0, inUTC := inUTC t0 \<rparr>, rest, int (length rest))"
proof -
  obtain out where 1: "formatTimestamp3339 ts = Some (out @ [NUL], int (length out))" "length out \<le> 32"
    "ParseTIMESTAMP3339 t0 (out @ [], int (length out) + 0)
      = ret (ts \<lparr> timeType := 2, wday := wday t0, inUTC := inUTC t0 \<rparr>, if (0::int) = 0 then ([], 0) else (tl [], 0 - 1))"
    by (rule roundtrip_3339 [OF assms]) (auto intro: that)
  obtain out' where 2: "formatTimestamp3339 ts = Some (out' @ [NUL], int (length out'))" "length out' \<le> 32"
    "ParseTIMESTAMP3339 t0 (out' @ '' '' @ rest, int (length out') + (1 + int (length rest)))
      = ret (ts \<lparr> timeType := 2, wday := wday t0, inUTC := inUTC t0 \<rparr>,
          if 1 + int (length rest) = 0 then ('' '' @ rest, 0) else (tl ('' '' @ rest), 1 + int (length rest) - 1))"
    by (rule roundtrip_3339 [OF assms, of "1 + int (length rest)" "'' '' @ rest" t0]) (auto intro: that)
  have "out' = out"
    using 1(1) 2(1) by simp
  then show ?thesis
    using 1 2(3) by (intro exI [of _ out]) (simp add: ac_simps)
qed

definition demo_time :: syslogTime where
  "demo_time = \<lparr> timeType = 2, month = 2, day = 29, wday = 4, hour = 23, minute = 59, second = 58,
     secfracPrecision = 3, OffsetMinute = 30, OffsetHour = 5, OffsetMode = CHR ''+'', year = 2024, secfrac = 7, inUTC = 0 \<rparr>"

lemma demo_time_valid: "valid_time demo_time" "fraction_ok demo_time"
  by (simp_all add: demo_time_def valid_time_def fraction_ok_def)

theorem timestamp3339_roundtrip_witness:
  "\<exists>out. formatTimestamp3339 demo_time = Some (out @ [NUL], int (length out)) \<and> length out \<le> 32
    \<and> ParseTIMESTAMP3339 demo_time (out, int (length out)) = ret (demo_time, [], 0)"
proof -
  have "demo_time \<lparr> timeType := 2, wday := wday demo_time, inUTC := inUTC demo_time \<rparr> = demo_time"
    by (simp add: demo_time_def)
  then show ?thesis
    using timestamp3339_roundtrip [OF demo_time_valid, of demo_time "[]"] by auto
qed


lemma demo_text_no_overflow: "no_int_overflow (first_word ''2024-02-29T10:00:00.250Z'')"
proof -
  have "list_all (\<lambda>i. \<not> list_all isdigit (take 10 (drop i ''2024-02-29T10:00:00.250Z''))) [0..<15]"
    by code_simp
  then have "no_int_overflow ''2024-02-29T10:00:00.250Z''"
    by (intro no_int_overflow_short) (simp add: list_all_iff)
  moreover have "first_word ''2024-02-29T10:00:00.250Z'' = ''2024-02-29T10:00:00.250Z''"
    by (simp add: first_word_def)
  ultimately show ?thesis
    by simp
qed


text \<open>
  Printing a timestamp in RFC 3164 format, with a blank or a zero before a one-digit day,
  and parsing it gives month, day and time back; the fields the format does not carry keep the
  values of the timestamp that was passed in.
\<close>

theorem timestamp3164_roundtrip:
  assumes "valid_time ts"
  shows "\<exists>out. formatTimestamp3164 ts bBuggyDay = Some (out @ [NUL], 16) \<and> length out = 15
    \<and> ParseTIMESTAMP3164 ftz t0 (out @ '' '' @ rest, int (length out + 1 + length rest)) False False
        = ret (t0 \<lparr> timeType := 1, month := month ts, day := day ts, hour := hour ts, minute := minute ts,
            second := second ts, secfrac := 0, secfracPrecision := 0 \<rparr>, rest, int (length rest))"
proof -
  have m: "1 \<le> month ts" "month ts \<le> 12"
    using assms by (simp_all add: valid_time_def)
  let ?p = "(text_3164 ts bBuggyDay @ CHR '' '' # rest, 16 + int (length rest))"
  have lead: "leading_year ?p = ret (0, text_3164 ts bBuggyDay @ CHR '' '' # rest, 16 + int (length rest))"
    by (rule month_name_not_digit [OF m]) (simp add: text_3164_def leading_year_none)
  show ?thesis
    using format_3164_text [OF m] length_text_3164 [OF m] parse_3164_text [OF assms _ lead, of ftz t0]
    by (intro exI [of _ "text_3164 ts bBuggyDay"]) (simp add: with_3164_def)
qed

theorem timestamp3164_roundtrip_witness:
  "\<exists>out. formatTimestamp3164 demo_time False = Some (out @ [NUL], 16) \<and> length out = 15
    \<and> (\<exists>t. ParseTIMESTAMP3164 (\<lambda>_. None) demo_time (out @ '' '' @ ''host'', int (length out + 1 + length ''host'')) False False
        = ret (t, ''host'', int (length ''host'')))"
  using timestamp3164_roundtrip [OF demo_time_valid(1), of False "\<lambda>_. None" demo_time "''host''"] by blast

text \<open>
  C29: With a year in front of the timestamp the remaining length returned is one more than the
  number of characters left: the blank after the year is skipped without being counted.
\<close>

theorem leading_year_length:
  assumes "valid_time ts" "1970 \<le> y" "y \<le> 2100"
  shows "\<exists>out. formatTimestamp3164 ts bBuggyDay = Some (out @ [NUL], 16)
    \<and> ParseTIMESTAMP3164 ftz t0 (digits4 y @ '' '' @ out @ '' '' @ rest, int (4 + 1 + length out + 1 + length rest)) False False
        = ret (t0 \<lparr> timeType := 1, month := month ts, day := day ts, hour := hour ts, minute := minute ts,
            second := second ts, secfrac := 0, secfracPrecision := 0, year := y \<rparr>, rest, int (length rest) + 1)"
proof -
  have m: "1 \<le> month ts" "month ts \<le> 12"
    using assms by (simp_all add: valid_time_def)
  let ?s = "text_3164 ts bBuggyDay @ CHR '' '' # rest"
  let ?p = "(digits4 y @ CHR '' '' # ?s, 21 + int (length rest))"
  have d: "digits4 y = dig (y div 1000 mod 10) # drop 1 (digits4 y)" "isdigit (dig (y div 1000 mod 10))"
    using assms(2) mod10_range [of "y div 1000"] by (simp_all add: digits4_eq)
  have "srSLMGParseInt32 ?p = ret (y, CHR '' '' # ?s, 17 + int (length rest))"
    using parse_digits4 [of y "21 + int (length rest)" "CHR '' '' # ?s"] assms(2,3) by simp
  then have lead: "leading_year ?p = ret (y, ?s, 17 + int (length rest))"
    using d(2) assms(2,3) unfolding leading_year_def fst_conv snd_conv by (subst d(1)) simp
  show ?thesis
    using format_3164_text [OF m] length_text_3164 [OF m] parse_3164_text [OF assms(1) _ lead, of ftz t0] assms(2)
    by (intro exI [of _ "text_3164 ts bBuggyDay"]) (simp add: with_3164_def)
qed

theorem leading_year_length_witness:
  "\<exists>out t. ParseTIMESTAMP3164 (\<lambda>_. None) demo_time
      (digits4 2024 @ '' '' @ out @ '' '' @ ''host'', int (4 + 1 + length out + 1 + length ''host'')) False False
    = ret (t, ''host'', int (length ''host'') + 1)"
  using leading_year_length [OF demo_time_valid(1), of 2024 False "\<lambda>_. None" demo_time "''host''"] by fastforce

end
