(* ===== verification/Datetime_Calendar.thy ===== *)
theory Datetime_Calendar
imports Datetime
begin

text \<open>
  The calendar routines of \<^verbatim>\<open>runtime/datetime.c\<close>: conversion between broken-down time and
  seconds since the epoch, day of the week, day of the year and the two week numbers. Their
  specification is the proleptic Gregorian calendar, stated independently of the tables.
\<close>

section \<open>Tables\<close>

definition yearInSec_startYear :: int where
  "yearInSec_startYear = 1967"

definition yearInSecs :: "int list" where
  "yearInSecs = [- 63158401, - 31536001, - 1, 31535999, 63071999, 94694399, 126230399, 157766399, 189302399,
    220924799, 252460799, 283996799, 315532799, 347155199, 378691199, 410227199, 441763199,
    473385599, 504921599, 536457599, 567993599, 599615999, 631151999, 662687999, 694223999,
    725846399, 757382399, 788918399, 820454399, 852076799, 883612799, 915148799, 946684799,
    978307199, 1009843199, 1041379199, 1072915199, 1104537599, 1136073599, 1167609599, 1199145599,
    1230767999, 1262303999, 1293839999, 1325375999, 1356998399, 1388534399, 1420070399, 1451606399,
    1483228799, 1514764799, 1546300799, 1577836799, 1609459199, 1640995199, 1672531199, 1704067199,
    1735689599, 1767225599, 1798761599, 1830297599, 1861919999, 1893455999, 1924991999, 1956527999,
    1988150399, 2019686399, 2051222399, 2082758399, 2114380799, 2145916799, 2177452799, 2208988799,
    2240611199, 2272147199, 2303683199, 2335219199, 2366841599, 2398377599, 2429913599, 2461449599,
    2493071999, 2524607999, 2556143999, 2587679999, 2619302399, 2650838399, 2682374399, 2713910399,
    2745532799, 2777068799, 2808604799, 2840140799, 2871763199, 2903299199, 2934835199, 2966371199,
    2997993599, 3029529599, 3061065599, 3092601599, 3124223999, 3155759999, 3187295999, 3218831999,
    3250454399, 3281990399, 3313526399, 3345062399, 3376684799, 3408220799, 3439756799, 3471292799,
    3502915199, 3534451199, 3565987199, 3597523199, 3629145599, 3660681599, 3692217599, 3723753599,
    3755375999, 3786911999, 3818447999, 3849983999, 3881606399, 3913142399, 3944678399, 3976214399,
    4007836799, 4039372799, 4070908799, 4102444799]"

definition weeksInYear :: "int list" where
  "weeksInYear = [52, 53, 52, 52, 52, 52, 52, 53, 52, 52, 52, 52, 53, 52, 52, 52, 52, 52, 53, 52, 52, 52, 52, 53,
    52, 52, 52, 52, 52, 53, 52, 52, 52, 52, 52, 53, 52, 52, 52, 52, 53, 52, 52, 52, 52, 52, 53, 52,
    52, 52, 52, 53, 52, 52, 52, 52, 52, 53, 52, 52, 52, 52, 52, 53, 52, 52, 52, 52, 53, 52, 52, 52,
    52, 52, 53, 52, 52, 52, 52, 53, 52, 52, 52, 52, 52, 53, 52, 52, 52, 52, 52, 53, 52, 52, 52, 52,
    53, 52, 52, 52, 52, 52, 53, 52, 52, 52, 52, 53, 52, 52, 52, 52, 52, 53, 52, 52, 52, 52, 52, 53,
    52, 52, 52, 52, 53, 52, 52, 52, 52, 52, 53, 52]"

section \<open>Seconds since the epoch\<close>

definition month_in_days :: "int \<Rightarrow> int" where
  "month_in_days m =
     (if m = 1 then 0 else if m = 2 then 31 else if m = 3 then 59 else if m = 4 then 90
      else if m = 5 then 120 else if m = 6 then 151 else if m = 7 then 181 else if m = 8 then 212
      else if m = 9 then 243 else if m = 10 then 273 else if m = 11 then 304 else if m = 12 then 334
      else 0)"

definition syslogTime2time_t :: "syslogTime \<Rightarrow> int" where
  "syslogTime2time_t ts =
     (if year ts < 1970 \<or> 2100 < year ts then 0
      else
       let MonthInDays = month_in_days (month ts);
           MonthInDays = (if (year ts smod 100 \<noteq> 0 \<and> year ts smod 4 = 0 \<or> year ts = 2000) \<and> 2 < month ts
                          then MonthInDays + 1 else MonthInDays);
           NumberOfYears = year ts - yearInSec_startYear - 1;
           NumberOfDays = MonthInDays + day ts - 1;
           t = (yearInSecs ! nat NumberOfYears + 1) + NumberOfDays * 86400;
           t = t + hour ts * 60 * 60;
           t = t + minute ts * 60;
           t = t + second ts;
           utcOffset = OffsetHour ts * 3600 + OffsetMinute ts * 60;
           utcOffset = (if OffsetMode ts = CHR ''+'' then - utcOffset else utcOffset)
       in t + utcOffset)"

text \<open>
  The C library's \<^verbatim>\<open>struct tm\<close> and \<^verbatim>\<open>gmtime_r\<close>. The local time zone is data of the system:
  where the source calls \<^verbatim>\<open>localtime_r\<close>, the model has a parameter.
\<close>

record tm =
  tm_sec :: int
  tm_min :: int
  tm_hour :: int
  tm_mday :: int
  tm_mon :: int
  tm_year :: int
  tm_wday :: int
  tm_gmtoff :: int

definition leap :: "int \<Rightarrow> bool" where
  "leap y \<longleftrightarrow> y mod 4 = 0 \<and> y mod 100 \<noteq> 0 \<or> y mod 400 = 0"

definition year_len :: "int \<Rightarrow> int" where
  "year_len y = (if leap y then 366 else 365)"

definition month_len :: "int \<Rightarrow> int \<Rightarrow> int" where
  "month_len y m = (if m = 2 then if leap y then 29 else 28
     else if m = 4 \<or> m = 6 \<or> m = 9 \<or> m = 11 then 30 else 31)"

function year_from :: "int \<Rightarrow> int \<Rightarrow> int \<times> int" where
  "year_from y d =
     (if d < 0 then year_from (y - 1) (d + year_len (y - 1))
      else if year_len y \<le> d then year_from (y + 1) (d - year_len y)
      else (y, d))"
  by pat_completeness auto
termination
  by (relation "measure (\<lambda>(y, d). if d < 0 then nat (400 - d) else nat d)") (auto simp: year_len_def split: if_splits)

fun month_from :: "int \<Rightarrow> int \<Rightarrow> nat \<Rightarrow> int \<Rightarrow> int \<times> int" where
  "month_from y m 0 d = (m, d)"
| "month_from y m (Suc k) d = (if d < month_len y m then (m, d) else month_from y (m + 1) k (d - month_len y m))"

definition gmtime_tm :: "int \<Rightarrow> tm" where
  "gmtime_tm t =
     (let days = t div 86400; s = t mod 86400; (y, d) = year_from 1970 days; (m, d) = month_from y 1 11 d
      in \<lparr> tm_sec = s mod 60, tm_min = s div 60 mod 60, tm_hour = s div 3600, tm_mday = d + 1, tm_mon = m - 1,
           tm_year = y - 1900, tm_wday = (days + 4) mod 7, tm_gmtoff = 0 \<rparr>)"

text \<open>\<^verbatim>\<open>gmtime_r\<close> fails when the year does not fit an \<^verbatim>\<open>int\<close>.\<close>

definition gmtime_r :: "int \<Rightarrow> tm option" where
  "gmtime_r t = (let tm = gmtime_tm t in if - (2 ^ 31) \<le> tm_year tm \<and> tm_year tm < 2 ^ 31 then Some tm else None)"

definition timeval2syslogTime :: "(int \<Rightarrow> tm option) \<Rightarrow> int \<Rightarrow> int \<Rightarrow> bool \<Rightarrow> syslogTime option" where
  "timeval2syslogTime localtime_r tv_sec tv_usec inutc = do {
     tm \<leftarrow> (if inutc then gmtime_r tv_sec else localtime_r tv_sec);
     let lBias = (if inutc then 0 else tm_gmtoff tm);
     let mode = (if lBias < 0 then CHR ''-'' else CHR ''+'');
     let lBias = \<bar>lBias\<bar>;
     Some \<lparr> timeType = 2, month = int8 (tm_mon tm + 1), day = int8 (tm_mday tm), wday = int8 (tm_wday tm),
           hour = int8 (tm_hour tm), minute = int8 (tm_min tm), second = int8 (tm_sec tm), secfracPrecision = 6,
           OffsetMinute = int8 ((lBias mod 3600) div 60), OffsetHour = int8 (lBias div 3600), OffsetMode = mode,
           year = int16 (tm_year tm + 1900), secfrac = int32 tv_usec, inUTC = (if inutc then 1 else 0) \<rparr> }"

definition timeConvertToUTC :: "syslogTime \<Rightarrow> syslogTime option" where
  "timeConvertToUTC local = timeval2syslogTime gmtime_r (syslogTime2time_t local) (secfrac local) True"

definition syslogTime2time_tLocalTZ :: "(int \<Rightarrow> tm option) \<Rightarrow> int \<Rightarrow> syslogTime \<Rightarrow> int" where
  "syslogTime2time_tLocalTZ localtime_r currtime ts =
     (if timeType ts = 2 \<or> OffsetMode ts = CHR ''+'' \<or> OffsetMode ts = CHR ''-'' then syslogTime2time_t ts
      else case localtime_r currtime of
        Some tm \<Rightarrow> syslogTime2time_t ts - tm_gmtoff tm
      | None \<Rightarrow> syslogTime2time_t ts)"

text \<open>What \<^verbatim>\<open>snprintf\<close> makes of the conversions \<^verbatim>\<open>%u\<close>, \<^verbatim>\<open>%d\<close>, \<^verbatim>\<open>%2d\<close> and \<^verbatim>\<open>%.2d\<close>, and of its size argument.\<close>

fun show_nat :: "nat \<Rightarrow> char list" where
  "show_nat n = (if n < 10 then [dig (int n)] else show_nat (n div 10) @ [dig (int (n mod 10))])"

definition show_int :: "int \<Rightarrow> char list" where
  "show_int x = (if x < 0 then CHR ''-'' # show_nat (nat (- x)) else show_nat (nat x))"

definition pad_left :: "char \<Rightarrow> char list \<Rightarrow> char list" where
  "pad_left c s = replicate (2 - length s) c @ s"

definition snprintf :: "nat \<Rightarrow> char list \<Rightarrow> char list" where
  "snprintf n s = take (n - 1) s"

definition formatTimestampUnix :: "syslogTime \<Rightarrow> char list \<times> int" where
  "formatTimestampUnix ts = (snprintf 11 (show_nat (nat (syslogTime2time_t ts mod 2 ^ 32))) @ [NUL], 11)"

definition formatUnixTimeFromTime_t :: "int \<Rightarrow> char list \<Rightarrow> char list \<Rightarrow> nat \<Rightarrow> char list \<times> int" where
  "formatUnixTimeFromTime_t unixtime format pBuf pBufMax =
     (case gmtime_r unixtime of
        None \<Rightarrow> (pBuf, - 1)
      | Some lt \<Rightarrow>
          let out = (if format = ''date-rfc3164''
                then snprintf pBufMax (monthNames ! nat (tm_mon lt) @ '' '' @ pad_left CHR '' '' (show_int (tm_mday lt)) @ '' ''
                  @ pad_left CHR ''0'' (show_int (tm_hour lt)) @ '':'' @ pad_left CHR ''0'' (show_int (tm_min lt)) @ '':''
                  @ pad_left CHR ''0'' (show_int (tm_sec lt)))
                else if format = ''date-rfc3339''
                then snprintf pBufMax (show_int (tm_year lt + 1900) @ ''-'' @ pad_left CHR ''0'' (show_int (tm_mon lt + 1)) @ ''-''
                  @ pad_left CHR ''0'' (show_int (tm_mday lt)) @ ''T'' @ pad_left CHR ''0'' (show_int (tm_hour lt)) @ '':''
                  @ pad_left CHR ''0'' (show_int (tm_min lt)) @ '':'' @ pad_left CHR ''0'' (show_int (tm_sec lt)) @ ''Z'')
                else pBuf)
          in if format = ''date-rfc3164'' \<and> (tm_mon lt < 0 \<or> 11 < tm_mon lt) then (pBuf, - 1) else (out, int (length out)))"

section \<open>Days and weeks\<close>

definition getWeekdayNbr :: "syslogTime \<Rightarrow> int" where
  "getWeekdayNbr ts =
     (let (g, f) = (if month ts < 3 then (year ts - 1, month ts + 13) else (year ts, month ts + 1));
          w = ((36525 * g) sdiv 100) + ((306 * f) sdiv 10) + day ts - 621049
      in w smod 7)"

definition getOrdinal :: "syslogTime \<Rightarrow> int" where
  "getOrdinal ts =
     (if year ts < 1970 \<or> 2100 < year ts then 0
      else
       let thistime = syslogTime2time_t ts;
           previousyears = yearInSecs ! nat (year ts - yearInSec_startYear - 1);
           utcOffset = OffsetHour ts * 3600 + OffsetMinute ts * 60;
           utcOffset = (if OffsetMode ts = CHR ''+'' then utcOffset + - 1 else utcOffset);
           previousyears = previousyears + utcOffset;
           seconds_into_year = thistime - previousyears
       in seconds_into_year sdiv 86400)"

definition getWeek :: "syslogTime \<Rightarrow> int" where
  "getWeek ts =
     (let yt = ts \<lparr> month := 1, day := 1, hour := 0, minute := 0, second := 0, secfracPrecision := 0, secfrac := 0,
                timeType := 1 \<rparr>;
          curYearDay = getOrdinal ts;
          curDow = getWeekdayNbr ts;
          jan1Dow = getWeekdayNbr yt;
          weekNum = (curYearDay + 6) sdiv 7
      in if curDow < jan1Dow then weekNum + 1 else weekNum)"

definition getISOWeek :: "syslogTime \<Rightarrow> (int \<times> int) option" where
  "getISOWeek ts =
     (let curYearDay = getOrdinal ts;
          curDow = getWeekdayNbr ts;
          curDow = (if curDow = 0 then 7 else curDow);
          curYearDay = curYearDay + 1;
          weekNum = (10 + curYearDay - curDow) sdiv 7
      in if weekNum = 0
         then do { w \<leftarrow> arr weeksInYear (year ts - 1 - 1969); Some (w, year ts - 1) }
         else do { w \<leftarrow> arr weeksInYear (year ts - 1969);
                if w < weekNum then Some (1, year ts + 1) else Some (weekNum, year ts) })"

section \<open>The Gregorian calendar\<close>

text \<open>Days from 1970-01-01 to the first of January of a year, to the first of a month, to a date.\<close>

definition days_before_year :: "int \<Rightarrow> int" where
  "days_before_year y = 365 * (y - 1970) + ((y - 1) div 4 - (y - 1) div 100 + (y - 1) div 400) - 477"

definition days_before_month :: "int \<Rightarrow> int \<Rightarrow> int" where
  "days_before_month y m = sum_list (map (month_len y) [1..m - 1])"

definition epoch_day :: "int \<Rightarrow> int \<Rightarrow> int \<Rightarrow> int" where
  "epoch_day y m d = days_before_year y + days_before_month y m + d - 1"

definition time_of_day :: "syslogTime \<Rightarrow> int" where
  "time_of_day ts = 3600 * hour ts + 60 * minute ts + second ts"

text \<open>Minutes east of Greenwich, in seconds.\<close>

definition zone_offset :: "syslogTime \<Rightarrow> int" where
  "zone_offset ts = (if OffsetMode ts = CHR ''+'' then 1 else - 1) * (3600 * OffsetHour ts + 60 * OffsetMinute ts)"

lemma div_pred: "0 < n \<Longrightarrow> y div n = (y - 1) div n + (if y mod n = 0 then 1 else 0)" for n y :: int
proof (cases "y mod n = 0")
  case True
  assume n: "0 < n"
  from True obtain k where "y = n * k"
    by auto
  moreover have "(n * k - 1) div n = k - 1"
    using n by (intro int_div_pos_eq [of _ _ _ "n - 1"]) (simp_all add: algebra_simps)
  ultimately show ?thesis
    using True n by simp
next
  case False
  assume n: "0 < n"
  have "(y - 1) div n = y div n"
    using n False pos_mod_bound [OF n, of y] pos_mod_sign [OF n, of y]
    by (intro int_div_pos_eq [of _ _ _ "y mod n - 1"]) (simp_all add: algebra_simps minus_mod_eq_mult_div)
  then show ?thesis
    using False by simp
qed

lemma year_len_leaps:
  "year_len y = 365 + (if y mod 4 = 0 then 1 else 0) - (if y mod 100 = 0 then 1 else 0) + (if y mod 400 = 0 then 1 else 0)"
proof -
  have "4 dvd y" if "100 dvd y"
    using that by (rule dvd_trans [rotated]) simp
  moreover have "100 dvd y" if "400 dvd y"
    using that by (rule dvd_trans [rotated]) simp
  ultimately show ?thesis
    by (auto simp: year_len_def leap_def mod_eq_0_iff_dvd)
qed

lemma days_before_year_Suc: "days_before_year (y + 1) = days_before_year y + year_len y"
proof -
  have sum: "365 * (y + 1 - 1970) + (p4 + b4 - (p100 + b100) + (p400 + b400)) - 477
      = 365 * (y - 1970) + (p4 - p100 + p400) - 477 + (365 + b4 - b100 + b400)" for p4 b4 p100 b100 p400 b400 :: int
    by simp
  show ?thesis
    unfolding days_before_year_def year_len_leaps add_diff_cancel_right'
      div_pred [of 4 y, simplified] div_pred [of 100 y, simplified] div_pred [of 400 y, simplified]
    by (rule sum)
qed

lemma year_table:
  assumes "1968 \<le> y" "y \<le> 2100"
  shows "yearInSecs ! nat (y - 1968) + 1 = 86400 * days_before_year y"
proof -
  have "list_all (\<lambda>i. yearInSecs ! i + 1 = 86400 * days_before_year (int i + 1968)) [0..<133]"
    by code_simp
  then have "yearInSecs ! nat (y - 1968) + 1 = 86400 * days_before_year (int (nat (y - 1968)) + 1968)"
    using assms by (simp only: list_all_iff set_upt) (drule bspec [of _ _ "nat (y - 1968)"], auto simp: nat_less_iff)
  then show ?thesis
    using assms by simp
qed

lemma days_before_month_1 [simp]: "days_before_month y 1 = 0"
  by (simp add: days_before_month_def)

lemma days_before_month_Suc: "1 \<le> m \<Longrightarrow> days_before_month y (m + 1) = days_before_month y m + month_len y m"
  by (simp add: days_before_month_def upto_rec2)

lemma days_before_months:
  "days_before_month y 2 = 31" "days_before_month y 3 = 59 + (if leap y then 1 else 0)"
  "days_before_month y 4 = 90 + (if leap y then 1 else 0)" "days_before_month y 5 = 120 + (if leap y then 1 else 0)"
  "days_before_month y 6 = 151 + (if leap y then 1 else 0)" "days_before_month y 7 = 181 + (if leap y then 1 else 0)"
  "days_before_month y 8 = 212 + (if leap y then 1 else 0)" "days_before_month y 9 = 243 + (if leap y then 1 else 0)"
  "days_before_month y 10 = 273 + (if leap y then 1 else 0)" "days_before_month y 11 = 304 + (if leap y then 1 else 0)"
  "days_before_month y 12 = 334 + (if leap y then 1 else 0)" "days_before_month y 13 = year_len y"
  using days_before_month_Suc [of 1 y] days_before_month_Suc [of 2 y] days_before_month_Suc [of 3 y]
    days_before_month_Suc [of 4 y] days_before_month_Suc [of 5 y] days_before_month_Suc [of 6 y]
    days_before_month_Suc [of 7 y] days_before_month_Suc [of 8 y] days_before_month_Suc [of 9 y]
    days_before_month_Suc [of 10 y] days_before_month_Suc [of 11 y] days_before_month_Suc [of 12 y]
  by (simp_all add: month_len_def year_len_def)

lemma month_cases:
  fixes m :: int
  assumes "1 \<le> m" "m \<le> 12"
  shows "m = 1 \<or> m = 2 \<or> m = 3 \<or> m = 4 \<or> m = 5 \<or> m = 6 \<or> m = 7 \<or> m = 8 \<or> m = 9 \<or> m = 10 \<or> m = 11 \<or> m = 12"
proof -
  have months: "[1..12] = [1, 2, 3, 4, 5, 6, 7, 8, 9, 10, 11, 12 :: int]"
    by code_simp
  have "m \<in> set [1..12]"
    using assms by simp
  then show ?thesis
    unfolding months by simp
qed

lemma month_table:
  "1 \<le> m \<Longrightarrow> m \<le> 12 \<Longrightarrow> days_before_month y m = month_in_days m + (if leap y \<and> 2 < m then 1 else 0)"
  by (drule (1) month_cases) (elim disjE, simp_all add: days_before_months month_in_days_def)

lemma leap_source:
  assumes "1970 \<le> y" "y \<le> 2100"
  shows "(y smod 100 \<noteq> 0 \<and> y smod 4 = 0 \<or> y = 2000) \<longleftrightarrow> leap y"
proof -
  have "y = 2000" if "400 dvd y"
    using that assms by (elim dvdE) auto
  moreover have "y smod 100 = y mod 100" "y smod 4 = y mod 4"
    using assms by simp_all
  ultimately show ?thesis
    by (auto simp: leap_def mod_eq_0_iff_dvd)
qed

lemma time_t_eq:
  assumes "1970 \<le> year ts" "year ts \<le> 2100" "1 \<le> month ts" "month ts \<le> 12"
  shows "syslogTime2time_t ts = 86400 * epoch_day (year ts) (month ts) (day ts) + time_of_day ts - zone_offset ts"
proof -
  let ?b = "(year ts smod 100 \<noteq> 0 \<and> year ts smod 4 = 0 \<or> year ts = 2000) \<and> 2 < month ts"
  have m: "(if ?b then month_in_days (month ts) + 1 else month_in_days (month ts)) = days_before_month (year ts) (month ts)"
    using month_table [OF assms(3,4), of "year ts"] leap_source [OF assms(1,2)] by auto
  have y: "yearInSecs ! nat (year ts - yearInSec_startYear - 1) + 1 = 86400 * days_before_year (year ts)"
    using year_table [of "year ts"] assms(1,2) by (simp add: yearInSec_startYear_def)
  show ?thesis
    unfolding syslogTime2time_t_def Let_def m y
    using assms(1,2) by (simp add: epoch_day_def time_of_day_def zone_offset_def algebra_simps)
qed

text \<open>The day count behind \<^const>\<open>getWeekdayNbr\<close>, compared with the calendar month by month.\<close>

definition weekday_count :: "int \<Rightarrow> int \<Rightarrow> int" where
  "weekday_count y m = (let (g, f) = (if m < 3 then (y - 1, m + 13) else (y, m + 1))
     in (36525 * g) div 100 + (306 * f) div 10 - 621049)"

lemma weekday_table:
  "list_all (\<lambda>y. list_all (\<lambda>m. (weekday_count y m - days_before_year y - days_before_month y m - 3) mod 7 = 0)
     [1..12]) [1970..2099]"
  by code_simp

lemma weekday_count_bound:
  assumes "1970 \<le> y" "1 \<le> m"
  shows "0 \<le> weekday_count y m"
proof -
  have "36525 * 1969 div 100 \<le> 36525 * (if m < 3 then y - 1 else y) div (100 :: int)"
    using assms by (intro zdiv_mono1) auto
  moreover have "0 \<le> 306 * (if m < 3 then m + 13 else m + 1) div (10 :: int)"
    using assms by (simp add: pos_imp_zdiv_nonneg_iff)
  ultimately show ?thesis
    by (simp add: weekday_count_def split: if_splits)
qed

lemma weekday_eq:
  assumes "1970 \<le> year ts" "year ts < 2100" "1 \<le> month ts" "month ts \<le> 12" "1 \<le> day ts"
  shows "getWeekdayNbr ts = (epoch_day (year ts) (month ts) (day ts) + 4) mod 7"
proof -
  let ?w = "weekday_count (year ts) (month ts)"
  obtain g f where gf: "(if month ts < 3 then (year ts - 1, month ts + 13) else (year ts, month ts + 1)) = (g, f)"
      "0 \<le> g" "0 \<le> f"
    using assms by (cases "month ts < 3") auto
  have d: "36525 * g sdiv 100 = 36525 * g div 100" "306 * f sdiv 10 = 306 * f div 10"
    using gf(2,3) by (intro sdiv_nonneg; simp)+
  have swap: "a + b + c - k = a + b - k + c" for a b c k :: int
    by simp
  have "getWeekdayNbr ts = (?w + day ts) smod 7"
    unfolding getWeekdayNbr_def weekday_count_def Let_def gf(1) prod.case d swap ..
  also have "\<dots> = (?w + day ts) mod 7"
    using weekday_count_bound [OF assms(1,3)] assms(5) by simp
  finally have 1: "getWeekdayNbr ts = (?w + day ts) mod 7" .
  have "(?w - days_before_year (year ts) - days_before_month (year ts) (month ts) - 3) mod 7 = 0"
    using weekday_table assms(1-4) unfolding list_all_iff set_upto by fastforce
  then have "7 dvd (?w + day ts) - (epoch_day (year ts) (month ts) (day ts) + 4)"
    by (simp add: epoch_day_def algebra_simps mod_eq_0_iff_dvd)
  then show ?thesis
    unfolding 1 by (simp only: mod_eq_dvd_iff)
qed

text \<open>
  How far the time of day is off when the day of the year is computed: by a second, as the count
  starts at the last second of the previous year, and in a zone ahead of UTC by another
  second and by twice the offset.
\<close>

definition day_slip :: "syslogTime \<Rightarrow> int" where
  "day_slip ts = (if OffsetMode ts = CHR ''+'' then 2 - 2 * zone_offset ts else 1)"

lemma ordinal_eq:
  assumes "1970 \<le> year ts" "year ts \<le> 2100" "1 \<le> month ts" "month ts \<le> 12"
  shows "getOrdinal ts = (86400 * (days_before_month (year ts) (month ts) + day ts - 1) + (time_of_day ts + day_slip ts)) sdiv 86400"
proof -
  have y: "yearInSecs ! nat (year ts - yearInSec_startYear - 1) = 86400 * days_before_year (year ts) - 1"
    using year_table [of "year ts"] assms(1,2) by (simp add: yearInSec_startYear_def)
  show ?thesis
    unfolding getOrdinal_def Let_def y time_t_eq [OF assms]
    using assms(1,2) by (simp add: epoch_day_def zone_offset_def day_slip_def algebra_simps)
qed

lemma year_from_spec:
  "year_from y d = (y', d') \<Longrightarrow> days_before_year y' + d' = days_before_year y + d \<and> 0 \<le> d' \<and> d' < year_len y'"
proof (induction y d rule: year_from.induct)
  case (1 y d)
  then show ?case
    using days_before_year_Suc [of "y - 1"] days_before_year_Suc [of y]
    by (subst (asm) (3) year_from.simps) (auto split: if_splits simp del: year_from.simps)
qed

lemma month_from_spec:
  "month_from y m k d = (m', d') \<Longrightarrow> 1 \<le> m \<Longrightarrow> m + int k = 12 \<Longrightarrow> 0 \<le> d
    \<Longrightarrow> d < days_before_month y 13 - days_before_month y m
    \<Longrightarrow> days_before_month y m' + d' = days_before_month y m + d \<and> 0 \<le> d' \<and> d' < month_len y m' \<and> m \<le> m' \<and> m' \<le> 12"
proof (induction y m k d rule: month_from.induct)
  case (1 y m d)
  then show ?case
    using days_before_month_Suc [of 12 y] by simp
next
  case (2 y m k d)
  then show ?case
    using days_before_month_Suc [of m y] by (auto split: if_splits)
qed

lemma year_len_pos: "365 \<le> year_len y" "year_len y \<le> 366"
  by (simp_all add: year_len_def)

lemma days_before_year_mono: "a \<le> b \<Longrightarrow> days_before_year a \<le> days_before_year b"
proof (induction rule: int_ge_induct)
  case (step i)
  then show ?case
    using days_before_year_Suc [of i] year_len_pos [of i] by simp
qed simp

lemma gmtime_spec:
  assumes "gmtime_tm t = tm"
  shows "epoch_day (tm_year tm + 1900) (tm_mon tm + 1) (tm_mday tm) = t div 86400"
    "0 \<le> tm_mon tm" "tm_mon tm \<le> 11" "1 \<le> tm_mday tm" "tm_mday tm \<le> 31"
    "3600 * tm_hour tm + 60 * tm_min tm + tm_sec tm = t mod 86400"
    "0 \<le> tm_hour tm" "tm_hour tm \<le> 23" "0 \<le> tm_min tm" "tm_min tm \<le> 59" "0 \<le> tm_sec tm" "tm_sec tm \<le> 59"
    "days_before_year (tm_year tm + 1900) \<le> t div 86400" "t div 86400 < days_before_year (tm_year tm + 1901)"
proof -
  obtain y d where y: "year_from 1970 (t div 86400) = (y, d)"
    by fastforce
  obtain m d' where m: "month_from y 1 11 d = (m, d')"
    by fastforce
  have e70: "days_before_year 1970 = 0"
    by (simp add: days_before_year_def)
  note Y = year_from_spec [OF y, unfolded e70]
  have M: "days_before_month y m + d' = d \<and> 0 \<le> d' \<and> d' < month_len y m \<and> 1 \<le> m \<and> m \<le> 12"
    using month_from_spec [OF m] Y days_before_months(12) [of y] by simp
  have tm: "tm = \<lparr> tm_sec = t mod 86400 mod 60, tm_min = t mod 86400 div 60 mod 60, tm_hour = t mod 86400 div 3600,
      tm_mday = d' + 1, tm_mon = m - 1, tm_year = y - 1900, tm_wday = (t div 86400 + 4) mod 7, tm_gmtoff = 0 \<rparr>"
    using assms unfolding gmtime_tm_def Let_def y prod.case m by (rule sym)
  show "epoch_day (tm_year tm + 1900) (tm_mon tm + 1) (tm_mday tm) = t div 86400"
    using Y M by (simp add: tm epoch_day_def)
  show "0 \<le> tm_mon tm" "tm_mon tm \<le> 11" "1 \<le> tm_mday tm" "tm_mday tm \<le> 31"
    using M by (auto simp: tm month_len_def split: if_splits)
  have "t mod 86400 div 3600 = t mod 86400 div 60 div 60"
    by (simp add: zdiv_zmult2_eq [symmetric])
  moreover have "t mod 86400 div 60 = 60 * (t mod 86400 div 60 div 60) + t mod 86400 div 60 mod 60"
    "t mod 86400 = 60 * (t mod 86400 div 60) + t mod 86400 mod 60"
    by (rule mult_div_mod_eq [symmetric])+
  ultimately show "3600 * tm_hour tm + 60 * tm_min tm + tm_sec tm = t mod 86400"
    unfolding tm tm.simps by linarith
  have "t mod 86400 div 3600 \<le> 86399 div 3600"
    using pos_mod_bound [of 86400 t] by (intro zdiv_mono1) simp_all
  then show "tm_hour tm \<le> 23"
    by (simp add: tm)
  show "0 \<le> tm_hour tm"
    by (simp add: tm pos_imp_zdiv_nonneg_iff)
  show "0 \<le> tm_min tm" "tm_min tm \<le> 59" "0 \<le> tm_sec tm" "tm_sec tm \<le> 59"
    using pos_mod_bound [of 60 "t mod 86400 div 60"] pos_mod_bound [of 60 "t mod 86400"] by (simp_all add: tm)
  show "days_before_year (tm_year tm + 1900) \<le> t div 86400" "t div 86400 < days_before_year (tm_year tm + 1901)"
    using Y days_before_year_Suc [of y] by (simp_all add: tm add.commute)
qed

lemma gmtime_in_range:
  assumes "0 \<le> t" "t < 4133980800"
  obtains tm where "gmtime_tm t = tm" "gmtime_r t = Some tm" "1970 \<le> tm_year tm + 1900" "tm_year tm + 1900 \<le> 2100"
proof -
  define tm where "tm = gmtime_tm t"
  note g = gmtime_spec [OF tm_def [symmetric]]
  have "days_before_year 1970 = 0" "days_before_year 2101 = 47847"
    by (simp_all add: days_before_year_def)
  moreover have "t div 86400 < 47847" "0 \<le> t div 86400"
    using assms zdiv_mono1 [of t "4133980799" 86400] by (simp_all add: pos_imp_zdiv_nonneg_iff)
  ultimately have "\<not> tm_year tm + 1901 \<le> 1970" "\<not> 2101 \<le> tm_year tm + 1900"
    using g(13,14) days_before_year_mono [of "tm_year tm + 1901" 1970] days_before_year_mono [of 2101 "tm_year tm + 1900"]
    by linarith+
  then have yr: "1970 \<le> tm_year tm + 1900" "tm_year tm + 1900 \<le> 2100"
    by simp_all
  then show ?thesis
    by (intro that [of tm]) (simp_all add: tm_def gmtime_r_def)
qed

lemma utc_eq:
  assumes "0 \<le> syslogTime2time_t ts" "syslogTime2time_t ts < 4133980800"
  obtains u where "timeConvertToUTC ts = Some u" "syslogTime2time_t u = syslogTime2time_t ts"
    "OffsetHour u = 0" "OffsetMinute u = 0" "secfrac u = int32 (secfrac ts)" "secfracPrecision u = 6"
proof -
  let ?t = "syslogTime2time_t ts"
  obtain tm where tm: "gmtime_tm ?t = tm" "gmtime_r ?t = Some tm" and yr: "1970 \<le> tm_year tm + 1900" "tm_year tm + 1900 \<le> 2100"
    by (rule gmtime_in_range [OF assms])
  note g = gmtime_spec [OF tm(1)]
  obtain u where U: "timeConvertToUTC ts = Some u"
    by (simp add: timeConvertToUTC_def timeval2syslogTime_def tm Let_def)
  have u: "year u = tm_year tm + 1900" "month u = tm_mon tm + 1" "day u = tm_mday tm" "hour u = tm_hour tm"
    "minute u = tm_min tm" "second u = tm_sec tm" "OffsetMode u = CHR ''+''" "OffsetHour u = 0" "OffsetMinute u = 0"
    "secfrac u = int32 (secfrac ts)" "secfracPrecision u = 6"
    using g(2-12) yr U by (auto simp: timeConvertToUTC_def timeval2syslogTime_def tm Let_def)
  have "syslogTime2time_t u = 86400 * (?t div 86400) + ?t mod 86400"
    using time_t_eq [of u] g(1-3,6) yr unfolding u time_of_day_def zone_offset_def by simp
  then have "syslogTime2time_t u = ?t"
    by (simp only: mult_div_mod_eq)
  then show ?thesis
    using U u by (intro that [of u]) simp_all
qed

section \<open>ISO weeks\<close>

text \<open>The Thursday of the week a day belongs to; day 0, 1970-01-01, is a Thursday.\<close>

definition iso_thursday :: "int \<Rightarrow> int" where
  "iso_thursday n = n - (n + 3) mod 7 + 3"

lemma weeks_table:
  assumes "1969 \<le> y" "y \<le> 2100"
  shows "arr weeksInYear (y - 1969) = Some ((days_before_year (y + 1) - 1) div 7 - (days_before_year y - 1) div 7)"
proof -
  have len: "length weeksInYear = 132"
    by (simp add: weeksInYear_def)
  have "list_all (\<lambda>i. weeksInYear ! i
      = (days_before_year (int i + 1969 + 1) - 1) div 7 - (days_before_year (int i + 1969) - 1) div 7) [0..<132]"
    by code_simp
  then have "weeksInYear ! nat (y - 1969)
      = (days_before_year (int (nat (y - 1969)) + 1969 + 1) - 1) div 7 - (days_before_year (int (nat (y - 1969)) + 1969) - 1) div 7"
    using assms by (simp only: list_all_iff set_upt) (drule bspec [of _ _ "nat (y - 1969)"], auto simp: nat_less_iff)
  then show ?thesis
    using assms len by (simp add: arr_def)
qed

lemma sevenths: "(7 * a - b) div 7 = a - (b - 1) div 7 - 1" "7 * ((b - 1) div 7) \<le> b - 1" "b - 1 < 7 * ((b - 1) div 7) + 7"
  for a b :: int
  by presburger+

lemma iso_arith:
  fixes a k b0 b1 b2 :: int
  assumes "b0 \<le> 7 * a + k - 3" "7 * a + k - 3 < b1" "0 \<le> k" "k \<le> 6"
  defines "w \<equiv> (7 * (a + 1) - b0) div 7"
  shows "w = 0 \<longleftrightarrow> 7 * a < b0" "0 \<le> w" "w = (7 * a - b0) div 7 + 1"
    "(b1 - 1) div 7 - (b0 - 1) div 7 < w \<longleftrightarrow> b1 \<le> 7 * a"
    "b1 \<le> 7 * a \<Longrightarrow> (7 * a - b1) div 7 = 0" "7 * a < b0 \<Longrightarrow> (b0 - 1) div 7 - (b2 - 1) div 7 = (7 * a - b2) div 7 + 1"
  using assms(1-4) sevenths(2,3) [of b0] sevenths(2,3) [of b1] unfolding w_def sevenths(1)
  by linarith+

definition valid_date :: "syslogTime \<Rightarrow> bool" where
  "valid_date ts \<longleftrightarrow> 1970 \<le> year ts \<and> year ts < 2100 \<and> 1 \<le> month ts \<and> month ts \<le> 12
     \<and> 1 \<le> day ts \<and> day ts \<le> month_len (year ts) (month ts)"

lemma day_of_year_range:
  assumes "1 \<le> m" "m \<le> 12" "1 \<le> d" "d \<le> month_len y m"
  shows "0 \<le> days_before_month y m + d - 1" "days_before_month y m + d - 1 < year_len y"
proof -
  have "0 \<le> days_before_month y m \<and> days_before_month y m + month_len y m \<le> year_len y"
    using month_cases [OF assms(1,2)]
    by (elim disjE) (simp_all add: days_before_months month_len_def year_len_def)
  then show "0 \<le> days_before_month y m + d - 1" "days_before_month y m + d - 1 < year_len y"
    using assms(3,4) by linarith+
qed

lemma ordinal_day:
  assumes "valid_date ts" "0 \<le> time_of_day ts + day_slip ts" "time_of_day ts + day_slip ts < 86400"
  shows "getOrdinal ts = days_before_month (year ts) (month ts) + day ts - 1"
proof -
  let ?o = "days_before_month (year ts) (month ts) + day ts - 1"
  have o: "0 \<le> ?o"
    using assms(1) day_of_year_range by (simp add: valid_date_def)
  have "getOrdinal ts = (86400 * ?o + (time_of_day ts + day_slip ts)) sdiv 86400"
    using ordinal_eq [of ts] assms(1) by (simp add: valid_date_def)
  also have "\<dots> = (86400 * ?o + (time_of_day ts + day_slip ts)) div 86400"
    using o assms(2) by (intro sdiv_nonneg) auto
  also have "\<dots> = ?o"
    using assms(2,3) by (intro int_div_pos_eq [of _ _ _ "time_of_day ts + day_slip ts"]) linarith+
  finally show ?thesis .
qed

lemma iso_week_eq:
  assumes v: "valid_date ts" and "0 \<le> time_of_day ts + day_slip ts" "time_of_day ts + day_slip ts < 86400"
  shows "\<exists>w y. getISOWeek ts = Some (w, y)
    \<and> days_before_year y \<le> iso_thursday (epoch_day (year ts) (month ts) (day ts))
    \<and> iso_thursday (epoch_day (year ts) (month ts) (day ts)) < days_before_year (y + 1)
    \<and> w = (iso_thursday (epoch_day (year ts) (month ts) (day ts)) - days_before_year y) div 7 + 1"
proof -
  define y where "y = year ts"
  define n where "n = epoch_day (year ts) (month ts) (day ts)"
  define k where "k = (n + 3) mod 7"
  define a where "a = (n + 3) div 7"
  have nak: "n = 7 * a + k - 3"
    using mult_div_mod_eq [of 7 "n + 3"] by (simp add: a_def k_def)
  have k: "0 \<le> k" "k \<le> 6"
    using pos_mod_bound [of 7 "n + 3"] by (simp_all add: k_def)
  have th: "iso_thursday n = 7 * a"
    unfolding iso_thursday_def k_def [symmetric] using nak by linarith
  have y: "1970 \<le> y" "y < 2100"
    using v by (simp_all add: valid_date_def y_def)
  note suc = days_before_year_Suc [of "y - 1", simplified] days_before_year_Suc [of y] days_before_year_Suc [of "y + 1"]
  have doy: "n - days_before_year y = days_before_month (year ts) (month ts) + day ts - 1"
    by (simp add: n_def epoch_day_def y_def)
  have b: "days_before_year y \<le> n" "n < days_before_year (y + 1)"
    using doy day_of_year_range [of "month ts" "day ts" y] v suc(2) unfolding valid_date_def y_def by linarith+
  have ord: "getOrdinal ts = n - days_before_year y"
    using ordinal_day [OF assms] doy by simp
  have "getWeekdayNbr ts = (n + 4) mod 7"
    using weekday_eq [of ts] v by (simp add: valid_date_def n_def)
  moreover have "n + 4 = (k + 1) + 7 * a"
    using nak by linarith
  ultimately have "getWeekdayNbr ts = (k + 1) mod 7"
    by (simp only: mod_mult_self2)
  moreover have "(k + 1) mod 7 = (if k = 6 then 0 else k + 1)"
    using k by (auto intro: mod_pos_pos_trivial)
  ultimately have dow: "(if getWeekdayNbr ts = 0 then 7 else getWeekdayNbr ts) = k + 1"
    using k(1) by simp
  note ar = iso_arith [OF b [unfolded nak] k]
  have "10 + (getOrdinal ts + 1) - (k + 1) = 7 * (a + 1) - days_before_year y"
    using ord nak by simp
  then have wk: "(10 + (getOrdinal ts + 1) - (if getWeekdayNbr ts = 0 then 7 else getWeekdayNbr ts)) sdiv 7
      = (7 * (a + 1) - days_before_year y) div 7"
    unfolding dow using b nak k by simp
  have tab: "arr weeksInYear (y - 1969) = Some ((days_before_year (y + 1) - 1) div 7 - (days_before_year y - 1) div 7)"
    "arr weeksInYear (y - 1 - 1969) = Some ((days_before_year y - 1) div 7 - (days_before_year (y - 1) - 1) div 7)"
    using weeks_table [of y] weeks_table [of "y - 1"] y by simp_all
  note iso = getISOWeek_def [of ts, unfolded Let_def, folded y_def, unfolded wk tab]
  consider "7 * a < days_before_year y" | "days_before_year y \<le> 7 * a" "7 * a < days_before_year (y + 1)"
    | "days_before_year (y + 1) \<le> 7 * a"
    by linarith
  then show ?thesis
    unfolding n_def [symmetric] th
  proof cases
    case 1
    then have "getISOWeek ts = Some ((7 * a - days_before_year (y - 1)) div 7 + 1, y - 1)"
      using iso ar(1) ar(6) [of "days_before_year (y - 1)"] by simp
    then show "\<exists>w y. getISOWeek ts = Some (w, y) \<and> days_before_year y \<le> 7 * a
        \<and> 7 * a < days_before_year (y + 1) \<and> w = (7 * a - days_before_year y) div 7 + 1"
      using 1 b nak k suc(1) year_len_pos [of "y - 1"] by (intro exI [of _ "y - 1"] exI conjI) (assumption | simp)+
  next
    case 2
    then have "getISOWeek ts = Some ((7 * a - days_before_year y) div 7 + 1, y)"
      using iso ar(1,3,4) by simp
    then show "\<exists>w y. getISOWeek ts = Some (w, y) \<and> days_before_year y \<le> 7 * a
        \<and> 7 * a < days_before_year (y + 1) \<and> w = (7 * a - days_before_year y) div 7 + 1"
      using 2 by blast
  next
    case 3
    then have "getISOWeek ts = Some ((7 * a - days_before_year (y + 1)) div 7 + 1, y + 1)"
      using iso ar(1,4,5) b nak k by simp
    then show "\<exists>w y. getISOWeek ts = Some (w, y) \<and> days_before_year y \<le> 7 * a
        \<and> 7 * a < days_before_year (y + 1) \<and> w = (7 * a - days_before_year y) div 7 + 1"
      using 3 b nak k suc(3) year_len_pos [of "y + 1"] by (intro exI [of _ "y + 1"] exI conjI) (assumption | simp)+
  qed
qed

section \<open>Printed Unix times\<close>

lemma dig_zero: "dig 0 = CHR ''0''"
  by code_simp

lemma pad_digits2:
  assumes "0 \<le> v" "v \<le> 99"
  shows "pad_left CHR ''0'' (show_int v) = digits2 v"
proof (cases "v < 10")
  case True
  then show ?thesis
    using assms by (simp add: pad_left_def show_int_def digits2_def dig_zero nat_less_iff)
next
  case False
  have n: "nat v div 10 = nat (v div 10)" "nat v mod 10 = nat (v mod 10)"
    using assms nat_div_distrib [of v 10] nat_mod_distrib [of v 10] by simp_all
  have "v div 10 < 10"
    using assms zdiv_mono1 [of v 99 10] by simp
  moreover have "show_nat (nat v) = show_nat (nat v div 10) @ [dig (int (nat v mod 10))]"
    using False by (subst show_nat.simps) (simp add: nat_less_iff)
  moreover have "show_nat (nat v div 10) = [dig (v div 10)]"
    using \<open>v div 10 < 10\<close> assms(1) by (subst show_nat.simps) (simp add: n nat_less_iff pos_imp_zdiv_nonneg_iff)
  ultimately show ?thesis
    using assms False by (simp add: pad_left_def show_int_def digits2_def n pos_imp_zdiv_nonneg_iff del: show_nat.simps)
qed

lemma show_digits4:
  assumes "1000 \<le> v" "v \<le> 9999"
  shows "show_int v = digits4 v"
proof -
  define n where "n = nat v"
  have step: "show_nat k = show_nat (k div 10) @ [dig (int (k mod 10))]" if "10 \<le> k" for k
    using that by (subst show_nat.simps) simp
  have n: "1000 \<le> n" "n \<le> 9999"
    using assms by (simp_all add: n_def)
  have d: "n div 10 div 10 = n div 100" "n div 100 div 10 = n div 1000"
    by (simp_all add: div_mult2_eq [symmetric])
  have "1000 div 1000 \<le> n div 1000" "n div 1000 \<le> 9999 div 1000" "1000 div 100 \<le> n div 100" "1000 div 10 \<le> n div 10"
    using n by (intro div_le_mono; simp)+
  then have r: "10 \<le> n" "10 \<le> n div 10" "10 \<le> n div 100" "n div 1000 < 10" "n div 1000 mod 10 = n div 1000"
    using n by simp_all
  have "show_nat n = [dig (int (n div 1000)), dig (int (n div 100 mod 10)), dig (int (n div 10 mod 10)), dig (int (n mod 10))]"
    using step [OF r(1)] step [OF r(2)] step [OF r(3)] r(4) unfolding d by (subst (asm) (6) show_nat.simps) simp
  moreover have "v = int n"
    using assms by (simp add: n_def)
  ultimately show ?thesis
    using r(5) by (simp add: show_int_def digits4_eq zdiv_int zmod_int del: show_nat.simps)
qed

text \<open>The timestamp a printed Unix time denotes.\<close>

definition tm_time :: "tm \<Rightarrow> syslogTime \<Rightarrow> syslogTime" where
  "tm_time tm t0 = t0 \<lparr> timeType := 2, year := tm_year tm + 1900, month := tm_mon tm + 1, day := tm_mday tm, hour := tm_hour tm,
     minute := tm_min tm, second := tm_sec tm, secfrac := 0, secfracPrecision := 0,
     OffsetMode := CHR ''Z'', OffsetHour := 0, OffsetMinute := 0 \<rparr>"

lemma unix_text:
  assumes "0 \<le> t" "t < 4102444800" "21 \<le> pBufMax"
  obtains tm where "gmtime_tm t = tm" "valid_time (tm_time tm t0)" "1970 \<le> tm_year tm + 1900"
    "formatUnixTimeFromTime_t t ''date-rfc3339'' pBuf pBufMax = (date_text (tm_time tm t0) @ ''Z'', 20)"
proof -
  obtain tm where tm: "gmtime_tm t = tm" "gmtime_r t = Some tm" and yr: "1970 \<le> tm_year tm + 1900" "tm_year tm + 1900 \<le> 2100"
    using assms by (auto intro: gmtime_in_range [of t])
  note g = gmtime_spec [OF tm(1)]
  have "days_before_year 2100 = 47482"
    by (simp add: days_before_year_def)
  moreover have "t div 86400 < 47482"
    using assms zdiv_mono1 [of t "4102444799" 86400] by simp
  ultimately have y: "tm_year tm + 1900 < 2100"
    using g(13) days_before_year_mono [of 2100 "tm_year tm + 1900"] by linarith
  have two: "pad_left CHR ''0'' (show_int v) = digits2 v" if "0 \<le> v" "v \<le> 60" for v
    using that by (intro pad_digits2) simp_all
  let ?txt = "digits4 (tm_year tm + 1900) @ ''-'' @ digits2 (tm_mon tm + 1) @ ''-'' @ digits2 (tm_mday tm) @ ''T''
      @ digits2 (tm_hour tm) @ '':'' @ digits2 (tm_min tm) @ '':'' @ digits2 (tm_sec tm) @ ''Z''"
  have tx: "?txt = date_text (tm_time tm t0) @ ''Z''" "length ?txt = 20"
    by (simp_all add: date_text_def tm_time_def)
  have "formatUnixTimeFromTime_t t ''date-rfc3339'' pBuf pBufMax = (snprintf pBufMax ?txt, int (length (snprintf pBufMax ?txt)))"
    using g yr y by (simp add: formatUnixTimeFromTime_t_def tm(2) Let_def two show_digits4)
  moreover have "snprintf pBufMax ?txt = ?txt"
    unfolding snprintf_def using tx(2) assms(3) by (intro take_all) linarith
  ultimately have out: "formatUnixTimeFromTime_t t ''date-rfc3339'' pBuf pBufMax = (date_text (tm_time tm t0) @ ''Z'', 20)"
    using tx by simp
  show ?thesis
    by (rule that [OF tm(1) _ yr(1) out]) (use g yr y in \<open>simp add: valid_time_def tm_time_def\<close>)
qed

section \<open>Properties\<close>

text \<open>
  C26: For every timestamp from 1970 to 2100 with a month in range, the conversion to seconds
  since the epoch agrees with the Gregorian calendar: the number of days by the leap year rule,
  plus the time of day, minus the offset of the zone.
\<close>

theorem time_t_gregorian:
  assumes "1970 \<le> year ts" "year ts \<le> 2100" "1 \<le> month ts" "month ts \<le> 12"
  shows "syslogTime2time_t ts = 86400 * epoch_day (year ts) (month ts) (day ts) + time_of_day ts - zone_offset ts"
  using assms by (rule time_t_eq)

theorem time_t_gregorian_witness:
  "syslogTime2time_t demo_time = 86400 * epoch_day 2024 2 29 + 86398 - 19800"
  using time_t_gregorian [of demo_time] by (simp add: demo_time_def time_of_day_def zone_offset_def)





text \<open>
  The day of the week is the calendar's for every date from 1970 to 2099; the epoch was a
  Thursday.
\<close>

theorem weekday_gregorian:
  assumes "1970 \<le> year ts" "year ts < 2100" "1 \<le> month ts" "month ts \<le> 12" "1 \<le> day ts"
  shows "getWeekdayNbr ts = (epoch_day (year ts) (month ts) (day ts) + 4) mod 7"
  using assms by (rule weekday_eq)

theorem weekday_gregorian_witness: "getWeekdayNbr demo_time = (epoch_day 2024 2 29 + 4) mod 7"
  using weekday_gregorian [of demo_time] by (simp add: demo_time_def)

text \<open>
  A Unix time printed in RFC 3339 format and parsed again is the same Unix time, for every
  second from 1970 to 2099 and every buffer that holds the 20 characters.
\<close>

theorem unix_time_text_roundtrip:
  assumes "0 \<le> t" "t < 4102444800" "21 \<le> pBufMax"
  shows "\<exists>out ts. formatUnixTimeFromTime_t t ''date-rfc3339'' pBuf pBufMax = (out, 20)
    \<and> ParseTIMESTAMP3339 t0 (out, 20) = ret (ts, [], 0) \<and> syslogTime2time_t ts = t"
proof -
  obtain tm where tm: "gmtime_tm t = tm" "valid_time (tm_time tm t0)" "1970 \<le> tm_year tm + 1900"
    "formatUnixTimeFromTime_t t ''date-rfc3339'' pBuf pBufMax = (date_text (tm_time tm t0) @ ''Z'', 20)"
    by (rule unix_text [OF assms])
  let ?ts = "tm_time tm t0"
  note g = gmtime_spec [OF tm(1)]
  have fields: "t0 \<lparr> timeType := 2, year := year ?ts, month := month ?ts, day := day ?ts, hour := hour ?ts,
            minute := minute ?ts, second := second ?ts, secfrac := 0, secfracPrecision := 0,
            OffsetMode := CHR ''Z'', OffsetHour := 0, OffsetMinute := 0 \<rparr> = ?ts"
    by (simp add: tm_time_def)
  have "ParseTIMESTAMP3339 t0 (date_text ?ts @ ''Z'', 20) = ret (?ts, [], 0)"
    using parse_date_text [OF tm(2), of 20 "''Z''" t0] fields by (simp add: parse_secfrac_def parse_offset_def)
  moreover have "syslogTime2time_t ?ts = 86400 * (t div 86400) + t mod 86400"
    using time_t_eq [of ?ts] g(1-3,6) tm(2,3) by (simp add: tm_time_def time_of_day_def zone_offset_def valid_time_def)
  then have "syslogTime2time_t ?ts = t"
    by (simp only: mult_div_mod_eq)
  ultimately show ?thesis
    using tm(4) by blast
qed

theorem unix_time_text_roundtrip_witness:
  "\<exists>out ts. formatUnixTimeFromTime_t 1709231398 ''date-rfc3339'' [] 26 = (out, 20)
    \<and> ParseTIMESTAMP3339 demo_time (out, 20) = ret (ts, [], 0) \<and> syslogTime2time_t ts = 1709231398"
  using unix_time_text_roundtrip [of 1709231398 26 "[]" demo_time] by simp

end
