(* ===== verification/Prop.thy ===== *)
theory Prop
imports Rsyslog_Prelude
begin

text \<open>
  The property object of \<^verbatim>\<open>runtime/prop.c\<close>, a string shared by many messages: a text shorter than
  the buffer inside the object stays there, a longer one is on the heap, and the length tells
  which. An object does not change once it is built, so a reference to it is modelled by its
  value, and the reference counts are left out.
\<close>

section \<open>The object\<close>

text \<open>
  A union of a pointer and a buffer: zeroed, holding the buffer, or holding the pointer to a
  heap block.
\<close>

datatype cell_union = UnionNull | UnionBuf buf | UnionPtr buf

definition CONF_PROP_BUFSIZE :: int where "CONF_PROP_BUFSIZE = 16"

definition sizeof_prop :: nat where "sizeof_prop = 48"

record prop_s =
  szVal :: cell_union
  prop_len :: int

definition propConstruct :: "(nat \<Rightarrow> bool) \<Rightarrow> rsRetVal \<times> prop_s option" where
  "propConstruct alloc = (if alloc sizeof_prop then (RS_RET_OK, Some \<lparr> szVal = UnionNull, prop_len = 0 \<rparr>)
     else (RS_RET_OUT_OF_MEMORY, None))"

text \<open>The bytes of the buffer member before a short text is copied over them.\<close>

definition union_cells :: "cell_union \<Rightarrow> buf" where
  "union_cells u = (case u of UnionNull \<Rightarrow> replicate (nat CONF_PROP_BUFSIZE) (Some NUL) | UnionBuf b \<Rightarrow> b
     | UnionPtr _ \<Rightarrow> buf_new (nat CONF_PROP_BUFSIZE))"

text \<open>The pointer member reads as null when the first eight bytes of the union are zero.\<close>

definition union_ptr_null :: "cell_union \<Rightarrow> bool" where
  "union_ptr_null u = (case u of UnionNull \<Rightarrow> True | UnionBuf b \<Rightarrow> take 8 b = replicate 8 (Some NUL)
     | UnionPtr _ \<Rightarrow> False)"

text \<open>
  The source of the copy is the memory at the pointer the caller passes; one byte more than
  the length is read. A pointer member that is not null when a long text arrives is freed:
  that is only defined when the union holds a live pointer, which it never does there, as a
  previous long text has been freed by the first test.
\<close>

definition SetString :: "(nat \<Rightarrow> bool) \<Rightarrow> prop_s \<Rightarrow> buf \<Rightarrow> int \<Rightarrow> (rsRetVal \<times> prop_s) option" where
  "SetString alloc p psz len =
     (if len < CONF_PROP_BUFSIZE
      then if len + 1 < 0 then None
        else do {
          cs \<leftarrow> buf_read psz 0 (nat (len + 1));
          b \<leftarrow> buf_memcpy (union_cells (szVal p)) 0 cs;
          Some (RS_RET_OK, \<lparr> szVal = UnionBuf b, prop_len = len \<rparr>) }
      else if \<not> union_ptr_null (szVal p) then None
      else if alloc (nat len + 1)
      then do {
        cs \<leftarrow> buf_read psz 0 (nat len + 1);
        Some (RS_RET_OK, \<lparr> szVal = UnionPtr (map Some cs), prop_len = len \<rparr>) }
      else Some (RS_RET_OUT_OF_MEMORY, \<lparr> szVal = UnionNull, prop_len = len \<rparr>))"

definition GetStringLen :: "prop_s \<Rightarrow> int" where
  "GetStringLen p = prop_len p"

text \<open>The memory at the pointer that is returned, and the length.\<close>

definition GetString :: "prop_s \<Rightarrow> (buf \<times> int) option" where
  "GetString p =
     (if prop_len p < CONF_PROP_BUFSIZE
      then Some (union_cells (szVal p), prop_len p)
      else case szVal p of UnionPtr b \<Rightarrow> Some (b, prop_len p) | _ \<Rightarrow> None)"

definition CreateStringProp :: "(nat \<Rightarrow> bool) \<Rightarrow> buf \<Rightarrow> int \<Rightarrow> (rsRetVal \<times> prop_s option) option" where
  "CreateStringProp alloc psz len =
     (case propConstruct alloc of
        (r, None) \<Rightarrow> Some (r, None)
      | (r, Some p) \<Rightarrow> do {
          (r, p) \<leftarrow> SetString alloc p psz len;
          Some (r, if r = RS_RET_OK then Some p else None) })"

definition CreateOrReuseStringProp ::
    "(nat \<Rightarrow> bool) \<Rightarrow> prop_s option \<Rightarrow> buf \<Rightarrow> int \<Rightarrow> (rsRetVal \<times> prop_s option) option" where
  "CreateOrReuseStringProp alloc cur psz len =
     (case cur of
        None \<Rightarrow> CreateStringProp alloc psz len
      | Some p \<Rightarrow> do {
          (pszPrev, lenPrev) \<leftarrow> GetString p;
          differ \<leftarrow> (if len \<noteq> lenPrev then Some True
                    else do { s \<leftarrow> buf_sz psz; t \<leftarrow> buf_sz pszPrev; Some (s \<noteq> t) });
          if differ then CreateStringProp alloc psz len else Some (RS_RET_OK, Some p) })"

section \<open>What a property promises\<close>

text \<open>The property holds the text: its length and its terminated bytes.\<close>

definition prop_holds :: "prop_s \<Rightarrow> char list \<Rightarrow> bool" where
  "prop_holds p s \<longleftrightarrow> prop_len p = int (length s)
     \<and> (\<exists>b. GetString p = Some (b, int (length s)) \<and> buf_read b 0 (length s + 1) = Some (s @ [NUL]))"

lemma read_some: "take n src = map Some cs \<Longrightarrow> length cs = n \<Longrightarrow> buf_read src 0 n = Some cs"
  by (metis add_0 buf_read_Some_iff drop0 length_map length_take min.cobounded1)

lemma SetString_ok:
  assumes "take (length s + 1) src = map Some (s @ [NUL])" "length s < 2 ^ 31 - 1" "szVal p = UnionNull"
  shows "(\<exists>q. SetString alloc p src (int (length s)) = Some (RS_RET_OK, q) \<and> prop_holds q s)
    \<or> (\<exists>q. SetString alloc p src (int (length s)) = Some (RS_RET_OUT_OF_MEMORY, q) \<and> \<not> alloc (length s + 1))"
proof -
  have r: "buf_read src 0 (length s + 1) = Some (s @ [NUL])"
    using assms(1) by (rule read_some) simp
  have n: "nat (int (length s) + 1) = length s + 1"
    by simp
  show ?thesis
  proof (cases "length s < 16")
    case True
    then have "buf_memcpy (union_cells UnionNull) 0 (s @ [NUL]) \<noteq> None"
      by (simp add: buf_memcpy_def union_cells_def CONF_PROP_BUFSIZE_def)
    then obtain b where b: "buf_memcpy (union_cells UnionNull) 0 (s @ [NUL]) = Some b"
      by blast
    have "buf_read b 0 (length (s @ [NUL])) = Some (s @ [NUL])"
      using b by (rule buf_read_memcpy_same) simp
    then show ?thesis
      using True r b assms(3) unfolding SetString_def n
      by (simp add: CONF_PROP_BUFSIZE_def prop_holds_def GetString_def union_cells_def)
  next
    case False
    have "buf_read (map Some (s @ [NUL])) 0 (length s + 1) = Some (s @ [NUL])"
      by (rule read_some) simp_all
    then show ?thesis
      using False r assms(3) unfolding SetString_def n
      by (simp add: CONF_PROP_BUFSIZE_def prop_holds_def GetString_def union_ptr_null_def)
  qed
qed

lemma CreateStringProp_ok:
  assumes "take (length s + 1) src = map Some (s @ [NUL])" "length s < 2 ^ 31 - 1"
  shows "\<exists>r q. CreateStringProp alloc src (int (length s)) = Some (r, q)
    \<and> (r = RS_RET_OK \<and> (\<exists>p. q = Some p \<and> prop_holds p s)
       \<or> r = RS_RET_OUT_OF_MEMORY \<and> q = None \<and> \<not> (alloc sizeof_prop \<and> alloc (length s + 1)))"
  using SetString_ok [OF assms, of "\<lparr> szVal = UnionNull, prop_len = 0 \<rparr>" alloc]
  by (auto simp: CreateStringProp_def propConstruct_def)

lemma buf_sz_read: "buf_read b 0 (Suc (length s)) = Some (s @ [NUL]) \<Longrightarrow> NUL \<notin> set s \<Longrightarrow> buf_sz b = Some s"
proof (induction s arbitrary: b)
  case Nil
  then show ?case
    by (cases b) (auto simp: buf_read_Some_iff)
next
  case (Cons c s)
  then show ?case
    by (cases b) (auto simp: buf_read_Some_iff)
qed

lemma prop_holds_sz: "prop_holds p s \<Longrightarrow> NUL \<notin> set s \<Longrightarrow> \<exists>b. GetString p = Some (b, int (length s)) \<and> buf_sz b = Some s"
  by (auto simp: prop_holds_def intro: buf_sz_read)

end
