(* ===== verification/Msg.thy ===== *)
theory Msg
imports Stringbuf Datetime_Calendar Prop
begin

text \<open>
  The message object of \<^verbatim>\<open>runtime/msg.c\<close>: the raw message with its MSG part, the PRI, the
  short texts kept inside the object or on the heap depending on their size, the string
  objects for APP-NAME, PROCID and MSGID, and the cached time strings. Locking is left out:
  every operation below runs under the lock of the message or before it is shared.
\<close>

section \<open>Constants\<close>

definition CONF_RAWMSG_BUFSIZE :: int where "CONF_RAWMSG_BUFSIZE = 101"
definition CONF_TAG_BUFSIZE :: int where "CONF_TAG_BUFSIZE = 32"
definition CONF_PROGNAME_BUFSIZE :: int where "CONF_PROGNAME_BUFSIZE = 16"
definition CONF_HOSTNAME_BUFSIZE :: int where "CONF_HOSTNAME_BUFSIZE = 32"
definition CONF_TAG_MAXSIZE :: int where "CONF_TAG_MAXSIZE = 512"
definition LOG_MAXPRI :: int where "LOG_MAXPRI = 191"
definition LOG_DEBUG :: int where "LOG_DEBUG = 7"
definition LOG_FAC_INVLD :: int where "LOG_FAC_INVLD = 24"
definition LOG_INVLD :: int where "LOG_INVLD = push_bit 3 LOG_FAC_INVLD"
definition LOG_PRI_INVLD :: int where "LOG_PRI_INVLD = LOG_INVLD OR LOG_DEBUG"

lemmas conf_sizes = CONF_RAWMSG_BUFSIZE_def CONF_TAG_BUFSIZE_def CONF_PROGNAME_BUFSIZE_def
  CONF_HOSTNAME_BUFSIZE_def CONF_TAG_MAXSIZE_def

section \<open>The object\<close>

text \<open>
  A text of the object: no pointer yet, the buffer inside the object, or a heap block. For
  \<^verbatim>\<open>TAG\<close> and \<^verbatim>\<open>PROGNAME\<close> the pointer and the buffer share their storage.
\<close>

datatype cell_store = NullPtr | Fixed | Heap buf

text \<open>
  The peer of a message: nothing, a property with its name, or the socket address it came from,
  to be resolved later. The two pointers share their storage; the flag \<^verbatim>\<open>NEEDS_DNSRESOL\<close>
  tells which one is stored.
\<close>

datatype sockaddr = AF_INET nat | AF_INET6 nat | AF_OTHER

datatype rcv_from = FromNull | FromProp prop_s | FromInet sockaddr

text \<open>
  The fields of \<^verbatim>\<open>struct msg\<close> that the modelled routines use. A ruleset is its name; the parsed JSON values are of a type \<^typ>\<open>'j\<close> that the JSON library provides.
\<close>

record 'j smsg =
  bParseSuccess :: int
  iSeverity :: int
  iFacility :: int
  offAfterPRI :: int
  offMSG :: int
  iProtocolVersion :: int
  msgFlags :: "32 word"
  iLenRawMsg :: int
  iLenMSG :: int
  iLenTAG :: int
  iLenHOSTNAME :: int
  iLenPROGNAME :: int
  pszRawMsg :: cell_store
  pszHOSTNAME :: cell_store
  pszTIMESTAMP3164 :: "char list option"
  pszTIMESTAMP3339 :: "char list option"
  pszTIMESTAMP_MySQL :: "char list option"
  pszTIMESTAMP_PgSQL :: "char list option"
  pszStrucData :: "char list option"
  pCSAPPNAME :: "cstr option"
  pCSPROCID :: "cstr option"
  pCSMSGID :: "cstr option"
  pInputName :: "prop_s option"
  pRcvFromIP :: "prop_s option"
  pRcvFromPort :: "prop_s option"
  rcvFrom :: rcv_from
  pRuleset :: "char list option"
  ttGenTime :: int
  tRcvdAt :: syslogTime
  tTIMESTAMP :: syslogTime
  json :: "'j option"
  localvars :: "'j option"
  szRawMsg :: buf
  szHOSTNAME :: buf
  PROGNAME :: cell_union
  TAG :: cell_union
  pszTIMESTAMP_SecFrac :: "char list"
  pszTIMESTAMP_Unix :: "char list"
  pszUUID :: "char list option"

definition zero_time :: syslogTime where
  "zero_time = \<lparr> timeType = 0, month = 0, day = 0, wday = 0, hour = 0, minute = 0, second = 0, secfracPrecision = 0,
     OffsetMinute = 0, OffsetHour = 0, OffsetMode = NUL, year = 0, secfrac = 0, inUTC = 0 \<rparr>"

text \<open>A new object. The buffers inside it, and \<^verbatim>\<open>ttGenTime\<close>, are not initialised.\<close>

definition msgBaseConstruct :: "int \<Rightarrow> 'j smsg" where
  "msgBaseConstruct uninit =
     \<lparr> bParseSuccess = 0, iSeverity = LOG_DEBUG, iFacility = LOG_INVLD, offAfterPRI = 0, offMSG = - 1,
       iProtocolVersion = 0, msgFlags = 0, iLenRawMsg = 0, iLenMSG = 0, iLenTAG = 0, iLenHOSTNAME = 0,
       iLenPROGNAME = - 1, pszRawMsg = NullPtr, pszHOSTNAME = NullPtr, pszTIMESTAMP3164 = None,
       pszTIMESTAMP3339 = None, pszTIMESTAMP_MySQL = None, pszTIMESTAMP_PgSQL = None, pszStrucData = None,
       pCSAPPNAME = None, pCSPROCID = None, pCSMSGID = None, pInputName = None, pRcvFromIP = None,
       pRcvFromPort = None, rcvFrom = FromNull, pRuleset = None, ttGenTime = uninit, tRcvdAt = zero_time,
       tTIMESTAMP = zero_time, json = None, localvars = None, szRawMsg = buf_new (nat CONF_RAWMSG_BUFSIZE),
       szHOSTNAME = buf_new (nat CONF_HOSTNAME_BUFSIZE), PROGNAME = UnionBuf (buf_new (nat CONF_PROGNAME_BUFSIZE)),
       TAG = UnionNull, pszTIMESTAMP_SecFrac = [], pszTIMESTAMP_Unix = [], pszUUID = None \<rparr>"

definition sizeof_smsg :: nat where "sizeof_smsg = 640"

definition msgConstructForDeserializer :: "(nat \<Rightarrow> bool) \<Rightarrow> int \<Rightarrow> rsRetVal \<times> 'j smsg option" where
  "msgConstructForDeserializer alloc uninit =
     (if alloc sizeof_smsg then (RS_RET_OK, Some (msgBaseConstruct uninit)) else (RS_RET_OUT_OF_MEMORY, None))"

text \<open>The constructor for an input: the time of reception is given by the caller.\<close>

definition msgConstructWithTime :: "(nat \<Rightarrow> bool) \<Rightarrow> syslogTime \<Rightarrow> int \<Rightarrow> rsRetVal \<times> 'j smsg option" where
  "msgConstructWithTime alloc stTime genTime =
     (if alloc sizeof_smsg
      then (RS_RET_OK, Some (msgBaseConstruct genTime \<lparr> ttGenTime := genTime, tRcvdAt := stTime, tTIMESTAMP := stTime \<rparr>))
      else (RS_RET_OUT_OF_MEMORY, None))"

section \<open>The raw message\<close>

definition raw_buf :: "'j smsg \<Rightarrow> buf option" where
  "raw_buf m = (case pszRawMsg m of NullPtr \<Rightarrow> None | Fixed \<Rightarrow> Some (szRawMsg m) | Heap b \<Rightarrow> Some b)"

definition set_raw_buf :: "'j smsg \<Rightarrow> buf \<Rightarrow> 'j smsg" where
  "set_raw_buf m b = (case pszRawMsg m of
     NullPtr \<Rightarrow> m | Fixed \<Rightarrow> m \<lparr> szRawMsg := b \<rparr> | Heap _ \<Rightarrow> m \<lparr> pszRawMsg := Heap b \<rparr>)"

definition MsgSetRawMsg :: "(nat \<Rightarrow> bool) \<Rightarrow> 'j smsg \<Rightarrow> char list \<Rightarrow> 'j smsg option" where
  "MsgSetRawMsg alloc m s = do {
     let lenMsg = int32 (int (length s));
     deltaSize \<leftarrow> ck_int (lenMsg - iLenRawMsg m);
     let (p, n) = (if lenMsg < CONF_RAWMSG_BUFSIZE then (Fixed, lenMsg)
                   else if alloc (nat lenMsg + 1) then (Heap (buf_new (nat lenMsg + 1)), lenMsg)
                   else (Fixed, CONF_RAWMSG_BUFSIZE - 1));
     let m = m \<lparr> pszRawMsg := p, iLenRawMsg := n \<rparr>;
     if n < 0 then None
     else do {
       b \<leftarrow> raw_buf m;
       b \<leftarrow> buf_memcpy b 0 (take (nat n) s);
       b \<leftarrow> buf_put b (nat n) NUL;
       let m = set_raw_buf m b;
       len \<leftarrow> (if offMSG m < n then ck_int (iLenMSG m + deltaSize) else Some 0);
       Some (m \<lparr> iLenMSG := len \<rparr>) } }"

text \<open>
  The offset may be one behind the end of the raw message, when there is no MSG part; a larger one
  violates the assertion of the code and is \<^term>\<open>None\<close> here.
\<close>

definition MsgSetMSGoffs :: "'j smsg \<Rightarrow> int \<Rightarrow> 'j smsg option" where
  "MsgSetMSGoffs m offs = do {
     let m = m \<lparr> offMSG := offs \<rparr>;
     len \<leftarrow> (if iLenRawMsg m < offs then if offs - 1 = iLenRawMsg m then Some 0 else None else ck_int (iLenRawMsg m - offs));
     Some (m \<lparr> iLenMSG := len \<rparr>) }"

definition MsgSetAfterPRIOffs :: "'j smsg \<Rightarrow> int \<Rightarrow> rsRetVal \<times> 'j smsg" where
  "MsgSetAfterPRIOffs m offs =
     (if offs < 0 \<or> iLenRawMsg m < offs then (RS_RET_ERR, m \<lparr> offAfterPRI := 0 \<rparr>)
      else (RS_RET_OK, m \<lparr> offAfterPRI := offs \<rparr>))"

text \<open>
  \<^verbatim>\<open>msgReplaceRawMsgSegment\<close>, in \<^verbatim>\<open>msg_replace_helper.h\<close>: replace \<^verbatim>\<open>lenOld\<close> bytes at \<^verbatim>\<open>off\<close> by a
  text. \<^verbatim>\<open>memmove\<close> within a block is a read followed by a write.
\<close>

definition msgReplaceRawMsgSegment ::
  "(nat \<Rightarrow> bool) \<Rightarrow> 'j smsg \<Rightarrow> int \<Rightarrow> int \<Rightarrow> char list \<Rightarrow> (rsRetVal \<times> 'j smsg) option" where
  "msgReplaceRawMsgSegment alloc m off lenOld new = do {
     b0 \<leftarrow> raw_buf m;
     let raw = iLenRawMsg m;
     let lenMSG = int (length new);
     len1 \<leftarrow> ck_int (raw + lenMSG);
     lenNew \<leftarrow> ck_int (len1 - lenOld);
     let lenSuffix = raw - off - lenOld;
     let own = (pszRawMsg m = Fixed);
     if lenOld < lenMSG \<and> (own \<and> CONF_RAWMSG_BUFSIZE \<le> lenNew \<or> \<not> own \<and> raw < lenNew)
     then
       if \<not> alloc (nat lenNew + 1) then Some (RS_RET_OUT_OF_MEMORY, m)
       else do {
         b \<leftarrow> (if own
               then do { h \<leftarrow> buf_read b0 0 (nat off); buf_memcpy (buf_new (nat lenNew + 1)) 0 h }
               else Some (buf_realloc b0 (nat lenNew + 1)));
         b \<leftarrow> (if 0 < lenSuffix
               then do { t \<leftarrow> buf_read b0 (nat (off + lenOld)) (nat lenSuffix); buf_memcpy b (nat (off + lenMSG)) t }
               else Some b);
         b \<leftarrow> (if 0 < lenMSG then buf_memcpy b (nat off) new else Some b);
         b \<leftarrow> buf_put b (nat lenNew) NUL;
         Some (RS_RET_OK, m \<lparr> pszRawMsg := Heap b, iLenRawMsg := lenNew \<rparr>) }
     else do {
       b \<leftarrow> (if 0 < lenSuffix \<and> lenMSG \<noteq> lenOld
             then do { t \<leftarrow> buf_read b0 (nat (off + lenOld)) (nat lenSuffix); buf_memcpy b0 (nat (off + lenMSG)) t }
             else Some b0);
       b \<leftarrow> (if 0 < lenMSG then buf_memcpy b (nat off) new else Some b);
       b \<leftarrow> buf_put b (nat lenNew) NUL;
       Some (RS_RET_OK, (set_raw_buf m b) \<lparr> iLenRawMsg := lenNew \<rparr>) } }"

definition MsgReplaceMSG :: "(nat \<Rightarrow> bool) \<Rightarrow> 'j smsg \<Rightarrow> char list \<Rightarrow> (rsRetVal \<times> 'j smsg) option" where
  "MsgReplaceMSG alloc m new = do {
     m \<leftarrow> (if pszRawMsg m = NullPtr
           then do { b \<leftarrow> buf_put (szRawMsg m) 0 NUL; Some (m \<lparr> pszRawMsg := Fixed, szRawMsg := b \<rparr>) }
           else Some m);
     let m = (if offMSG m < 0 \<or> iLenRawMsg m < offMSG m then m \<lparr> offMSG := iLenRawMsg m, iLenMSG := 0 \<rparr>
              else if iLenMSG m < 0 \<or> iLenRawMsg m - offMSG m < iLenMSG m
              then m \<lparr> iLenMSG := iLenRawMsg m - offMSG m \<rparr> else m);
     (r, m) \<leftarrow> msgReplaceRawMsgSegment alloc m (offMSG m) (iLenMSG m) new;
     if r = RS_RET_OK then Some (r, m \<lparr> iLenMSG := int (length new) \<rparr>) else Some (r, m) }"

definition MsgTruncateToMaxSize :: "'j smsg \<Rightarrow> int \<Rightarrow> 'j smsg option" where
  "MsgTruncateToMaxSize m maxMsgSize = do {
     let deltaSize = iLenRawMsg m - maxMsgSize;
     b \<leftarrow> raw_buf m;
     b \<leftarrow> (if maxMsgSize < 0 then None else buf_put b (nat maxMsgSize) NUL);
     let m = (set_raw_buf m b) \<lparr> iLenRawMsg := maxMsgSize \<rparr>;
     Some (m \<lparr> iLenMSG := (if iLenMSG m < deltaSize then 0 else iLenMSG m - deltaSize) \<rparr>) }"

text \<open>What a caller reads through the pointer and the length of \<^verbatim>\<open>getRawMsg\<close> and of \<^verbatim>\<open>getMSG\<close>.\<close>

definition getRawMsg :: "'j smsg \<Rightarrow> char list option" where
  "getRawMsg m = (case raw_buf m of None \<Rightarrow> Some []
     | Some b \<Rightarrow> if iLenRawMsg m < 0 then None else buf_read b 0 (nat (iLenRawMsg m)))"

definition getMSG :: "'j smsg \<Rightarrow> char list option" where
  "getMSG m = (if iLenMSG m = 0 then Some []
     else do { b \<leftarrow> raw_buf m; if offMSG m < 0 \<or> iLenMSG m < 0 then None else buf_read b (nat (offMSG m)) (nat (iLenMSG m)) })"

section \<open>PRI\<close>

definition pri2fac :: "int \<Rightarrow> int" where
  "pri2fac pri = (let fac = drop_bit 3 pri in if 23 < fac then LOG_FAC_INVLD else fac)"

definition pri2sev :: "int \<Rightarrow> int" where
  "pri2sev pri = pri AND 7"

definition msgSetPRI :: "'j smsg \<Rightarrow> int \<Rightarrow> 'j smsg" where
  "msgSetPRI m pri = (let pri = (if LOG_MAXPRI < pri then LOG_PRI_INVLD else pri)
     in m \<lparr> iFacility := pri2fac pri, iSeverity := pri2sev pri \<rparr>)"

definition getPRIi :: "'j smsg \<Rightarrow> int" where
  "getPRIi m = (let pri = (push_bit 3 (iFacility m) + iSeverity m) mod 2 ^ 16 in if 191 < pri then LOG_PRI_INVLD else pri)"

definition syslog_fac_names :: "char list list" where
  "syslog_fac_names = [''kern'', ''user'', ''mail'', ''daemon'', ''auth'', ''syslog'', ''lpr'', ''news'', ''uucp'',
     ''cron'', ''authpriv'', ''ftp'', ''ntp'', ''audit'', ''alert'', ''clock'', ''local0'', ''local1'',
     ''local2'', ''local3'', ''local4'', ''local5'', ''local6'', ''local7'', ''invld'']"

definition len_syslog_fac_names :: "nat list" where
  "len_syslog_fac_names = [4, 4, 4, 6, 4, 6, 3, 4, 4, 4, 8, 3, 3, 5, 5, 5, 6, 6, 6, 6, 6, 6, 6, 6, 5]"

definition syslog_severity_names :: "char list list" where
  "syslog_severity_names = [''emerg'', ''alert'', ''crit'', ''err'', ''warning'', ''notice'', ''info'', ''debug'']"

definition len_syslog_severity_names :: "nat list" where
  "len_syslog_severity_names = [5, 5, 4, 3, 7, 6, 4, 5]"

text \<open>The text of facility and severity; the result \<^term>\<open>Some None\<close> is a failed allocation.\<close>

definition textpri :: "(nat \<Rightarrow> bool) \<Rightarrow> 'j smsg \<Rightarrow> char list option option" where
  "textpri alloc m = do {
     lenfac \<leftarrow> arr len_syslog_fac_names (iFacility m);
     lensev \<leftarrow> arr len_syslog_severity_names (iSeverity m);
     if alloc (lenfac + 1 + lensev + 1)
     then do {
       fac \<leftarrow> arr syslog_fac_names (iFacility m);
       sev \<leftarrow> arr syslog_severity_names (iSeverity m);
       Some (Some (take lenfac fac @ ''.'' @ take lensev sev)) }
     else Some None }"

definition getSeverityStr :: "'j smsg \<Rightarrow> char list option" where
  "getSeverityStr m = (if 7 < iSeverity m then Some ''invld'' else arr syslog_severity_names (iSeverity m))"

definition getFacilityStr :: "'j smsg \<Rightarrow> char list option" where
  "getFacilityStr m = (if 23 < iFacility m then Some ''invld'' else arr syslog_fac_names (iFacility m))"

definition setProtocolVersion :: "'j smsg \<Rightarrow> int \<Rightarrow> 'j smsg" where
  "setProtocolVersion m iNewVersion = m \<lparr> iProtocolVersion := (if iNewVersion \<noteq> 0 \<and> iNewVersion \<noteq> 1 then 0 else iNewVersion) \<rparr>"

section \<open>Input name and peer\<close>

definition NEEDS_DNSRESOL :: "32 word" where "NEEDS_DNSRESOL = 0x040"
definition PRESERVE_CASE :: "32 word" where "PRESERVE_CASE = 0x200"

definition needs_dns :: "'j smsg \<Rightarrow> bool" where
  "needs_dns m \<longleftrightarrow> msgFlags m AND NEEDS_DNSRESOL \<noteq> 0"

text \<open>
  The member \<^verbatim>\<open>pRcvFrom\<close> of the union: reading it while the union holds a socket address is
  undefined.
\<close>

definition pRcvFrom :: "'j smsg \<Rightarrow> prop_s option option" where
  "pRcvFrom m = (case rcvFrom m of FromNull \<Rightarrow> Some None | FromProp p \<Rightarrow> Some (Some p) | FromInet _ \<Rightarrow> None)"

text \<open>The string a getter returns for a property: empty when there is none.\<close>

definition prop_sz :: "prop_s option \<Rightarrow> char list option" where
  "prop_sz q = (case q of None \<Rightarrow> Some [] | Some p \<Rightarrow> do { (b, _) \<leftarrow> GetString p; buf_sz b })"

definition MsgSetRcvFromWithoutAddRef :: "'j smsg \<Rightarrow> prop_s option \<Rightarrow> 'j smsg option" where
  "MsgSetRcvFromWithoutAddRef m new =
     (let r = (case new of None \<Rightarrow> FromNull | Some p \<Rightarrow> FromProp p)
      in if needs_dns m
         then (case rcvFrom m of FromProp _ \<Rightarrow> None
               | _ \<Rightarrow> Some (m \<lparr> msgFlags := msgFlags m AND NOT NEEDS_DNSRESOL, rcvFrom := r \<rparr>))
         else (case rcvFrom m of FromInet _ \<Rightarrow> None | _ \<Rightarrow> Some (m \<lparr> rcvFrom := r \<rparr>)))"

definition MsgSetRcvFromStr :: "(nat \<Rightarrow> bool) \<Rightarrow> 'j smsg \<Rightarrow> buf \<Rightarrow> int \<Rightarrow> prop_s option \<Rightarrow> ('j smsg \<times> prop_s option) option" where
  "MsgSetRcvFromStr alloc m psz len cur = do {
     (_, p) \<leftarrow> CreateOrReuseStringProp alloc cur psz len;
     m \<leftarrow> MsgSetRcvFromWithoutAddRef m p;
     Some (m, p) }"

text \<open>
  The text \<^verbatim>\<open>snprintf\<close> writes for an unsigned number, at most seven digits and a terminator.
\<close>

fun udec :: "nat \<Rightarrow> char list" where
  "udec n = (if n < 10 then [digit_chr (int n)] else udec (n div 10) @ [digit_chr (int (n mod 10))])"

declare udec.simps [simp del]

definition sock_port :: "sockaddr \<Rightarrow> nat" where
  "sock_port sa = (case sa of AF_INET n \<Rightarrow> n mod 2 ^ 16 | AF_INET6 n \<Rightarrow> n mod 2 ^ 16 | AF_OTHER \<Rightarrow> 0)"

text \<open>
  The name lookup is a parameter: for the address of the peer, and whether the case of the name
  is to be kept, it returns a code and the properties for the name and the address. The module
  with the lookup is loaded: \<^verbatim>\<open>objUse\<close> for it succeeds.
\<close>

definition resolveDNS :: "(nat \<Rightarrow> bool) \<Rightarrow> (sockaddr \<Rightarrow> bool \<Rightarrow> rsRetVal \<times> prop_s \<times> prop_s)
    \<Rightarrow> 'j smsg \<Rightarrow> (rsRetVal \<times> 'j smsg) option" where
  "resolveDNS alloc cvthname m =
     (if \<not> needs_dns m then Some (RS_RET_OK, m)
      else case rcvFrom m of
        FromInet sa \<Rightarrow>
          (case cvthname sa (msgFlags m AND PRESERVE_CASE \<noteq> 0) of (localRet, localName, ip) \<Rightarrow>
             if localRet \<noteq> RS_RET_OK then Some (RS_RET_OK, m)
             else do {
               (r, m) \<leftarrow> (if pRcvFromPort m = None
                 then do {
                   let portbuf = udec (sock_port sa);
                   (r, port) \<leftarrow> CreateStringProp alloc (map Some (portbuf @ [NUL])) (int (length portbuf));
                   Some (r, if r = RS_RET_OK then m \<lparr> pRcvFromPort := port \<rparr> else m) }
                 else Some (RS_RET_OK, m));
               if r = RS_RET_OK
               then do {
                 m \<leftarrow> MsgSetRcvFromWithoutAddRef m (Some localName);
                 Some (RS_RET_OK, m \<lparr> pRcvFromIP := Some ip \<rparr>) }
               else do { (m, _) \<leftarrow> MsgSetRcvFromStr alloc m [Some NUL] 0 None; Some (r, m) } })
      | _ \<Rightarrow> None)"

definition getRcvFrom :: "(nat \<Rightarrow> bool) \<Rightarrow> (sockaddr \<Rightarrow> bool \<Rightarrow> rsRetVal \<times> prop_s \<times> prop_s)
    \<Rightarrow> 'j smsg \<Rightarrow> (char list \<times> 'j smsg) option" where
  "getRcvFrom alloc cvthname m = do {
     (_, m) \<leftarrow> resolveDNS alloc cvthname m; p \<leftarrow> pRcvFrom m; s \<leftarrow> prop_sz p; Some (s, m) }"

definition getRcvFromIP :: "(nat \<Rightarrow> bool) \<Rightarrow> (sockaddr \<Rightarrow> bool \<Rightarrow> rsRetVal \<times> prop_s \<times> prop_s)
    \<Rightarrow> 'j smsg \<Rightarrow> (char list \<times> 'j smsg) option" where
  "getRcvFromIP alloc cvthname m = do {
     (_, m) \<leftarrow> resolveDNS alloc cvthname m; s \<leftarrow> prop_sz (pRcvFromIP m); Some (s, m) }"

definition getRcvFromPort :: "(nat \<Rightarrow> bool) \<Rightarrow> (sockaddr \<Rightarrow> bool \<Rightarrow> rsRetVal \<times> prop_s \<times> prop_s)
    \<Rightarrow> 'j smsg \<Rightarrow> (char list \<times> 'j smsg) option" where
  "getRcvFromPort alloc cvthname m = do {
     (_, m) \<leftarrow> resolveDNS alloc cvthname m; s \<leftarrow> prop_sz (pRcvFromPort m); Some (s, m) }"

text \<open>The input name, as the bytes the pointer and the length denote.\<close>

definition getInputName :: "'j smsg \<Rightarrow> char list option" where
  "getInputName m = (case pInputName m of None \<Rightarrow> Some []
     | Some p \<Rightarrow> do { (b, n) \<leftarrow> GetString p; if n < 0 then None else buf_read b 0 (nat n) })"

definition MsgSetInputNameStr :: "(nat \<Rightarrow> bool) \<Rightarrow> 'j smsg \<Rightarrow> buf \<Rightarrow> int \<Rightarrow> (rsRetVal \<times> 'j smsg) option" where
  "MsgSetInputNameStr alloc m psz len = do {
     (r, p) \<leftarrow> CreateStringProp alloc psz len;
     Some (r, if r = RS_RET_OK then m \<lparr> pInputName := p \<rparr> else m) }"

definition MsgSetRcvFromText :: "(nat \<Rightarrow> bool) \<Rightarrow> 'j smsg \<Rightarrow> buf \<Rightarrow> int \<Rightarrow> (rsRetVal \<times> 'j smsg) option" where
  "MsgSetRcvFromText alloc m psz len = do {
     (r, p) \<leftarrow> CreateStringProp alloc psz len;
     if r = RS_RET_OK then do { m \<leftarrow> MsgSetRcvFromWithoutAddRef m p; Some (r, m) } else Some (r, m) }"

definition MsgSetRcvFromIPText :: "(nat \<Rightarrow> bool) \<Rightarrow> 'j smsg \<Rightarrow> buf \<Rightarrow> int \<Rightarrow> (rsRetVal \<times> 'j smsg) option" where
  "MsgSetRcvFromIPText alloc m psz len = do {
     (r, p) \<leftarrow> CreateOrReuseStringProp alloc None psz len;
     Some (r, if r = RS_RET_OK then m \<lparr> pRcvFromIP := p \<rparr> else m) }"

definition MsgSetRcvFromPortText :: "(nat \<Rightarrow> bool) \<Rightarrow> 'j smsg \<Rightarrow> buf \<Rightarrow> int \<Rightarrow> (rsRetVal \<times> 'j smsg) option" where
  "MsgSetRcvFromPortText alloc m psz len = do {
     (r, p) \<leftarrow> CreateOrReuseStringProp alloc None psz len;
     Some (r, if r = RS_RET_OK then m \<lparr> pRcvFromPort := p \<rparr> else m) }"

section \<open>TAG and HOSTNAME\<close>

definition MsgSetTAG :: "(nat \<Rightarrow> bool) \<Rightarrow> 'j smsg \<Rightarrow> char list \<Rightarrow> 'j smsg option" where
  "MsgSetTAG alloc m s = do {
     let lenBuf = int32 (int (length s));
     let (p, n) = (if lenBuf < CONF_TAG_BUFSIZE then (UnionBuf, lenBuf)
                   else if alloc (nat lenBuf + 1) then (UnionPtr, lenBuf)
                   else (UnionBuf, CONF_TAG_BUFSIZE - 1));
     if n < 0 then None
     else do {
       b \<leftarrow> buf_memcpy (buf_new (if n < CONF_TAG_BUFSIZE then nat CONF_TAG_BUFSIZE else nat n + 1)) 0 (take (nat n) s);
       b \<leftarrow> buf_put b (nat n) NUL;
       Some (m \<lparr> iLenPROGNAME := - 1, iLenTAG := n, TAG := p b \<rparr>) } }"

text \<open>The bytes of the tag, read through the member its length selects.\<close>

definition tag_text :: "'j smsg \<Rightarrow> char list option" where
  "tag_text m =
     (if iLenTAG m = 0 then Some []
      else if iLenTAG m < 0 then None
      else case (TAG m, iLenTAG m < CONF_TAG_BUFSIZE) of
        (UnionBuf b, True) \<Rightarrow> buf_read b 0 (nat (iLenTAG m))
      | (UnionPtr b, False) \<Rightarrow> buf_read b 0 (nat (iLenTAG m))
      | _ \<Rightarrow> None)"

definition MsgSetHOSTNAME :: "(nat \<Rightarrow> bool) \<Rightarrow> 'j smsg \<Rightarrow> char list \<Rightarrow> 'j smsg option" where
  "MsgSetHOSTNAME alloc m s = do {
     let lenHOSTNAME = int32 (int (length s));
     let (own, n) = (if lenHOSTNAME < CONF_HOSTNAME_BUFSIZE then (True, lenHOSTNAME)
                   else if alloc (nat lenHOSTNAME + 1) then (False, lenHOSTNAME)
                   else (True, CONF_HOSTNAME_BUFSIZE - 1));
     if n < 0 then None
     else do {
       b \<leftarrow> buf_memcpy (if own then szHOSTNAME m else buf_new (nat n + 1)) 0 (take (nat n) s);
       b \<leftarrow> buf_put b (nat n) NUL;
       Some (if own then m \<lparr> iLenHOSTNAME := n, pszHOSTNAME := Fixed, szHOSTNAME := b \<rparr>
             else m \<lparr> iLenHOSTNAME := n, pszHOSTNAME := Heap b \<rparr>) } }"

definition getHOSTNAME :: "(nat \<Rightarrow> bool) \<Rightarrow> (sockaddr \<Rightarrow> bool \<Rightarrow> rsRetVal \<times> prop_s \<times> prop_s)
    \<Rightarrow> 'j smsg \<Rightarrow> (char list \<times> 'j smsg) option" where
  "getHOSTNAME alloc cvthname m = (case pszHOSTNAME m of
     NullPtr \<Rightarrow> do { (_, m) \<leftarrow> resolveDNS alloc cvthname m; p \<leftarrow> pRcvFrom m; s \<leftarrow> prop_sz p; Some (s, m) }
   | Fixed \<Rightarrow> do { s \<leftarrow> buf_sz (szHOSTNAME m); Some (s, m) }
   | Heap b \<Rightarrow> do { s \<leftarrow> buf_sz b; Some (s, m) })"

section \<open>APP-NAME, PROCID, MSGID and STRUCTURED-DATA\<close>

text \<open>The common body of the setters: create the string object when needed, set its text, finalize it.\<close>

definition set_cstr :: "(nat \<Rightarrow> bool) \<Rightarrow> cstr option \<Rightarrow> char list \<Rightarrow> (rsRetVal \<times> cstr option) option" where
  "set_cstr alloc old s =
     (case (case old of None \<Rightarrow> cstrConstruct alloc | Some c \<Rightarrow> (RS_RET_OK, Some c)) of
        (r, None) \<Rightarrow> Some (r, None)
      | (r, Some c) \<Rightarrow> do {
          (r, c) \<leftarrow> rsCStrSetSzStr alloc c (Some s);
          if r = RS_RET_OK then do { c \<leftarrow> cstrFinalize c; Some (r, Some c) } else Some (r, Some c) })"

definition MsgSetAPPNAME :: "(nat \<Rightarrow> bool) \<Rightarrow> 'j smsg \<Rightarrow> char list \<Rightarrow> (rsRetVal \<times> 'j smsg) option" where
  "MsgSetAPPNAME alloc m pszAPPNAME = do {
     (r, c) \<leftarrow> set_cstr alloc (pCSAPPNAME m) (if strlen pszAPPNAME = 0 then ''-'' else pszAPPNAME);
     Some (r, m \<lparr> pCSAPPNAME := c \<rparr>) }"

definition MsgSetPROCID :: "(nat \<Rightarrow> bool) \<Rightarrow> 'j smsg \<Rightarrow> char list \<Rightarrow> (rsRetVal \<times> 'j smsg) option" where
  "MsgSetPROCID alloc m pszPROCID = do {
     (r, c) \<leftarrow> set_cstr alloc (pCSPROCID m) pszPROCID;
     Some (r, m \<lparr> pCSPROCID := c \<rparr>) }"

definition MsgSetMSGID :: "(nat \<Rightarrow> bool) \<Rightarrow> 'j smsg \<Rightarrow> char list \<Rightarrow> (rsRetVal \<times> 'j smsg) option" where
  "MsgSetMSGID alloc m pszMSGID = do {
     (r, c) \<leftarrow> set_cstr alloc (pCSMSGID m) pszMSGID;
     Some (r, m \<lparr> pCSMSGID := c \<rparr>) }"

definition MsgSetStructuredData :: "(nat \<Rightarrow> bool) \<Rightarrow> 'j smsg \<Rightarrow> char list \<Rightarrow> rsRetVal \<times> 'j smsg" where
  "MsgSetStructuredData alloc m s =
     (let new = take (strlen s) s
      in if alloc (length new + 1) then (RS_RET_OK, m \<lparr> pszStrucData := Some new \<rparr>)
         else (RS_RET_OUT_OF_MEMORY, m \<lparr> pszStrucData := None \<rparr>))"

definition MsgGetStructuredData :: "'j smsg \<Rightarrow> char list" where
  "MsgGetStructuredData m = (case pszStrucData m of None \<Rightarrow> ''-'' | Some s \<Rightarrow> s)"

definition MsgSetParseSuccess :: "'j smsg \<Rightarrow> int \<Rightarrow> 'j smsg" where
  "MsgSetParseSuccess m bSuccess = m \<lparr> bParseSuccess := int8 bSuccess \<rparr>"

text \<open>PROCID from a legacy tag: the text between the first bracket and the next closing one.\<close>

fun procid_loop :: "(nat \<Rightarrow> bool) \<Rightarrow> cstr \<Rightarrow> char list \<Rightarrow> (rsRetVal \<times> cstr \<times> char list) option" where
  "procid_loop alloc c [] = Some (RS_RET_OK, c, [])"
| "procid_loop alloc c (x # s) =
     (if x = CHR '']'' then Some (RS_RET_OK, c, x # s)
      else do {
        (r, c) \<leftarrow> cstrAppendChar alloc c x;
        if r = RS_RET_OK then procid_loop alloc c s else Some (r, c, s) })"

definition acquirePROCIDFromTAG :: "(nat \<Rightarrow> bool) \<Rightarrow> 'j smsg \<Rightarrow> (rsRetVal \<times> 'j smsg) option" where
  "acquirePROCIDFromTAG alloc m =
     (if pCSPROCID m \<noteq> None then Some (RS_RET_OK, m)
      else if iProtocolVersion m \<noteq> 0 then Some (RS_RET_OK, m)
      else do {
        tag \<leftarrow> tag_text m;
        case dropWhile (\<lambda>c. c \<noteq> CHR ''['') tag of
          [] \<Rightarrow> Some (RS_RET_OK, m)
        | _ # rest \<Rightarrow>
            (case cstrConstruct alloc of
               (r, None) \<Rightarrow> Some (r, m)
             | (r, Some c) \<Rightarrow> do {
                 (r, c, s) \<leftarrow> procid_loop alloc c rest;
                 if r \<noteq> RS_RET_OK then Some (r, m \<lparr> pCSPROCID := Some c \<rparr>)
                 else if s = [] then Some (RS_RET_OK, m \<lparr> pCSPROCID := None \<rparr>)
                 else do { c \<leftarrow> cstrFinalize c; Some (RS_RET_OK, m \<lparr> pCSPROCID := Some c \<rparr>) } }) })"

definition getPROCID :: "(nat \<Rightarrow> bool) \<Rightarrow> 'j smsg \<Rightarrow> (char list \<times> 'j smsg) option" where
  "getPROCID alloc m = do {
     (_, m) \<leftarrow> (if pCSPROCID m = None then acquirePROCIDFromTAG alloc m else Some (RS_RET_OK, m));
     case pCSPROCID m of
       None \<Rightarrow> Some (''-'', m)
     | Some c \<Rightarrow> do { s \<leftarrow> buf_sz (cstrGetSzStrNoNULL c); Some (s, m) } }"

text \<open>
  The tag of a message in the RFC 5424 format is built from APP-NAME and PROCID. For such a
  message (version 1) \<^verbatim>\<open>prepareAPPNAME\<close> does nothing, so APP-NAME is the string object's text.
\<close>

definition appname_text :: "'j smsg \<Rightarrow> char list option" where
  "appname_text m = (case pCSAPPNAME m of None \<Rightarrow> Some [] | Some c \<Rightarrow> buf_sz (cstrGetSzStrNoNULL c))"

definition tryEmulateTAG :: "(nat \<Rightarrow> bool) \<Rightarrow> 'j smsg \<Rightarrow> 'j smsg option" where
  "tryEmulateTAG alloc m =
     (if 0 < iLenTAG m then Some m
      else if iProtocolVersion m = 1
      then do {
        (procid, m) \<leftarrow> getPROCID alloc m;
        m \<leftarrow> (if procid = ''-''
              then (case pCSAPPNAME m of
                      None \<Rightarrow> MsgSetTAG alloc m []
                    | Some c \<Rightarrow> do {
                        s \<leftarrow> buf_read (cstrGetSzStrNoNULL c) 0 (iStrLen c);
                        MsgSetTAG alloc m s })
              else do {
                app \<leftarrow> appname_text m;
                MsgSetTAG alloc m (take (nat CONF_TAG_MAXSIZE - 1) (app @ ''['' @ procid @ '']'')) });
        Some (m \<lparr> iLenPROGNAME := - 1 \<rparr>) }
      else Some m)"

definition getTAG :: "(nat \<Rightarrow> bool) \<Rightarrow> 'j smsg \<Rightarrow> (char list \<times> 'j smsg) option" where
  "getTAG alloc m = do {
     m \<leftarrow> (if iLenTAG m = 0 then tryEmulateTAG alloc m else Some m);
     s \<leftarrow> tag_text m;
     Some (s, m) }"

text \<open>The program name: the tag up to a non-printable character, a colon, a bracket or a slash.\<close>

definition isprint :: "char \<Rightarrow> bool" where
  "isprint c \<longleftrightarrow> 32 \<le> (of_char c :: nat) \<and> (of_char c :: nat) \<le> 126"

definition progname_char :: "bool \<Rightarrow> char \<Rightarrow> bool" where
  "progname_char bPermitSlashInProgramname c \<longleftrightarrow> isprint c \<and> c \<noteq> NUL \<and> c \<noteq> CHR '':'' \<and> c \<noteq> CHR ''[''
     \<and> (bPermitSlashInProgramname \<or> c \<noteq> CHR ''/'')"

definition acquireProgramName :: "(nat \<Rightarrow> bool) \<Rightarrow> bool \<Rightarrow> 'j smsg \<Rightarrow> (rsRetVal \<times> 'j smsg) option" where
  "acquireProgramName alloc permitSlash m = do {
     tag \<leftarrow> tag_text m;
     let name = takeWhile (progname_char permitSlash) tag;
     if int (length name) < CONF_PROGNAME_BUFSIZE
     then do {
       b \<leftarrow> buf_memcpy (buf_new (nat CONF_PROGNAME_BUFSIZE)) 0 name;
       b \<leftarrow> buf_put b (length name) NUL;
       Some (RS_RET_OK, m \<lparr> PROGNAME := UnionBuf b, iLenPROGNAME := int (length name) \<rparr>) }
     else if alloc (length name + 1)
     then do {
       b \<leftarrow> buf_memcpy (buf_new (length name + 1)) 0 name;
       b \<leftarrow> buf_put b (length name) NUL;
       Some (RS_RET_OK, m \<lparr> PROGNAME := UnionPtr b, iLenPROGNAME := int (length name) \<rparr>) }
     else Some (RS_RET_OUT_OF_MEMORY, m \<lparr> PROGNAME := UnionNull \<rparr>) }"

definition getProgramName :: "(nat \<Rightarrow> bool) \<Rightarrow> bool \<Rightarrow> 'j smsg \<Rightarrow> (char list \<times> 'j smsg) option" where
  "getProgramName alloc permitSlash m = do {
     m \<leftarrow> (if iLenPROGNAME m = - 1
           then do {
             m \<leftarrow> (if iLenTAG m = 0 then map_option snd (getTAG alloc m) else Some m);
             map_option snd (acquireProgramName alloc permitSlash m) }
           else Some m);
     s \<leftarrow> (case (PROGNAME m, iLenPROGNAME m < CONF_PROGNAME_BUFSIZE) of
             (UnionBuf b, True) \<Rightarrow> buf_sz b
           | (UnionPtr b, False) \<Rightarrow> buf_sz b
           | _ \<Rightarrow> None);
     Some (s, m) }"

definition getAPPNAME :: "(nat \<Rightarrow> bool) \<Rightarrow> bool \<Rightarrow> 'j smsg \<Rightarrow> (char list \<times> 'j smsg) option" where
  "getAPPNAME alloc permitSlash m = do {
     m \<leftarrow> (if pCSAPPNAME m = None \<and> iProtocolVersion m = 0
           then do {
             (s, m) \<leftarrow> getProgramName alloc permitSlash m;
             map_option snd (MsgSetAPPNAME alloc m s) }
           else Some m);
     s \<leftarrow> appname_text m;
     Some (s, m) }"

section \<open>The time reported\<close>

datatype tplFormatTypes =
    tplFmtDefault | tplFmtMySQLDate | tplFmtRFC3164Date | tplFmtRFC3339Date | tplFmtPgSQLDate | tplFmtSecFrac
  | tplFmtRFC3164BuggyDate | tplFmtUnixDate | tplFmtWDayName | tplFmtYear | tplFmtMonth | tplFmtDay | tplFmtHour
  | tplFmtMinute | tplFmtSecond | tplFmtTZOffsHour | tplFmtTZOffsMin | tplFmtTZOffsDirection | tplFmtWDay
  | tplFmtOrdinal | tplFmtWeek | tplFmtISOWeek | tplFmtISOWeekYear

definition one_digit :: "char list list" where
  "one_digit = map (\<lambda>i. [dig i]) [0..9]"

definition two_digits :: "char list list" where
  "two_digits = map digits2 [0..99]"

definition wdayNames :: "char list list" where
  "wdayNames = [''Sun'', ''Mon'', ''Tue'', ''Wed'', ''Thu'', ''Fri'', ''Sat'']"

definition daysInYear :: "char list list" where
  "daysInYear = map (\<lambda>i. [dig (i div 100), dig (i div 10 mod 10), dig (i mod 10)]) [1..366]"

definition years :: "char list list" where
  "years = map digits4 [1967..2099]"

definition formatISOWeekOrYear :: "tplFormatTypes \<Rightarrow> syslogTime \<Rightarrow> char list option" where
  "formatISOWeekOrYear eFmt pTm =
     (if 1970 \<le> year pTm \<and> year pTm \<le> 2099
      then do {
        (isoWeek, isoWeekYear) \<leftarrow> getISOWeek pTm;
        if eFmt = tplFmtISOWeek then arr two_digits isoWeek else arr years (isoWeekYear - 1967) }
      else Some ''YEAR OUT OF RANGE(1970-2099)'')"

text \<open>The formats that are not cached in the object.\<close>

definition time_part :: "tplFormatTypes \<Rightarrow> syslogTime \<Rightarrow> char list option" where
  "time_part eFmt ts =
     (case eFmt of
        tplFmtWDayName \<Rightarrow> arr wdayNames (getWeekdayNbr ts)
      | tplFmtWDay \<Rightarrow> arr one_digit (getWeekdayNbr ts)
      | tplFmtMonth \<Rightarrow> arr two_digits (month ts)
      | tplFmtYear \<Rightarrow> (if 1967 \<le> year ts \<and> year ts \<le> 2099 then arr years (year ts - 1967)
                     else Some ''YEAR OUT OF RANGE(1967-2099)'')
      | tplFmtDay \<Rightarrow> arr two_digits (day ts)
      | tplFmtHour \<Rightarrow> arr two_digits (hour ts)
      | tplFmtMinute \<Rightarrow> arr two_digits (minute ts)
      | tplFmtSecond \<Rightarrow> arr two_digits (second ts)
      | tplFmtTZOffsHour \<Rightarrow> arr two_digits (OffsetHour ts)
      | tplFmtTZOffsMin \<Rightarrow> arr two_digits (OffsetMinute ts)
      | tplFmtTZOffsDirection \<Rightarrow> Some (if OffsetMode ts = CHR ''+'' then ''+'' else ''-'')
      | tplFmtOrdinal \<Rightarrow> arr daysInYear (getOrdinal ts)
      | tplFmtWeek \<Rightarrow> arr two_digits (getWeek ts)
      | tplFmtISOWeek \<Rightarrow> formatISOWeekOrYear eFmt ts
      | tplFmtISOWeekYear \<Rightarrow> formatISOWeekOrYear eFmt ts
      | _ \<Rightarrow> Some ''INVALID eFmt OPTION!'')"

text \<open>The C string in a buffer that was just filled.\<close>

definition sz :: "char list \<Rightarrow> char list" where
  "sz s = takeWhile (\<lambda>c. c \<noteq> NUL) s"

definition getTimeReported :: "(nat \<Rightarrow> bool) \<Rightarrow> 'j smsg \<Rightarrow> tplFormatTypes \<Rightarrow> (char list \<times> 'j smsg) option" where
  "getTimeReported alloc m eFmt =
     (let ts = tTIMESTAMP m in
      if eFmt \<in> {tplFmtDefault, tplFmtRFC3164Date, tplFmtRFC3164BuggyDate} then
        (case pszTIMESTAMP3164 m of
           Some s \<Rightarrow> Some (s, m)
         | None \<Rightarrow> do {
             (out, _) \<leftarrow> formatTimestamp3164 ts (eFmt = tplFmtRFC3164BuggyDate);
             Some (sz out, m \<lparr> pszTIMESTAMP3164 := Some (sz out) \<rparr>) })
      else if eFmt = tplFmtMySQLDate then
        (case pszTIMESTAMP_MySQL m of
           Some s \<Rightarrow> Some (s, m)
         | None \<Rightarrow> if alloc 15 then let out = sz (fst (formatTimestampToMySQL ts)) in Some (out, m \<lparr> pszTIMESTAMP_MySQL := Some out \<rparr>)
                   else Some ([], m))
      else if eFmt = tplFmtPgSQLDate then
        (case pszTIMESTAMP_PgSQL m of
           Some s \<Rightarrow> Some (s, m)
         | None \<Rightarrow> if alloc 21 then let out = sz (fst (formatTimestampToPgSQL ts)) in Some (out, m \<lparr> pszTIMESTAMP_PgSQL := Some out \<rparr>)
                   else Some ([], m))
      else if eFmt = tplFmtRFC3339Date then
        (case pszTIMESTAMP3339 m of
           Some s \<Rightarrow> Some (s, m)
         | None \<Rightarrow> do {
             (out, _) \<leftarrow> formatTimestamp3339 ts;
             Some (sz out, m \<lparr> pszTIMESTAMP3339 := Some (sz out) \<rparr>) })
      else if eFmt = tplFmtUnixDate then
        (if pszTIMESTAMP_Unix m = []
         then let out = sz (fst (formatTimestampUnix ts)) in Some (out, m \<lparr> pszTIMESTAMP_Unix := out \<rparr>)
         else Some (pszTIMESTAMP_Unix m, m))
      else if eFmt = tplFmtSecFrac then
        (if pszTIMESTAMP_SecFrac m = []
         then do {
           (out, _) \<leftarrow> formatTimestampSecFrac ts;
           Some (sz out, m \<lparr> pszTIMESTAMP_SecFrac := sz out \<rparr>) }
         else Some (pszTIMESTAMP_SecFrac m, m))
      else do { s \<leftarrow> time_part eFmt ts; Some (s, m) })"

section \<open>The raw message and its MSG part as texts\<close>

text \<open>The object holds the raw message \<^verbatim>\<open>t\<close>, terminated by a NUL.\<close>

definition raw_ok :: "'j smsg \<Rightarrow> char list \<Rightarrow> bool" where
  "raw_ok m t \<longleftrightarrow> length (szRawMsg m) = 101 \<and> iLenRawMsg m = int (length t)
     \<and> (case raw_buf m of None \<Rightarrow> t = [] | Some b \<Rightarrow> buf_read b 0 (length t + 1) = Some (t @ [NUL]))"

text \<open>The MSG part lies inside the raw message.\<close>

definition part_ok :: "'j smsg \<Rightarrow> bool" where
  "part_ok m \<longleftrightarrow> iLenMSG m = 0 \<or> 0 \<le> offMSG m \<and> 0 < iLenMSG m \<and> offMSG m + iLenMSG m \<le> iLenRawMsg m"

lemma raw_buf_simps [simp]:
  "raw_buf (m \<lparr> iLenRawMsg := a \<rparr>) = raw_buf m" "raw_buf (m \<lparr> iLenMSG := a \<rparr>) = raw_buf m"
  "raw_buf (m \<lparr> offMSG := a \<rparr>) = raw_buf m" "raw_buf (m \<lparr> pszRawMsg := Heap b \<rparr>) = Some b"
  "raw_buf (m \<lparr> pszRawMsg := Fixed \<rparr>) = Some (szRawMsg m)" "raw_buf (m \<lparr> offAfterPRI := a \<rparr>) = raw_buf m"
  by (simp_all add: raw_buf_def split: cell_store.split)

lemma set_raw_buf_simps [simp]:
  "raw_buf m \<noteq> None \<Longrightarrow> raw_buf (set_raw_buf m b) = Some b"
  "iLenRawMsg (set_raw_buf m b) = iLenRawMsg m" "iLenMSG (set_raw_buf m b) = iLenMSG m"
  "offMSG (set_raw_buf m b) = offMSG m" "offAfterPRI (set_raw_buf m b) = offAfterPRI m"
  by (auto simp: raw_buf_def set_raw_buf_def split: cell_store.splits)

lemma set_raw_buf_size:
  "raw_buf m = Some b0 \<Longrightarrow> length b = length b0 \<Longrightarrow> length (szRawMsg (set_raw_buf m b)) = length (szRawMsg m)"
  by (auto simp: raw_buf_def set_raw_buf_def split: cell_store.splits)

lemma raw_ok_read: "raw_ok m t \<Longrightarrow> raw_buf m = Some b \<Longrightarrow> i + n \<le> length t \<Longrightarrow> buf_read b i n = Some (take n (drop i t))"
  using buf_read_part [of b 0 "length t + 1" "t @ [NUL]" i n] by (auto simp: raw_ok_def)

lemma getRawMsg_ok: "raw_ok m t \<Longrightarrow> getRawMsg m = Some t"
  using raw_ok_read [of m t _ 0 "length t"] by (auto simp: getRawMsg_def raw_ok_def split: option.splits)

lemma getMSG_ok:
  assumes "raw_ok m t" "part_ok m"
  shows "getMSG m = Some (take (nat (iLenMSG m)) (drop (nat (offMSG m)) t))"
proof (cases "iLenMSG m = 0")
  case False
  then have p: "0 \<le> offMSG m" "0 < iLenMSG m" "offMSG m + iLenMSG m \<le> int (length t)"
    using assms by (auto simp: part_ok_def raw_ok_def)
  then obtain b where b: "raw_buf m = Some b"
    using assms(1) by (auto simp: raw_ok_def split: option.splits)
  show ?thesis
    using raw_ok_read [OF assms(1) b, of "nat (offMSG m)" "nat (iLenMSG m)"] p b False by (simp add: getMSG_def)
qed (simp add: getMSG_def)

lemma splice_buf:
  assumes "buf_read b 0 (length h) = Some h" "buf_read b (length h + length new) (length s) = Some s"
    "length h + length new + length s < length b"
  obtains b1 b2 where "(if 0 < length new then buf_memcpy b (length h) new else Some b) = Some b1"
    "buf_put b1 (length h + length new + length s) NUL = Some b2" "length b2 = length b"
    "buf_read b2 0 (length (h @ new @ s) + 1) = Some ((h @ new @ s) @ [NUL])"
proof -
  obtain b1 where b1: "buf_memcpy b (length h) new = Some b1"
    using buf_memcpy_ex [of "length h" new b] assms(3) by auto
  have l1: "length b1 = length b"
    using b1 by (rule buf_memcpy_length)
  obtain b2 where b2: "buf_memcpy b1 (length h + length new + length s) [NUL] = Some b2"
    using buf_memcpy_ex [of "length h + length new + length s" "[NUL]" b1] assms(3) l1 by auto
  have "buf_read b2 0 (length h) = Some h"
    using buf_read_memcpy_before [OF b2, of 0 "length h"] buf_read_memcpy_before [OF b1, of 0 "length h"] assms(1) by simp
  moreover have "buf_read b2 (length h) (length new) = Some new"
    using buf_read_memcpy_before [OF b2, of "length h" "length new"] buf_read_memcpy_same [OF b1] by simp
  moreover have "buf_read b2 (length h + length new) (length s) = Some s"
    using buf_read_memcpy_before [OF b2, of "length h + length new" "length s"]
      buf_read_memcpy_after [OF b1, of "length h + length new" "length s"] assms(2) by simp
  moreover have "buf_read b2 (length h + length new + length s) 1 = Some [NUL]"
    using buf_read_memcpy_same [OF b2] by simp
  ultimately have "buf_read b2 0 (length h + length new + length s + 1) = Some (((h @ new) @ s) @ [NUL])"
    by (intro buf_read_join) simp_all
  moreover have "(if 0 < length new then buf_memcpy b (length h) new else Some b) = Some b1"
    using b1 by (auto simp: buf_memcpy_def split: if_splits)
  ultimately show ?thesis
    using that [of b1 b2] b2 buf_memcpy_length [OF b2] l1 by (simp add: buf_put_as_memcpy add.assoc)
qed

lemma raw_ok_bufI:
  "raw_buf m = Some b \<Longrightarrow> length (szRawMsg m) = 101 \<Longrightarrow> iLenRawMsg m = int (length t)
    \<Longrightarrow> buf_read b 0 (length t + 1) = Some (t @ [NUL]) \<Longrightarrow> raw_ok m t"
  by (simp add: raw_ok_def)

text \<open>The buffer before the new text goes in: head and tail are in place.\<close>

lemma replace_segment_ok:
  assumes ok: "raw_ok m t" and buf: "raw_buf m = Some b0" and t: "t = h @ d @ s"
    and small: "int (length t + length new) < 2 ^ 31 - 1"
  shows "\<exists>r m'. msgReplaceRawMsgSegment alloc m (int (length h)) (int (length d)) new = Some (r, m')
    \<and> (r = RS_RET_OK \<and> raw_ok m' (h @ new @ s) \<and> raw_buf m' \<noteq> None \<and> offMSG m' = offMSG m
       \<or> r = RS_RET_OUT_OF_MEMORY \<and> m' = m)"
proof -
  have len: "iLenRawMsg m = int (length h + length d + length s)"
    using ok t by (simp add: raw_ok_def)
  have lb: "length t + 1 \<le> length b0" and l101: "length (szRawMsg m) = 101"
    using ok buf buf_read_le [of b0 0 "length t + 1"] by (auto simp: raw_ok_def)
  have rh: "buf_read b0 0 (length h) = Some h" and rs: "buf_read b0 (length h + length d) (length s) = Some s"
    using raw_ok_read [OF ok buf, of 0 "length h"] raw_ok_read [OF ok buf, of "length h + length d" "length s"]
    by (simp_all add: t)
  have fixed: "length b0 = 101" if "pszRawMsg m = Fixed"
    using that buf l101 by (auto simp: raw_buf_def)
  let ?n = "length h + length new + length s"
  have ck: "ck_int (iLenRawMsg m + int (length new)) = Some (int (length t + length new))"
    "ck_int (int (length t + length new) - int (length d)) = Some (int ?n)"
    using small len t by (simp_all add: ck_int_def)
  let ?grow = "length d < length new \<and> (pszRawMsg m = Fixed \<and> 101 \<le> ?n \<or> pszRawMsg m \<noteq> Fixed)"
  have grow: "(int (length d) < int (length new) \<and> (pszRawMsg m = Fixed \<and> CONF_RAWMSG_BUFSIZE \<le> int ?n
      \<or> pszRawMsg m \<noteq> Fixed \<and> iLenRawMsg m < int ?n)) = ?grow"
    using len by (auto simp: conf_sizes)
  have suf: "nat (iLenRawMsg m - int (length h) - int (length d)) = length s"
    "(0 < iLenRawMsg m - int (length h) - int (length d)) = (0 < length s)"
    "nat (int (length h) + int (length d)) = length h + length d"
    "nat (int (length h) + int (length new)) = length h + length new"
    using len by simp_all
  have move: "\<exists>b1. (if 0 < length s then buf_memcpy b (length h + length new) s else Some b) = Some b1 \<and> length b1 = length b
      \<and> buf_read b1 0 (length h) = Some h \<and> buf_read b1 (length h + length new) (length s) = Some s"
    if hd: "buf_read b 0 (length h) = Some h" and room: "?n < length b" for b
  proof -
    obtain b1 where b1: "buf_memcpy b (length h + length new) s = Some b1"
      using buf_memcpy_ex [of "length h + length new" s b] room by auto
    moreover have "(if 0 < length s then buf_memcpy b (length h + length new) s else Some b) = Some b1"
      using b1 by (auto simp: buf_memcpy_def split: if_splits)
    ultimately show ?thesis
      using hd buf_memcpy_length [OF b1] buf_read_memcpy_before [OF b1, of 0 "length h"] buf_read_memcpy_same [OF b1]
      by auto
  qed
  have eq: "msgReplaceRawMsgSegment alloc m (int (length h)) (int (length d)) new =
     (if ?grow
      then
       if \<not> alloc (?n + 1) then Some (RS_RET_OUT_OF_MEMORY, m)
       else do {
         b \<leftarrow> (if pszRawMsg m = Fixed
               then do { h \<leftarrow> buf_read b0 0 (length h); buf_memcpy (buf_new (?n + 1)) 0 h }
               else Some (buf_realloc b0 (?n + 1)));
         b \<leftarrow> (if 0 < length s
               then do { t \<leftarrow> buf_read b0 (length h + length d) (length s); buf_memcpy b (length h + length new) t }
               else Some b);
         b \<leftarrow> (if 0 < int (length new) then buf_memcpy b (length h) new else Some b);
         b \<leftarrow> buf_put b ?n NUL;
         Some (RS_RET_OK, m \<lparr> pszRawMsg := Heap b, iLenRawMsg := int ?n \<rparr>) }
      else do {
       b \<leftarrow> (if 0 < length s \<and> int (length new) \<noteq> int (length d)
             then do { t \<leftarrow> buf_read b0 (length h + length d) (length s); buf_memcpy b0 (length h + length new) t }
             else Some b0);
       b \<leftarrow> (if 0 < int (length new) then buf_memcpy b (length h) new else Some b);
       b \<leftarrow> buf_put b ?n NUL;
       Some (RS_RET_OK, (set_raw_buf m b) \<lparr> iLenRawMsg := int ?n \<rparr>) })"
    unfolding msgReplaceRawMsgSegment_def Let_def buf bind.bind_lunit ck grow suf nat_int ..
  show ?thesis
  proof (cases ?grow)
    case True
    show ?thesis
    proof (cases "alloc (?n + 1)")
      case False
      then show ?thesis
        unfolding eq using True by simp
    next
      case al: True
      obtain b where b: "(if pszRawMsg m = Fixed then buf_read b0 0 (length h) \<bind> buf_memcpy (buf_new (?n + 1)) 0
          else Some (buf_realloc b0 (?n + 1))) = Some b" "length b = ?n + 1" "buf_read b 0 (length h) = Some h"
      proof (cases "pszRawMsg m = Fixed")
        case True
        obtain b where b: "buf_memcpy (buf_new (?n + 1)) 0 h = Some b"
          using buf_memcpy_ex [of 0 h "buf_new (?n + 1)"] by auto
        then show ?thesis
          using that [of b] True rh buf_memcpy_length [OF b] buf_read_memcpy_same [OF b] by simp
      next
        case False
        then show ?thesis
          using that [of "buf_realloc b0 (?n + 1)"] rh lb t by (simp add: buf_read_realloc)
      qed
      obtain b1 where b1: "(if 0 < length s then buf_memcpy b (length h + length new) s else Some b) = Some b1"
        "length b1 = ?n + 1" "buf_read b1 0 (length h) = Some h" "buf_read b1 (length h + length new) (length s) = Some s"
        using move [OF b(3)] b(2) by auto
      obtain b2 b3 where b3: "(if 0 < length new then buf_memcpy b1 (length h) new else Some b1) = Some b2"
        "buf_put b2 ?n NUL = Some b3" "length b3 = length b1"
        "buf_read b3 0 (length (h @ new @ s) + 1) = Some ((h @ new @ s) @ [NUL])"
        using splice_buf [OF b1(3,4)] b1(2) by auto
      have "msgReplaceRawMsgSegment alloc m (int (length h)) (int (length d)) new
          = Some (RS_RET_OK, m \<lparr> pszRawMsg := Heap b3, iLenRawMsg := int ?n \<rparr>)"
        unfolding eq using True al b(1) b1(1) b3(1,2) rs by (auto simp del: of_nat_add split: if_splits)
      moreover have "raw_ok (m \<lparr> pszRawMsg := Heap b3, iLenRawMsg := int ?n \<rparr>) (h @ new @ s)"
        using b3(4) l101 by (intro raw_ok_bufI [of _ b3]) simp_all
      ultimately show ?thesis
        by simp
    qed
  next
    case False
    have room: "?n < length b0"
      using False lb t fixed by (cases "pszRawMsg m = Fixed") auto
    obtain b1 where b1: "(if 0 < length s \<and> length new \<noteq> length d then buf_memcpy b0 (length h + length new) s else Some b0) = Some b1"
      "length b1 = length b0" "buf_read b1 0 (length h) = Some h" "buf_read b1 (length h + length new) (length s) = Some s"
      using move [OF rh room] rh rs by (cases "length new = length d") auto
    obtain b2 b3 where b3: "(if 0 < length new then buf_memcpy b1 (length h) new else Some b1) = Some b2"
      "buf_put b2 ?n NUL = Some b3" "length b3 = length b1"
      "buf_read b3 0 (length (h @ new @ s) + 1) = Some ((h @ new @ s) @ [NUL])"
      using splice_buf [OF b1(3,4)] b1(2) room by auto
    have "msgReplaceRawMsgSegment alloc m (int (length h)) (int (length d)) new
        = Some (RS_RET_OK, (set_raw_buf m b3) \<lparr> iLenRawMsg := int ?n \<rparr>)"
      unfolding eq using False b1(1) b3(1,2) rs by (auto simp del: of_nat_add split: if_splits)
    moreover have "raw_ok ((set_raw_buf m b3) \<lparr> iLenRawMsg := int ?n \<rparr>) (h @ new @ s)"
      using b3(3,4) b1(2) l101 buf by (intro raw_ok_bufI [of _ b3]) (simp_all add: set_raw_buf_size [OF buf])
    ultimately show ?thesis
      using buf by simp
  qed
qed

text \<open>The MSG part \<^verbatim>\<open>MsgReplaceMSG\<close> works on: offset and length, forced into the raw message.\<close>

definition norm_part :: "'j smsg \<Rightarrow> nat \<times> nat" where
  "norm_part m =
     (if offMSG m < 0 \<or> iLenRawMsg m < offMSG m then (nat (iLenRawMsg m), 0)
      else (nat (offMSG m), if iLenMSG m < 0 \<or> iLenRawMsg m - offMSG m < iLenMSG m
        then nat (iLenRawMsg m - offMSG m) else nat (iLenMSG m)))"

lemma norm_part_bound: "raw_ok m t \<Longrightarrow> fst (norm_part m) + snd (norm_part m) \<le> length t"
  by (auto simp: norm_part_def raw_ok_def)

lemma replace_msg_ok:
  assumes ok: "raw_ok m t" and small: "int (length t + length new) < 2 ^ 31 - 1"
  shows "\<exists>r m'. MsgReplaceMSG alloc m new = Some (r, m')
    \<and> (r = RS_RET_OK \<and> raw_ok m' (take (fst (norm_part m)) t @ new @ drop (fst (norm_part m) + snd (norm_part m)) t)
         \<and> offMSG m' = int (fst (norm_part m)) \<and> iLenMSG m' = int (length new)
       \<or> r = RS_RET_OUT_OF_MEMORY \<and> raw_ok m' t \<and> part_ok m')"
proof -
  obtain m1 b where m1: "(if pszRawMsg m = NullPtr
           then do { b \<leftarrow> buf_put (szRawMsg m) 0 NUL; Some (m \<lparr> pszRawMsg := Fixed, szRawMsg := b \<rparr>) }
           else Some m) = Some m1" "raw_ok m1 t" "raw_buf m1 = Some b" "offMSG m1 = offMSG m" "iLenMSG m1 = iLenMSG m"
  proof (cases "pszRawMsg m = NullPtr")
    case True
    then have t: "t = []" "length (szRawMsg m) = 101" "iLenRawMsg m = 0"
      using ok by (auto simp: raw_ok_def raw_buf_def)
    obtain b where b: "buf_memcpy (szRawMsg m) 0 [NUL] = Some b"
      using buf_memcpy_ex [of 0 "[NUL]" "szRawMsg m"] t(2) by auto
    let ?m = "m \<lparr> pszRawMsg := Fixed, szRawMsg := b \<rparr>"
    have "raw_ok ?m t"
      using t buf_memcpy_length [OF b] buf_read_memcpy_same [OF b] by (intro raw_ok_bufI [of _ b]) (simp_all add: raw_buf_def)
    then show ?thesis
      using that [of ?m b] True b by (simp add: buf_put_as_memcpy raw_buf_def)
  next
    case False
    then obtain b where "raw_buf m = Some b"
      by (cases "pszRawMsg m") (auto simp: raw_buf_def)
    then show ?thesis
      using that [of m b] False ok by simp
  qed
  have raw: "iLenRawMsg m = int (length t)" "iLenRawMsg m1 = int (length t)"
    using ok m1(2) by (simp_all add: raw_ok_def)
  obtain off len where n: "norm_part m = (off, len)"
    by fastforce
  then have bound: "off + len \<le> length t"
    using norm_part_bound [OF ok] by simp
  define m2 where "m2 = (if offMSG m1 < 0 \<or> iLenRawMsg m1 < offMSG m1 then m1 \<lparr> offMSG := iLenRawMsg m1, iLenMSG := 0 \<rparr>
              else if iLenMSG m1 < 0 \<or> iLenRawMsg m1 - offMSG m1 < iLenMSG m1
              then m1 \<lparr> iLenMSG := iLenRawMsg m1 - offMSG m1 \<rparr> else m1)"
  have m2: "offMSG m2 = int off" "iLenMSG m2 = int len" "raw_buf m2 = Some b" "raw_ok m2 t"
    using n raw m1(2-5) by (auto simp: m2_def norm_part_def raw_ok_def split: if_splits)
  define h d s where "h = take off t" and "d = take len (drop off t)" and "s = drop (off + len) t"
  have t: "t = h @ d @ s" "length h = off" "length d = len"
    using bound by (simp_all add: h_def d_def s_def) (metis append_take_drop_id drop_drop add.commute)
  obtain r m3 where m3: "msgReplaceRawMsgSegment alloc m2 (int off) (int len) new = Some (r, m3)"
      "r = RS_RET_OK \<and> raw_ok m3 (h @ new @ s) \<and> raw_buf m3 \<noteq> None \<and> offMSG m3 = offMSG m2
       \<or> r = RS_RET_OUT_OF_MEMORY \<and> m3 = m2"
    using replace_segment_ok [OF m2(4,3) t(1) small, of alloc] t(2,3) by auto
  have "MsgReplaceMSG alloc m new = (if r = RS_RET_OK then Some (r, m3 \<lparr> iLenMSG := int (length new) \<rparr>) else Some (r, m3))"
    unfolding MsgReplaceMSG_def m1(1) bind.bind_lunit Let_def m2_def [symmetric] m2(1,2) m3(1) prod.case ..
  moreover have "part_ok m2"
    using m2 bound raw by (auto simp: part_ok_def raw_ok_def)
  ultimately show ?thesis
    using m3(2) m2(1,4) n by (auto simp: raw_ok_def h_def s_def)
qed

lemma truncate_ok:
  assumes ok: "raw_ok m t" and part: "part_ok m" and size: "0 \<le> mx" "mx < iLenRawMsg m"
  shows "\<exists>m'. MsgTruncateToMaxSize m mx = Some m' \<and> raw_ok m' (take (nat mx) t) \<and> part_ok m'"
proof -
  have raw: "iLenRawMsg m = int (length t)"
    using ok by (simp add: raw_ok_def)
  then obtain b where b: "raw_buf m = Some b"
    using ok size by (auto simp: raw_ok_def split: option.splits)
  have lb: "length t < length b"
    using ok b buf_read_le [of b 0 "length t + 1"] by (auto simp: raw_ok_def)
  obtain b' where b': "buf_memcpy b (nat mx) [NUL] = Some b'"
    using buf_memcpy_ex [of "nat mx" "[NUL]" b] lb size raw by (auto simp: Suc_le_eq nat_less_iff)
  let ?m = "(set_raw_buf m b') \<lparr> iLenRawMsg := mx \<rparr>"
  have "buf_read b' 0 (nat mx) = Some (take (nat mx) t)"
    using buf_read_memcpy_before [OF b', of 0 "nat mx"] raw_ok_read [OF ok b, of 0 "nat mx"] size raw by simp
  moreover have "buf_read b' (0 + nat mx) 1 = Some [NUL]"
    using buf_read_memcpy_same [OF b'] by simp
  ultimately have "buf_read b' 0 (nat mx + 1) = Some (take (nat mx) t @ [NUL])"
    by (rule buf_read_join)
  then have "raw_ok (?m \<lparr> iLenMSG := l \<rparr>) (take (nat mx) t)" for l
    using ok b size raw buf_memcpy_length [OF b'] set_raw_buf_size [OF b, of b']
    by (intro raw_ok_bufI [of _ b']) (simp_all add: raw_ok_def min_absorb2)
  moreover have "MsgTruncateToMaxSize m mx = Some (?m \<lparr> iLenMSG := (if iLenMSG m < iLenRawMsg m - mx then 0
      else iLenMSG m - (iLenRawMsg m - mx)) \<rparr>)"
    using b b' size by (simp add: MsgTruncateToMaxSize_def buf_put_as_memcpy)
  ultimately show ?thesis
    using part size by (auto simp: part_ok_def)
qed

lemma msgoffs_ok:
  assumes "raw_ok m t" "length t < 2 ^ 31 - 1" "0 \<le> offs" "offs \<le> int (length t) + 1"
  shows "\<exists>m'. MsgSetMSGoffs m offs = Some m' \<and> raw_ok m' t \<and> part_ok m'"
  using assms by (auto simp: MsgSetMSGoffs_def raw_ok_def part_ok_def ck_int_def Let_def)

text \<open>What storing a raw message does, when its length fits an \<^verbatim>\<open>int\<close> and memory is available.\<close>

lemma set_raw_ok:
  assumes l101: "length (szRawMsg m) = 101" and len: "int (length s) < 2 ^ 31 - 1" "0 \<le> iLenRawMsg m" "iLenRawMsg m < 2 ^ 31"
    and mem: "length s < 101 \<or> alloc (length s + 1)" and part: "0 \<le> iLenMSG m" "iLenMSG m \<le> iLenRawMsg m + 1"
  shows "\<exists>m'. MsgSetRawMsg alloc m s = Some m' \<and> raw_ok m' s \<and> offMSG m' = offMSG m
    \<and> iLenMSG m' = (if offMSG m < int (length s) then iLenMSG m + int (length s) - iLenRawMsg m else 0)"
proof -
  have i: "int32 (int (length s)) = int (length s)"
    using len(1) by (intro int32_id) simp_all
  have ck: "ck_int (int (length s) - iLenRawMsg m) = Some (int (length s) - iLenRawMsg m)"
    "ck_int (iLenMSG m + (int (length s) - iLenRawMsg m)) = Some (iLenMSG m + int (length s) - iLenRawMsg m)"
    using len part by (simp_all add: ck_int_def)
  define p where "p = (if length s < 101 then Fixed else Heap (buf_new (length s + 1)))"
  have store: "(if int (length s) < CONF_RAWMSG_BUFSIZE then (Fixed, int (length s))
      else if alloc (nat (int (length s)) + 1) then (Heap (buf_new (nat (int (length s)) + 1)), int (length s))
      else (Fixed, CONF_RAWMSG_BUFSIZE - 1)) = (p, int (length s))"
    using mem by (auto simp: p_def conf_sizes)
  let ?m = "m \<lparr> pszRawMsg := p, iLenRawMsg := int (length s) \<rparr>"
  define b0 where "b0 = (if length s < 101 then szRawMsg m else buf_new (length s + 1))"
  have b0: "raw_buf ?m = Some b0" "length s < length b0"
    using l101 by (auto simp: p_def b0_def)
  obtain b1 where b1: "buf_memcpy b0 0 s = Some b1"
    using buf_memcpy_ex [of 0 s b0] b0(2) by auto
  obtain b2 where b2: "buf_memcpy b1 (length s) [NUL] = Some b2"
    using buf_memcpy_ex [of "length s" "[NUL]" b1] b0(2) buf_memcpy_length [OF b1] by auto
  have l2: "length b2 = length b0"
    using buf_memcpy_length [OF b1] buf_memcpy_length [OF b2] by simp
  have "buf_read b2 0 (length s) = Some s"
    using buf_read_memcpy_before [OF b2, of 0 "length s"] buf_read_memcpy_same [OF b1] by simp
  moreover have "buf_read b2 (0 + length s) 1 = Some [NUL]"
    using buf_read_memcpy_same [OF b2] by simp
  ultimately have "buf_read b2 0 (length s + 1) = Some (s @ [NUL])"
    by (rule buf_read_join)
  then have "raw_ok ((set_raw_buf ?m b2) \<lparr> iLenMSG := l \<rparr>) s" for l
    using b0 l2 l101 set_raw_buf_size [OF b0(1) l2] by (intro raw_ok_bufI [of _ b2]) simp_all
  moreover have "MsgSetRawMsg alloc m s = Some ((set_raw_buf ?m b2) \<lparr> iLenMSG :=
      (if offMSG m < int (length s) then iLenMSG m + int (length s) - iLenRawMsg m else 0) \<rparr>)"
    unfolding MsgSetRawMsg_def Let_def i ck(1) bind.bind_lunit store prod.case
    using b0(1) b1 b2 ck(2) by (simp add: buf_put_as_memcpy)
  ultimately show ?thesis
    by simp
qed

text \<open>Without memory for the text, the start of it is kept.\<close>

lemma set_raw_oom:
  assumes l101: "length (szRawMsg m) = 101" and len: "int (length s) < 2 ^ 31 - 1" "0 \<le> iLenRawMsg m" "iLenRawMsg m < 2 ^ 31"
    and mem: "101 \<le> length s" "\<not> alloc (length s + 1)" and part: "0 \<le> iLenMSG m" "iLenMSG m \<le> iLenRawMsg m + 1"
  shows "\<exists>m'. MsgSetRawMsg alloc m s = Some m' \<and> raw_ok m' (take 100 s)"
proof -
  have i: "int32 (int (length s)) = int (length s)"
    using len(1) by (intro int32_id) simp_all
  have ck: "ck_int (int (length s) - iLenRawMsg m) = Some (int (length s) - iLenRawMsg m)"
    "ck_int (iLenMSG m + (int (length s) - iLenRawMsg m)) = Some (iLenMSG m + int (length s) - iLenRawMsg m)"
    using len part by (simp_all add: ck_int_def)
  let ?m = "m \<lparr> pszRawMsg := Fixed, iLenRawMsg := 100 \<rparr>"
  obtain b1 where b1: "buf_memcpy (szRawMsg m) 0 (take 100 s) = Some b1"
    using buf_memcpy_ex [of 0 "take 100 s" "szRawMsg m"] l101 mem(1) by auto
  obtain b2 where b2: "buf_memcpy b1 100 [NUL] = Some b2"
    using buf_memcpy_ex [of 100 "[NUL]" b1] l101 buf_memcpy_length [OF b1] by auto
  have l2: "length b2 = 101"
    using buf_memcpy_length [OF b1] buf_memcpy_length [OF b2] l101 by simp
  have "buf_read b2 0 100 = Some (take 100 s)"
    using buf_read_memcpy_before [OF b2, of 0 100] buf_read_memcpy_same [OF b1, of 100] mem(1) by simp
  moreover have "buf_read b2 (0 + 100) 1 = Some [NUL]"
    using buf_read_memcpy_same [OF b2] by simp
  ultimately have "buf_read b2 0 (100 + 1) = Some (take 100 s @ [NUL])"
    by (rule buf_read_join)
  then have "raw_ok (set_raw_buf ?m b2 \<lparr> iLenMSG := l \<rparr>) (take 100 s)" for l
    using l2 mem(1) by (simp add: raw_ok_def raw_buf_def set_raw_buf_def)
  moreover have "MsgSetRawMsg alloc m s = Some (set_raw_buf ?m b2 \<lparr> iLenMSG :=
      (if offMSG m < 100 then iLenMSG m + int (length s) - iLenRawMsg m else 0) \<rparr>)"
    unfolding MsgSetRawMsg_def Let_def i ck(1) bind.bind_lunit
    using mem b1 b2 ck(2) by (simp add: conf_sizes buf_put_as_memcpy raw_buf_def set_raw_buf_def)
  ultimately show ?thesis
    by simp
qed

inductive msg_steps :: "(nat \<Rightarrow> bool) \<Rightarrow> 'j smsg \<Rightarrow> 'j smsg \<Rightarrow> bool" for alloc where
  start: "msg_steps alloc m m"
| replace: "msg_steps alloc m m' \<Longrightarrow> iLenRawMsg m' + int (length new) < 2 ^ 31 - 1
    \<Longrightarrow> MsgReplaceMSG alloc m' new = Some (r, m'') \<Longrightarrow> msg_steps alloc m m''"
| truncate: "msg_steps alloc m m' \<Longrightarrow> 0 \<le> mx \<Longrightarrow> mx < iLenRawMsg m' \<Longrightarrow> MsgTruncateToMaxSize m' mx = Some m''
    \<Longrightarrow> msg_steps alloc m m''"
| msgoffs: "msg_steps alloc m m' \<Longrightarrow> 0 \<le> offs \<Longrightarrow> MsgSetMSGoffs m' offs = Some m'' \<Longrightarrow> msg_steps alloc m m''"
| afterpri: "msg_steps alloc m m' \<Longrightarrow> MsgSetAfterPRIOffs m' offs = (r, m'') \<Longrightarrow> msg_steps alloc m m''"

definition msg_inv :: "'j smsg \<Rightarrow> bool" where
  "msg_inv m \<longleftrightarrow> (\<exists>t. raw_ok m t \<and> length t < 2 ^ 31 - 1) \<and> part_ok m"

lemma msg_steps_inv:
  assumes "msg_steps alloc m m'" "msg_inv m"
  shows "msg_inv m'"
  using assms
proof (induction rule: msg_steps.induct)
  case (replace m m' new r m'')
  then obtain t where t: "raw_ok m' t" "length t < 2 ^ 31 - 1" "iLenRawMsg m' = int (length t)"
    by (auto simp: msg_inv_def raw_ok_def)
  then have "int (length t + length new) < 2 ^ 31 - 1"
    using replace.hyps(2) by simp
  from replace_msg_ok [OF t(1) this, of alloc]
  consider "raw_ok m'' (take (fst (norm_part m')) t @ new @ drop (fst (norm_part m') + snd (norm_part m')) t)"
      "offMSG m'' = int (fst (norm_part m'))" "iLenMSG m'' = int (length new)"
    | "raw_ok m'' t" "part_ok m''"
    using replace.hyps(3) by auto
  then show ?case
  proof cases
    case 1
    let ?u = "take (fst (norm_part m')) t @ new @ drop (fst (norm_part m') + snd (norm_part m')) t"
    have "length ?u = fst (norm_part m') + length new + (length t - (fst (norm_part m') + snd (norm_part m')))"
      using norm_part_bound [OF t(1)] by (simp add: min_absorb2)
    moreover from this have "length ?u < 2 ^ 31 - 1"
      using norm_part_bound [OF t(1)] replace.hyps(2) t(3) by simp
    ultimately show ?thesis
      unfolding msg_inv_def using 1 by (intro conjI exI [of _ ?u]) (simp_all add: part_ok_def raw_ok_def)
  next
    case 2
    then show ?thesis
      using t(2) by (auto simp: msg_inv_def)
  qed
next
  case (truncate m m' mx m'')
  then obtain t where t: "raw_ok m' t" "length t < 2 ^ 31 - 1"
    by (auto simp: msg_inv_def)
  moreover have "length (take (nat mx) t) < 2 ^ 31 - 1"
    using t(2) by simp
  ultimately show ?case
    using truncate_ok [OF t(1)] truncate by (fastforce simp: msg_inv_def)
next
  case (msgoffs m m' offs m'')
  then show ?case
    by (auto simp: msg_inv_def MsgSetMSGoffs_def raw_ok_def part_ok_def Let_def Option.bind_eq_Some_conv ck_int_def split: if_splits)
next
  case (afterpri m m' offs r m'')
  then show ?case
    by (auto simp: MsgSetAfterPRIOffs_def msg_inv_def raw_ok_def part_ok_def split: if_splits)
qed

section \<open>PRI and the time of the day of the year\<close>

lemma pri_parts: "drop_bit 3 pri = pri div 8" "pri AND 7 = pri mod 8" for pri :: int
  using take_bit_eq_mask [of 3 pri] take_bit_eq_mod [of 3 pri]
  by (simp_all add: drop_bit_eq_div mask_eq_exp_minus_1)

lemma invld_values: "LOG_PRI_INVLD = 199" "LOG_INVLD = 192" "LOG_MAXPRI = 191" "LOG_FAC_INVLD = 24" "LOG_DEBUG = 7"
  by code_simp+

lemma set_pri_fields:
  assumes "0 \<le> pri"
  shows "iFacility (msgSetPRI m pri) = (if pri \<le> 191 then pri div 8 else 24)"
    "iSeverity (msgSetPRI m pri) = (if pri \<le> 191 then pri mod 8 else 7)"
proof -
  have "pri div 8 \<le> 191 div 8" if "pri \<le> 191"
    using that by (rule zdiv_mono1) simp
  then show "iFacility (msgSetPRI m pri) = (if pri \<le> 191 then pri div 8 else 24)"
    by (auto simp: msgSetPRI_def pri2fac_def pri_parts invld_values Let_def)
  show "iSeverity (msgSetPRI m pri) = (if pri \<le> 191 then pri mod 8 else 7)"
    by (simp add: msgSetPRI_def pri2sev_def pri_parts invld_values)
qed

lemma sdiv_day_bounds:
  "x sdiv 86400 < 0 \<longleftrightarrow> x \<le> - 86400" "366 \<le> x sdiv 86400 \<longleftrightarrow> 31622400 \<le> x" for x :: int
proof -
  have "x sdiv 86400 = (if 0 \<le> x then x div 86400 else - (- x div 86400))"
    by (simp add: signed_divide_int_def sgn_if)
  moreover have "0 < - x div 86400 \<longleftrightarrow> x \<le> - 86400"
    using pos_imp_zdiv_pos_iff [of 86400 "- x"] by linarith
  moreover have "0 \<le> x \<Longrightarrow> 0 \<le> x div 86400" "x < 0 \<Longrightarrow> 0 \<le> - x div 86400"
    by (simp_all add: pos_imp_zdiv_nonneg_iff)
  moreover have "366 \<le> x div 86400 \<longleftrightarrow> 31622400 \<le> x"
  proof
    assume a: "366 \<le> x div 86400"
    have "0 \<le> x mod 86400"
      by simp
    with a show "31622400 \<le> x"
      using div_mult_mod_eq [of x 86400] by linarith
  next
    assume "31622400 \<le> x"
    then have "31622400 div 86400 \<le> x div 86400"
      by (rule zdiv_mono1) simp
    then show "366 \<le> x div 86400"
      by simp
  qed
  ultimately show "x sdiv 86400 < 0 \<longleftrightarrow> x \<le> - 86400" "366 \<le> x sdiv 86400 \<longleftrightarrow> 31622400 \<le> x"
    by auto
qed

section \<open>Properties\<close>

text \<open>
  C10: Replacing the MSG part is a splice of the raw message: with memory available the bytes
  before and after the MSG part stay, the new text stands between them and is what is read as
  MSG afterwards; without memory the raw message is unchanged. No branch writes or reads
  outside a buffer, whether the text shrinks, grows in place, or moves to the heap.
\<close>

theorem replace_msg_splices:
  assumes "raw_ok m t" "int (length t + length new) < 2 ^ 31 - 1"
  shows "\<exists>r m'. MsgReplaceMSG alloc m new = Some (r, m')
    \<and> (r = RS_RET_OK \<and> getMSG m' = Some new
         \<and> getRawMsg m' = Some (take (fst (norm_part m)) t @ new @ drop (fst (norm_part m) + snd (norm_part m)) t)
       \<or> r = RS_RET_OUT_OF_MEMORY \<and> getRawMsg m' = Some t)"
proof -
  obtain r m' where r: "MsgReplaceMSG alloc m new = Some (r, m')"
    "r = RS_RET_OK \<and> raw_ok m' (take (fst (norm_part m)) t @ new @ drop (fst (norm_part m) + snd (norm_part m)) t)
         \<and> offMSG m' = int (fst (norm_part m)) \<and> iLenMSG m' = int (length new)
       \<or> r = RS_RET_OUT_OF_MEMORY \<and> raw_ok m' t \<and> part_ok m'"
    using replace_msg_ok [OF assms, of alloc] by (elim exE conjE) (rule that)
  have "getMSG m' = Some new" if ok: "raw_ok m' (take (fst (norm_part m)) t @ new @ s)"
      "offMSG m' = int (fst (norm_part m))" "iLenMSG m' = int (length new)" for s
  proof -
    have "part_ok m'"
      using ok norm_part_bound [OF assms(1)] by (simp add: part_ok_def raw_ok_def)
    then show ?thesis
      using getMSG_ok [OF ok(1)] ok(2,3) norm_part_bound [OF assms(1)] by (simp add: min_absorb2)
  qed
  then show ?thesis
    using r getRawMsg_ok by blast
qed

definition demo_msg :: "unit smsg" where
  "demo_msg = the (MsgSetRawMsg (\<lambda>n. True) (msgBaseConstruct 0) ''<13>host tag: hello'')"

lemma base_raw_ok: "raw_ok (msgBaseConstruct u) []" "part_ok (msgBaseConstruct u)"
  by (simp_all add: raw_ok_def part_ok_def msgBaseConstruct_def raw_buf_def conf_sizes)

lemma demo_msg_ok: "raw_ok demo_msg ''<13>host tag: hello''" "iLenMSG demo_msg = 19" "offMSG demo_msg = - 1"
proof -
  have "\<exists>m'. MsgSetRawMsg (\<lambda>n. True) (msgBaseConstruct 0 :: unit smsg) ''<13>host tag: hello'' = Some m'
      \<and> raw_ok m' ''<13>host tag: hello'' \<and> offMSG m' = - 1 \<and> iLenMSG m' = 19"
    using set_raw_ok [of "msgBaseConstruct 0 :: unit smsg" "''<13>host tag: hello''" "\<lambda>n. True"]
    by (simp add: msgBaseConstruct_def conf_sizes)
  then show "raw_ok demo_msg ''<13>host tag: hello''" "iLenMSG demo_msg = 19" "offMSG demo_msg = - 1"
    by (auto simp: demo_msg_def)
qed

theorem replace_msg_splices_witness:
  "\<exists>r m'. MsgReplaceMSG (\<lambda>n. True) demo_msg ''world'' = Some (r, m')
    \<and> (r = RS_RET_OK \<and> getMSG m' = Some ''world'' \<and> getRawMsg m' = Some ''<13>host tag: helloworld''
       \<or> r = RS_RET_OUT_OF_MEMORY \<and> getRawMsg m' = Some ''<13>host tag: hello'')"
proof -
  have "norm_part demo_msg = (19, 0)"
    using demo_msg_ok by (simp add: norm_part_def raw_ok_def)
  then show ?thesis
    using replace_msg_splices [OF demo_msg_ok(1), of "''world''" "\<lambda>n. True"] by simp
qed

text \<open>
  C30: The MSG part never leaves the raw message. Starting from a message whose parts are
  consistent, any sequence of replacing MSG, truncating to the maximum size, setting the MSG
  offset and setting the offset after the PRI leads to a consistent message: the raw text is
  terminated, and reading MSG yields a substring of it.
\<close>

theorem msg_part_stays_inside:
  assumes "msg_inv m" "msg_steps alloc m m'"
  shows "msg_inv m' \<and> (\<exists>t. getRawMsg m' = Some t \<and> getMSG m' = Some (take (nat (iLenMSG m')) (drop (nat (offMSG m')) t)))"
proof -
  have "msg_inv m'"
    using msg_steps_inv [OF assms(2,1)] .
  then show ?thesis
    using getRawMsg_ok getMSG_ok by (fastforce simp: msg_inv_def)
qed

theorem msg_part_stays_inside_witness:
  "\<exists>m1 m2 r m3. MsgSetMSGoffs demo_msg 14 = Some m1 \<and> MsgReplaceMSG (\<lambda>n. True) m1 ''good bye'' = Some (r, m2)
     \<and> MsgSetAfterPRIOffs m2 4 = (RS_RET_OK, m3) \<and> msg_inv m3
     \<and> (\<exists>t. getRawMsg m3 = Some t \<and> getMSG m3 = Some (take (nat (iLenMSG m3)) (drop (nat (offMSG m3)) t)))"
proof -
  obtain m1 where m1: "MsgSetMSGoffs demo_msg 14 = Some m1" "raw_ok m1 ''<13>host tag: hello''" "part_ok m1"
    using msgoffs_ok [OF demo_msg_ok(1), of 14] by auto
  have inv: "msg_inv m1"
    using m1 by (auto simp: msg_inv_def)
  obtain r m2 t where m2: "MsgReplaceMSG (\<lambda>n. True) m1 ''good bye'' = Some (r, m2)" "raw_ok m2 t" "4 \<le> length t"
  proof -
    obtain r m2 where "MsgReplaceMSG (\<lambda>n. True) m1 ''good bye'' = Some (r, m2)"
        "raw_ok m2 (take (fst (norm_part m1)) ''<13>host tag: hello'' @ ''good bye''
           @ drop (fst (norm_part m1) + snd (norm_part m1)) ''<13>host tag: hello'') \<or> raw_ok m2 ''<13>host tag: hello''"
      using replace_msg_ok [OF m1(2), of "''good bye''" "\<lambda>n. True"] by auto
    then show thesis
      by (elim disjE) (rule that, assumption+, simp)+
  qed
  let ?m3 = "m2 \<lparr> offAfterPRI := 4 \<rparr>"
  have m3: "MsgSetAfterPRIOffs m2 4 = (RS_RET_OK, ?m3)"
    using m2(2,3) by (simp add: MsgSetAfterPRIOffs_def raw_ok_def)
  have "msg_steps (\<lambda>n. True) m1 m2"
    using m1(2) m2(1) by (intro msg_steps.replace [OF msg_steps.start, of m1 "''good bye''"]) (simp_all add: raw_ok_def)
  then have "msg_steps (\<lambda>n. True) m1 ?m3"
    using m3 by (rule msg_steps.afterpri)
  then show ?thesis
    using msg_part_stays_inside [OF inv] m1(1) m2(1) m3 by blast
qed

text \<open>
  C31: Storing raw messages breaks this. When a message is replaced by one that ends before the
  MSG offset and then by one that reaches beyond it, the cached length of MSG grows by the
  difference of the two raw lengths although it had been cut to zero: MSG extends past the end
  of the raw message by exactly the amount the shorter one missed the offset.
\<close>

theorem set_raw_after_shrink:
  assumes "raw_ok m a" "0 \<le> iLenMSG m" "iLenMSG m \<le> iLenRawMsg m"
    "int (length b) < offMSG m" "offMSG m < int (length c)" "length b \<le> 100" "length c \<le> 100" "length a < 2 ^ 31 - 1"
  shows "\<exists>m1 m2. MsgSetRawMsg alloc m b = Some m1 \<and> MsgSetRawMsg alloc m1 c = Some m2
    \<and> getRawMsg m2 = Some c \<and> offMSG m2 + iLenMSG m2 = int (length c) + (offMSG m - int (length b)) \<and> \<not> part_ok m2"
proof -
  obtain m1 where m1: "MsgSetRawMsg alloc m b = Some m1" "raw_ok m1 b" "offMSG m1 = offMSG m" "iLenMSG m1 = 0"
    using set_raw_ok [of m b alloc] assms by (auto simp: raw_ok_def)
  obtain m2 where m2: "MsgSetRawMsg alloc m1 c = Some m2" "raw_ok m2 c" "offMSG m2 = offMSG m"
    "iLenMSG m2 = int (length c) - int (length b)"
    using set_raw_ok [of m1 c alloc] m1 assms by (auto simp: raw_ok_def)
  show ?thesis
    using m1(1) m2 assms(4,5) getRawMsg_ok [OF m2(2)] by (auto simp: part_ok_def raw_ok_def)
qed

theorem set_raw_after_shrink_witness:
  "\<exists>m0 m1 m2. MsgSetMSGoffs demo_msg 14 = Some m0 \<and> MsgSetRawMsg (\<lambda>n. True) m0 ''short'' = Some m1
     \<and> MsgSetRawMsg (\<lambda>n. True) m1 ''long enough to reach'' = Some m2 \<and> \<not> part_ok m2"
proof -
  have "\<exists>m0. MsgSetMSGoffs demo_msg 14 = Some m0 \<and> raw_ok m0 ''<13>host tag: hello'' \<and> offMSG m0 = 14 \<and> iLenMSG m0 = 5"
    using demo_msg_ok(1) by (auto simp: MsgSetMSGoffs_def raw_ok_def ck_int_def Let_def)
  then obtain m0 where m0: "MsgSetMSGoffs demo_msg 14 = Some m0" "raw_ok m0 ''<13>host tag: hello''" "offMSG m0 = 14" "iLenMSG m0 = 5"
    by (elim exE conjE) (rule that)
  then show ?thesis
    using set_raw_after_shrink [OF m0(2), of "''short''" "''long enough to reach''" "\<lambda>n. True"]
    by (auto simp: raw_ok_def)
qed

text \<open>
  C33: A PRI that was set is read back: values up to 191 unchanged, larger ones as the invalid
  PRI, and the facility and severity names are defined for it. A message whose PRI was never
  set holds a facility code outside the table of names, and asking for its text reads behind
  that table.
\<close>

theorem pri_set_get:
  fixes m :: "'j smsg"
  assumes "0 \<le> pri"
  shows "getPRIi (msgSetPRI m pri) = (if pri \<le> LOG_MAXPRI then pri else LOG_PRI_INVLD)
    \<and> textpri alloc (msgSetPRI m pri) \<noteq> None \<and> textpri alloc (msgBaseConstruct u :: 'j smsg) = None"
proof -
  have len: "length len_syslog_fac_names = 25" "length syslog_fac_names = 25"
    "length len_syslog_severity_names = 8" "length syslog_severity_names = 8"
    by (simp_all add: len_syslog_fac_names_def syslog_fac_names_def len_syslog_severity_names_def syslog_severity_names_def)
  have "0 \<le> pri div 8" "pri \<le> 191 \<Longrightarrow> pri div 8 \<le> 191 div 8" "0 \<le> pri mod 8" "pri mod 8 < 8"
    using assms zdiv_mono1 [of pri 191 8] by (simp_all add: pos_imp_zdiv_nonneg_iff)
  then have r: "0 \<le> iFacility (msgSetPRI m pri)" "iFacility (msgSetPRI m pri) < 25"
    "0 \<le> iSeverity (msgSetPRI m pri)" "iSeverity (msgSetPRI m pri) < 8"
    unfolding set_pri_fields [OF assms] by auto
  have "8 * (pri div 8) + pri mod 8 = pri"
    by simp
  then have "getPRIi (msgSetPRI m pri) = (if pri \<le> 191 then pri else 199)"
    unfolding getPRIi_def set_pri_fields [OF assms] invld_values Let_def push_bit_eq_mult using assms by auto
  moreover have "textpri alloc (msgSetPRI m pri) \<noteq> None"
    using r by (simp add: textpri_def arr_def len)
  moreover have "textpri alloc (msgBaseConstruct u :: 'j smsg) = None"
    by (simp add: textpri_def arr_def len msgBaseConstruct_def invld_values)
  ultimately show ?thesis
    by (simp add: invld_values)
qed

theorem pri_set_get_witness:
  "getPRIi (msgSetPRI demo_msg 165) = 165 \<and> textpri (\<lambda>n. True) (msgBaseConstruct 0 :: unit smsg) = None"
  using pri_set_get [of 165 demo_msg "\<lambda>n. True" 0] by (simp add: invld_values)

text \<open>
  C32: The day of the year is looked up in a table of 366 texts. Exactly when the lookup is out
  of bounds: for a timestamp that is not ahead of UTC in the last second of the last day of a
  leap year; for one ahead of UTC in the last two seconds of that day if the offset is zero, and on
  the first of January while twice the offset is at least a day, two seconds and the time of day, as
  the offset is subtracted twice.
\<close>

theorem ordinal_lookup_bounds:
  assumes "valid_date ts" "0 \<le> time_of_day ts" "time_of_day ts \<le> 86400"
    "0 \<le> OffsetHour ts" "OffsetHour ts \<le> 23" "0 \<le> OffsetMinute ts" "OffsetMinute ts \<le> 59"
  shows "time_part tplFmtOrdinal ts = None \<longleftrightarrow>
    (if OffsetMode ts = CHR ''+''
     then days_before_month (year ts) (month ts) + day ts = 366 \<and> zone_offset ts = 0 \<and> 86398 \<le> time_of_day ts
       \<or> days_before_month (year ts) (month ts) + day ts = 1 \<and> time_of_day ts + 86402 \<le> 2 * zone_offset ts
     else days_before_month (year ts) (month ts) + day ts = 366 \<and> 86399 \<le> time_of_day ts)"
proof -
  have len: "length daysInYear = 366"
    by (simp add: daysInYear_def)
  let ?o = "days_before_month (year ts) (month ts) + day ts - 1"
  have o: "0 \<le> ?o" "?o \<le> 365"
    using assms(1) day_of_year_range [of "month ts" "day ts" "year ts"] by (simp_all add: valid_date_def year_len_def split: if_splits)
  have "getOrdinal ts = (86400 * ?o + (time_of_day ts + day_slip ts)) sdiv 86400"
    using ordinal_eq [of ts] assms(1) by (simp add: valid_date_def)
  then have "time_part tplFmtOrdinal ts = None \<longleftrightarrow>
      86400 * ?o + (time_of_day ts + day_slip ts) \<le> - 86400 \<or> 31622400 \<le> 86400 * ?o + (time_of_day ts + day_slip ts)"
    by (simp only: sdiv_day_bounds [symmetric]) (auto simp: time_part_def arr_def len)
  moreover have "zone_offset ts = 0 \<or> 60 \<le> zone_offset ts" "zone_offset ts \<le> 86340" if "OffsetMode ts = CHR ''+''"
    using that assms(4-7) by (cases "OffsetHour ts = 0 \<and> OffsetMinute ts = 0"; auto simp: zone_offset_def)+
  ultimately show ?thesis
    using o assms(2,3) unfolding day_slip_def by (cases "OffsetMode ts = CHR ''+''") (simp_all, linarith+)
qed

theorem ordinal_lookup_bounds_witness:
  "time_part tplFmtOrdinal (demo_time \<lparr> OffsetMode := CHR ''-'', month := 12, day := 31, second := 59 \<rparr>) = None
   \<and> time_part tplFmtOrdinal (demo_time \<lparr> OffsetHour := 0, OffsetMinute := 0, month := 12, day := 31 \<rparr>) = None
   \<and> time_part tplFmtOrdinal (demo_time \<lparr> OffsetHour := 14, OffsetMinute := 0, month := 1, day := 1, hour := 0,
        minute := 0, second := 0 \<rparr>) = None
   \<and> time_part tplFmtOrdinal demo_time \<noteq> None"
  using ordinal_lookup_bounds [of "demo_time \<lparr> OffsetMode := CHR ''-'', month := 12, day := 31, second := 59 \<rparr>"]
    ordinal_lookup_bounds [of "demo_time \<lparr> OffsetHour := 0, OffsetMinute := 0, month := 12, day := 31 \<rparr>"]
    ordinal_lookup_bounds [of "demo_time \<lparr> OffsetHour := 14, OffsetMinute := 0, month := 1, day := 1, hour := 0,
        minute := 0, second := 0 \<rparr>"]
    ordinal_lookup_bounds [of demo_time]
  by (simp add: demo_time_def valid_date_def month_len_def time_of_day_def zone_offset_def days_before_months leap_def)

section \<open>The peer\<close>

lemma length_udec: "n < 10 ^ k \<Longrightarrow> length (udec n) \<le> max k 1"
proof (induction k arbitrary: n)
  case 0
  then show ?case
    by (subst udec.simps) simp
next
  case (Suc k)
  show ?case
  proof (cases "n < 10")
    case True
    then show ?thesis
      by (subst udec.simps) simp
  next
    case False
    then have "k \<noteq> 0" "n div 10 < 10 ^ k"
      using Suc.prems by (cases k; auto simp: less_mult_imp_div_less mult.commute)+
    then have "length (udec (n div 10)) \<le> k"
      using Suc.IH [of "n div 10"] by simp
    then show ?thesis
      using False by (subst udec.simps) simp
  qed
qed

lemma sock_port_less: "sock_port sa < 10 ^ 5"
proof -
  have "n mod 2 ^ 16 < 10 ^ 5" for n :: nat
    using mod_less_divisor [of "2 ^ 16" n] by simp
  then show ?thesis
    by (cases sa) (simp_all add: sock_port_def)
qed

lemma resolve_ok:
  assumes "needs_dns m" "rcvFrom m = FromInet sa" "cvthname sa (msgFlags m AND PRESERVE_CASE \<noteq> 0) = (RS_RET_OK, name, ip)"
  shows "\<exists>m'. resolveDNS (\<lambda>n. True) cvthname m = Some (RS_RET_OK, m') \<and> rcvFrom m' = FromProp name \<and> pRcvFromIP m' = Some ip \<and> \<not> needs_dns m'"
proof -
  have "length (udec (sock_port sa)) < 2 ^ 31 - 1"
    using length_udec [OF sock_port_less [of sa]] by simp
  then obtain p where p: "CreateStringProp (\<lambda>n. True) (map Some (udec (sock_port sa) @ [NUL])) (int (length (udec (sock_port sa))))
      = Some (RS_RET_OK, Some p)"
    using CreateStringProp_ok [of "udec (sock_port sa)" "map Some (udec (sock_port sa) @ [NUL])" "\<lambda>n. True"] by auto
  have off: "(msgFlags m AND NOT NEEDS_DNSRESOL) AND NEEDS_DNSRESOL = 0"
    by (rule bit_word_eqI) (simp add: bit_simps)
  show ?thesis
    using assms p off
    by (auto simp: resolveDNS_def MsgSetRcvFromWithoutAddRef_def needs_dns_def Let_def)
qed

text \<open>
  C36: The name of the peer of a message that still has to be resolved. When the name lookup succeeds, the name it
  found is returned, the flag is cleared, and asking again gives the same without a further
  lookup. When it fails, the union still holds the socket address, but is read as a property.
\<close>

theorem peer_name_lookup:
  assumes "needs_dns m" "rcvFrom m = FromInet sa" "cvthname sa (msgFlags m AND PRESERVE_CASE \<noteq> 0) = (r, name, ip)"
    "prop_sz (Some name) = Some s"
  shows "(r = RS_RET_OK \<longrightarrow> (\<exists>m'. getRcvFrom (\<lambda>n. True) cvthname m = Some (s, m') \<and> \<not> needs_dns m'
       \<and> (\<forall>cvt. getRcvFrom (\<lambda>n. True) cvt m' = Some (s, m'))))
    \<and> (r \<noteq> RS_RET_OK \<longrightarrow> getRcvFrom (\<lambda>n. True) cvthname m = None)"
proof (cases "r = RS_RET_OK")
  case True
  then obtain m' where "resolveDNS (\<lambda>n. True) cvthname m = Some (RS_RET_OK, m')" "rcvFrom m' = FromProp name" "\<not> needs_dns m'"
    using resolve_ok [OF assms(1,2)] assms(3) by blast
  then show ?thesis
    using True assms(4) by (auto simp: getRcvFrom_def pRcvFrom_def resolveDNS_def [of _ _ m'])
next
  case False
  then show ?thesis
    using assms by (simp add: getRcvFrom_def resolveDNS_def pRcvFrom_def)
qed

theorem peer_name_lookup_witness:
  "\<exists>m'. getRcvFrom (\<lambda>n. True) (\<lambda>sa keep. (RS_RET_OK, \<lparr> szVal = UnionBuf (map Some ''host'' @ [Some NUL]), prop_len = 4 \<rparr>,
       \<lparr> szVal = UnionNull, prop_len = 0 \<rparr>)) (demo_msg \<lparr> msgFlags := 0x040, rcvFrom := FromInet (AF_INET 514) \<rparr>) = Some (''host'', m')
     \<and> getRcvFrom (\<lambda>n. True) (\<lambda>sa keep. (RS_RET_OUT_OF_MEMORY, \<lparr> szVal = UnionBuf (map Some ''host'' @ [Some NUL]), prop_len = 4 \<rparr>,
       \<lparr> szVal = UnionNull, prop_len = 0 \<rparr>)) (demo_msg \<lparr> msgFlags := 0x040, rcvFrom := FromInet (AF_INET 514) \<rparr>) = None"
proof -
  let ?p = "\<lparr> szVal = UnionBuf (map Some ''host'' @ [Some NUL]), prop_len = 4 \<rparr>" and ?q = "\<lparr> szVal = UnionNull, prop_len = 0 \<rparr>"
  let ?m = "demo_msg \<lparr> msgFlags := 0x040, rcvFrom := FromInet (AF_INET 514) \<rparr>"
  have "prop_sz (Some ?p) = Some ''host''"
    by (simp add: prop_sz_def GetString_def CONF_PROP_BUFSIZE_def union_cells_def)
  moreover have "needs_dns ?m"
    by (simp add: needs_dns_def NEEDS_DNSRESOL_def)
  ultimately show ?thesis
    using peer_name_lookup [of ?m "AF_INET 514" "\<lambda>sa keep. (RS_RET_OK, ?p, ?q)" RS_RET_OK ?p ?q "''host''"]
      peer_name_lookup [of ?m "AF_INET 514" "\<lambda>sa keep. (RS_RET_OUT_OF_MEMORY, ?p, ?q)" RS_RET_OUT_OF_MEMORY ?p ?q "''host''"]
    by auto
qed

end
