(* ===== verification/Segdisk_Codec.thy ===== *)
theory Segdisk_Codec
imports Msg Segdisk_Bytes Linked_List
begin

text \<open>
  The binary form of a message in the segmented disk queue, \<^verbatim>\<open>runtime/segdisk_codec.c\<close>: a
  sequence of fields, each with an identifier, a type, flags, a length and a payload. The
  encoder appends to a buffer that grows up to a limit; the decoder builds a new message with
  the setters of the message object. The lemmas show that a record that was written is read
  back as the same message, and what the decoder does with records it was not meant to get.
\<close>

unbundle bit_operations_syntax

section \<open>Fields\<close>

definition TLV_HDR_LEN :: nat where "TLV_HDR_LEN = 8"
definition TLV_CRITICAL :: byte where "TLV_CRITICAL = 0x01"
definition TLV_MAX_PAYLOAD :: nat where "TLV_MAX_PAYLOAD = 128 * 1024 * 1024"

datatype tlv_type = TLV_U8 | TLV_U16 | TLV_U32 | TLV_U64 | TLV_BYTES | TLV_TIME

primrec type_num :: "tlv_type \<Rightarrow> byte" where
  "type_num TLV_U8 = 1"
| "type_num TLV_U16 = 2"
| "type_num TLV_U32 = 3"
| "type_num TLV_U64 = 4"
| "type_num TLV_BYTES = 5"
| "type_num TLV_TIME = 6"

datatype tlv_field =
    F_PROTOCOL | F_SEVERITY | F_FACILITY | F_FLAGS | F_GENTIME | F_RECEIVED | F_TIMESTAMP | F_TAG | F_RAWMSG
  | F_HOSTNAME | F_INPUTNAME | F_RCVFROM | F_RCVFROMIP | F_RCVFROMPORT | F_STRUCTURED_DATA | F_JSON
  | F_LOCALVARS | F_APPNAME | F_PROCID | F_MSGID | F_UUID | F_RULESET | F_MSG_OFFSET | F_AFTER_PRI_OFFSET
  | F_PARSE_SUCCESS

definition all_fields :: "tlv_field list" where
  "all_fields = [F_PROTOCOL, F_SEVERITY, F_FACILITY, F_FLAGS, F_GENTIME, F_RECEIVED, F_TIMESTAMP, F_TAG, F_RAWMSG,
     F_HOSTNAME, F_INPUTNAME, F_RCVFROM, F_RCVFROMIP, F_RCVFROMPORT, F_STRUCTURED_DATA, F_JSON,
     F_LOCALVARS, F_APPNAME, F_PROCID, F_MSGID, F_UUID, F_RULESET, F_MSG_OFFSET, F_AFTER_PRI_OFFSET,
     F_PARSE_SUCCESS]"

text \<open>The number of a field, and the field with a number.\<close>

primrec field_num :: "tlv_field \<Rightarrow> nat" where
  "field_num F_PROTOCOL = 1"
| "field_num F_SEVERITY = 2"
| "field_num F_FACILITY = 3"
| "field_num F_FLAGS = 4"
| "field_num F_GENTIME = 5"
| "field_num F_RECEIVED = 6"
| "field_num F_TIMESTAMP = 7"
| "field_num F_TAG = 8"
| "field_num F_RAWMSG = 9"
| "field_num F_HOSTNAME = 10"
| "field_num F_INPUTNAME = 11"
| "field_num F_RCVFROM = 12"
| "field_num F_RCVFROMIP = 13"
| "field_num F_RCVFROMPORT = 14"
| "field_num F_STRUCTURED_DATA = 15"
| "field_num F_JSON = 16"
| "field_num F_LOCALVARS = 17"
| "field_num F_APPNAME = 18"
| "field_num F_PROCID = 19"
| "field_num F_MSGID = 20"
| "field_num F_UUID = 21"
| "field_num F_RULESET = 22"
| "field_num F_MSG_OFFSET = 23"
| "field_num F_AFTER_PRI_OFFSET = 24"
| "field_num F_PARSE_SUCCESS = 25"

definition field_of :: "nat \<Rightarrow> tlv_field option" where
  "field_of n = find (\<lambda>f. field_num f = n) all_fields"

text \<open>Machine bytes as the characters of a C buffer, and back.\<close>

abbreviation chars :: "byte list \<Rightarrow> char list" where
  "chars \<equiv> map char_of_byte"

abbreviation bytes_of :: "char list \<Rightarrow> byte list" where
  "bytes_of \<equiv> map byte_of_char"

section \<open>The buffer of the encoder\<close>

record encbuf =
  data :: buf
  enc_len :: nat
  enc_cap :: nat

text \<open>The capacity is doubled until it is large enough, or is set to the limit.\<close>

partial_function (option) cap_loop :: "nat \<Rightarrow> nat \<Rightarrow> nat option" where
  [code]: "cap_loop cap need =
     (if need \<le> cap then Some cap
      else if TLV_MAX_PAYLOAD div 2 < cap then Some TLV_MAX_PAYLOAD
      else cap_loop (cap * 2) need)"

definition reserve :: "(nat \<Rightarrow> bool) \<Rightarrow> encbuf \<Rightarrow> nat \<Rightarrow> (rsRetVal \<times> encbuf) option" where
  "reserve alloc b add =
     (if TLV_MAX_PAYLOAD < add \<or> TLV_MAX_PAYLOAD - add < enc_len b then Some (RS_RET_FILE_TOO_LARGE, b)
      else let need = enc_len b + add in
        if need \<le> enc_cap b then Some (RS_RET_OK, b)
        else do {
          cap \<leftarrow> cap_loop (if enc_cap b = 0 then 1024 else enc_cap b) need;
          if alloc cap then Some (RS_RET_OK, b \<lparr> data := buf_realloc (data b) cap, enc_cap := cap \<rparr>)
          else Some (RS_RET_OUT_OF_MEMORY, b) })"

text \<open>The payload is the first \<^verbatim>\<open>len\<close> bytes at the pointer \<^verbatim>\<open>src\<close>; a length is a \<^verbatim>\<open>size_t\<close>.\<close>

definition add_tlv ::
    "(nat \<Rightarrow> bool) \<Rightarrow> encbuf \<Rightarrow> tlv_field \<Rightarrow> tlv_type \<Rightarrow> byte \<Rightarrow> buf \<Rightarrow> int \<Rightarrow> (rsRetVal \<times> encbuf) option" where
  "add_tlv alloc b field ty flags src len =
     (let len = nat (len mod 2 ^ 64) in
      if 2 ^ 32 - 1 < len then Some (RS_RET_FILE_TOO_LARGE, b)
      else do {
        (r, b) \<leftarrow> reserve alloc b (TLV_HDR_LEN + len);
        if r \<noteq> RS_RET_OK then Some (r, b)
        else do {
          d \<leftarrow> buf_memcpy (data b) (enc_len b) (chars (put16 (of_nat (field_num field))));
          d \<leftarrow> buf_put d (enc_len b + 2) (char_of_byte (type_num ty));
          d \<leftarrow> buf_put d (enc_len b + 3) (char_of_byte flags);
          d \<leftarrow> buf_memcpy d (enc_len b + 4) (chars (put32 (of_nat len)));
          d \<leftarrow> (if len \<noteq> 0
                then do { cs \<leftarrow> buf_read src 0 len; buf_memcpy d (enc_len b + TLV_HDR_LEN) cs }
                else Some d);
          Some (RS_RET_OK, b \<lparr> data := d, enc_len := enc_len b + TLV_HDR_LEN + len \<rparr>) } })"

definition add_u8 :: "(nat \<Rightarrow> bool) \<Rightarrow> encbuf \<Rightarrow> tlv_field \<Rightarrow> byte \<Rightarrow> (rsRetVal \<times> encbuf) option" where
  "add_u8 alloc b f v = add_tlv alloc b f TLV_U8 0 (map Some (chars [v])) 1"

definition add_u16 :: "(nat \<Rightarrow> bool) \<Rightarrow> encbuf \<Rightarrow> tlv_field \<Rightarrow> 16 word \<Rightarrow> (rsRetVal \<times> encbuf) option" where
  "add_u16 alloc b f v = add_tlv alloc b f TLV_U16 0 (map Some (chars (put16 v))) 2"

definition add_u32 :: "(nat \<Rightarrow> bool) \<Rightarrow> encbuf \<Rightarrow> tlv_field \<Rightarrow> 32 word \<Rightarrow> (rsRetVal \<times> encbuf) option" where
  "add_u32 alloc b f v = add_tlv alloc b f TLV_U32 0 (map Some (chars (put32 v))) 4"

definition add_u64 :: "(nat \<Rightarrow> bool) \<Rightarrow> encbuf \<Rightarrow> tlv_field \<Rightarrow> 64 word \<Rightarrow> (rsRetVal \<times> encbuf) option" where
  "add_u64 alloc b f v = add_tlv alloc b f TLV_U64 0 (map Some (chars (put64 v))) 8"

definition add_bytes :: "(nat \<Rightarrow> bool) \<Rightarrow> encbuf \<Rightarrow> tlv_field \<Rightarrow> buf option \<Rightarrow> int \<Rightarrow> (rsRetVal \<times> encbuf) option" where
  "add_bytes alloc b f p len = (case p of None \<Rightarrow> Some (RS_RET_OK, b) | Some src \<Rightarrow> add_tlv alloc b f TLV_BYTES 0 src len)"

text \<open>The twenty bytes of a timestamp.\<close>

definition time_bytes :: "syslogTime \<Rightarrow> byte list" where
  "time_bytes t =
     [of_int (timeType t), of_int (month t), of_int (day t), of_int (wday t), of_int (hour t), of_int (minute t),
      of_int (second t), of_int (secfracPrecision t), of_int (OffsetMinute t), of_int (OffsetHour t),
      byte_of_char (OffsetMode t), of_int (inUTC t)]
     @ put16 (of_int (year t)) @ put32 (of_int (secfrac t)) @ [0, 0]"

definition add_time :: "(nat \<Rightarrow> bool) \<Rightarrow> encbuf \<Rightarrow> tlv_field \<Rightarrow> syslogTime \<Rightarrow> (rsRetVal \<times> encbuf) option" where
  "add_time alloc b f t = add_tlv alloc b f TLV_TIME 0 (map Some (chars (time_bytes t))) 20"

text \<open>A JSON value is printed by the JSON library; the text is copied before it is added.\<close>

definition add_json ::
    "(nat \<Rightarrow> bool) \<Rightarrow> ('j \<Rightarrow> char list option) \<Rightarrow> encbuf \<Rightarrow> tlv_field \<Rightarrow> 'j option \<Rightarrow> (rsRetVal \<times> encbuf) option" where
  "add_json alloc to_json_string b f j =
     (case j of
        None \<Rightarrow> Some (RS_RET_OK, b)
      | Some j \<Rightarrow>
          (case to_json_string j of
             None \<Rightarrow> Some (RS_RET_OUT_OF_MEMORY, b)
           | Some s \<Rightarrow>
               if alloc (strlen s + 1)
               then add_bytes alloc b f (Some (map Some (take (strlen s) s @ [NUL]))) (int (strlen s))
               else Some (RS_RET_OUT_OF_MEMORY, b)))"

definition add_cstr :: "(nat \<Rightarrow> bool) \<Rightarrow> encbuf \<Rightarrow> tlv_field \<Rightarrow> cstr option \<Rightarrow> (rsRetVal \<times> encbuf) option" where
  "add_cstr alloc b f c =
     (case c of None \<Rightarrow> Some (RS_RET_OK, b) | Some c \<Rightarrow> add_bytes alloc b f (pBuf c) (int (iStrLen c)))"

section \<open>Encoding\<close>

text \<open>
  The macro of the encoder: go on with the buffer when the call succeeded, otherwise give up
  the buffer and return the code. The message is returned as well, as its getters change it.
\<close>

definition ADD :: "'m \<Rightarrow> (rsRetVal \<times> encbuf) option \<Rightarrow> (encbuf \<Rightarrow> (rsRetVal \<times> char list option \<times> 'm) option)
    \<Rightarrow> (rsRetVal \<times> char list option \<times> 'm) option" where
  "ADD m call k = do { (r, b) \<leftarrow> call; if r \<noteq> RS_RET_OK then Some (r, None, m) else k b }"

definition hostname_cells :: "'j smsg \<Rightarrow> buf option" where
  "hostname_cells m = (case pszHOSTNAME m of NullPtr \<Rightarrow> None | Fixed \<Rightarrow> Some (szHOSTNAME m) | Heap b \<Rightarrow> Some b)"

text \<open>A string with its terminator, as the memory at a pointer.\<close>

abbreviation sz_cells :: "char list \<Rightarrow> buf" where
  "sz_cells s \<equiv> map Some (s @ [NUL])"

definition segdiskCodecEncode ::
    "(nat \<Rightarrow> bool) \<Rightarrow> (sockaddr \<Rightarrow> bool \<Rightarrow> rsRetVal \<times> prop_s \<times> prop_s) \<Rightarrow> ('j \<Rightarrow> char list option)
      \<Rightarrow> 'j smsg \<Rightarrow> (rsRetVal \<times> char list option \<times> 'j smsg) option" where
  "segdiskCodecEncode alloc cvthname to_json_string m =
     (let b = \<lparr> data = [], enc_len = 0, enc_cap = 0 \<rparr> in
      ADD m (add_u16 alloc b F_PROTOCOL (of_int (iProtocolVersion m))) (\<lambda>b.
      ADD m (add_u16 alloc b F_SEVERITY (of_int (iSeverity m))) (\<lambda>b.
      ADD m (add_u16 alloc b F_FACILITY (of_int (iFacility m))) (\<lambda>b.
      ADD m (add_u32 alloc b F_FLAGS (msgFlags m)) (\<lambda>b.
      ADD m (add_u64 alloc b F_GENTIME (of_int (ttGenTime m))) (\<lambda>b.
      ADD m (add_time alloc b F_RECEIVED (tRcvdAt m)) (\<lambda>b.
      ADD m (add_time alloc b F_TIMESTAMP (tTIMESTAMP m)) (\<lambda>b.
      do { (tag, m) \<leftarrow> getTAG alloc m;
      ADD m (add_bytes alloc b F_TAG (Some (sz_cells tag)) (int (length tag))) (\<lambda>b.
      do { raw \<leftarrow> getRawMsg m;
      ADD m (add_bytes alloc b F_RAWMSG (Some (sz_cells raw)) (int (length raw))) (\<lambda>b.
      ADD m (add_bytes alloc b F_HOSTNAME (hostname_cells m) (iLenHOSTNAME m)) (\<lambda>b.
      do { input \<leftarrow> getInputName m;
      ADD m (add_bytes alloc b F_INPUTNAME (Some (sz_cells input)) (int (length input))) (\<lambda>b.
      do { (t, m) \<leftarrow> getRcvFrom alloc cvthname m;
      ADD m (add_bytes alloc b F_RCVFROM (Some (sz_cells t)) (int (length t))) (\<lambda>b.
      do { (t, m) \<leftarrow> getRcvFromIP alloc cvthname m;
      ADD m (add_bytes alloc b F_RCVFROMIP (Some (sz_cells t)) (int (length t))) (\<lambda>b.
      do { (t, m) \<leftarrow> getRcvFromPort alloc cvthname m;
      ADD m (add_bytes alloc b F_RCVFROMPORT (Some (sz_cells t)) (int (length t))) (\<lambda>b.
      ADD m (case pszStrucData m of None \<Rightarrow> Some (RS_RET_OK, b)
             | Some t \<Rightarrow> add_bytes alloc b F_STRUCTURED_DATA (Some (sz_cells t)) (int (length t))) (\<lambda>b.
      ADD m (add_json alloc to_json_string b F_JSON (json m)) (\<lambda>b.
      ADD m (add_json alloc to_json_string b F_LOCALVARS (localvars m)) (\<lambda>b.
      ADD m (add_cstr alloc b F_APPNAME (pCSAPPNAME m)) (\<lambda>b.
      ADD m (add_cstr alloc b F_PROCID (pCSPROCID m)) (\<lambda>b.
      ADD m (add_cstr alloc b F_MSGID (pCSMSGID m)) (\<lambda>b.
      ADD m (case pszUUID m of None \<Rightarrow> Some (RS_RET_OK, b)
             | Some t \<Rightarrow> add_bytes alloc b F_UUID (Some (sz_cells t)) (int (strlen t))) (\<lambda>b.
      ADD m (case pRuleset m of None \<Rightarrow> Some (RS_RET_OK, b)
             | Some t \<Rightarrow> add_bytes alloc b F_RULESET (Some (sz_cells t)) (int (strlen t))) (\<lambda>b.
      ADD m (add_u32 alloc b F_MSG_OFFSET (of_int (offMSG m))) (\<lambda>b.
      ADD m (add_u32 alloc b F_AFTER_PRI_OFFSET (of_int (offAfterPRI m))) (\<lambda>b.
      ADD m (add_u8 alloc b F_PARSE_SUCCESS (of_int (bParseSuccess m))) (\<lambda>b.
      do { out \<leftarrow> buf_read (data b) 0 (enc_len b); Some (RS_RET_OK, Some out, m) }
      )))))))))))) }) }) }) })) }) }))))))))"

section \<open>Decoding\<close>

text \<open>The bytes of a payload as a heap copy with a terminator.\<close>

definition dup_text :: "(nat \<Rightarrow> bool) \<Rightarrow> buf \<Rightarrow> nat \<Rightarrow> nat \<Rightarrow> (rsRetVal \<times> char list) option" where
  "dup_text alloc b pos n =
     (if alloc (n + 1) then do { s \<leftarrow> buf_read b pos n; Some (RS_RET_OK, s) } else Some (RS_RET_OUT_OF_MEMORY, []))"

definition time_of_wire :: "char list \<Rightarrow> syslogTime" where
  "time_of_wire cs =
     (let p = bytes_of cs in
      \<lparr> timeType = int8 (uint (p ! 0)), month = int8 (uint (p ! 1)), day = int8 (uint (p ! 2)),
        wday = int8 (uint (p ! 3)), hour = int8 (uint (p ! 4)), minute = int8 (uint (p ! 5)),
        second = int8 (uint (p ! 6)), secfracPrecision = int8 (uint (p ! 7)),
        OffsetMinute = int8 (uint (p ! 8)), OffsetHour = int8 (uint (p ! 9)), OffsetMode = cs ! 10,
        year = int16 (uint (get16 (drop 12 p))), secfrac = int32 (uint (get32 (drop 14 p))),
        inUTC = int8 (uint (p ! 11)) \<rparr>)"

definition decode_time :: "buf \<Rightarrow> nat \<Rightarrow> nat \<Rightarrow> syslogTime \<Rightarrow> (rsRetVal \<times> syslogTime) option" where
  "decode_time b pos len t =
     (if len \<noteq> 20 then Some (RS_RET_INVALID_VALUE, t)
      else do { cs \<leftarrow> buf_read b pos 18; Some (RS_RET_OK, time_of_wire cs) })"

fun strcasecmp :: "char list \<Rightarrow> char list \<Rightarrow> int" where
  "strcasecmp [] [] = 0"
| "strcasecmp [] (y # ys) = - 1"
| "strcasecmp (x # xs) [] = 1"
| "strcasecmp (x # xs) (y # ys) =
     (if tolower x = tolower y then strcasecmp xs ys
      else if (of_char (tolower x) :: nat) < of_char (tolower y) then - 1 else 1)"

text \<open>The configured rulesets are a linked list with their names as keys; a ruleset stands for its name.\<close>

type_synonym rulesets = "(char list, char list) ll_heap \<times> linkedList"

definition rulesetGetRuleset :: "rulesets \<Rightarrow> char list \<Rightarrow> (rsRetVal \<times> char list option) option" where
  "rulesetGetRuleset conf pszName =
     llFind (\<lambda>k k'. case k' of None \<Rightarrow> 1 | Some k' \<Rightarrow> strcasecmp k k') (fst conf) (snd conf) pszName"

definition MsgSetRulesetByName :: "rulesets \<Rightarrow> 'j smsg \<Rightarrow> cstr \<Rightarrow> (rsRetVal \<times> 'j smsg) option" where
  "MsgSetRulesetByName conf m rulesetName = do {
     rs_name \<leftarrow> buf_sz (cstrGetSzStrNoNULL rulesetName);
     (localRet, rs) \<leftarrow> rulesetGetRuleset conf rs_name;
     Some (localRet, if localRet = RS_RET_OK then m \<lparr> pRuleset := rs \<rparr> else m) }"

text \<open>
  One field: \<^verbatim>\<open>pos\<close> is the start of the payload, \<^verbatim>\<open>n\<close> its length. The setters for TAG, raw
  message and host name report nothing, so they cannot fail here.
\<close>

definition decode_field ::
    "(nat \<Rightarrow> bool) \<Rightarrow> (char list \<Rightarrow> 'j option) \<Rightarrow> rulesets \<Rightarrow> buf \<Rightarrow> nat \<Rightarrow> byte \<Rightarrow> byte \<Rightarrow> nat \<Rightarrow> nat
      \<Rightarrow> 'j smsg \<Rightarrow> (rsRetVal \<times> 'j smsg) option" where
  "decode_field alloc json_tokener_parse conf b field ty flags pos n m =
     (let invalid = Some (RS_RET_INVALID_VALUE, m);
          p = drop pos b;
          ok = (\<lambda>m. Some (RS_RET_OK, m));
          is_text = (ty = type_num TLV_BYTES);
          TEXT_CALL = (\<lambda>call. if \<not> is_text then invalid
            else do { (r, s) \<leftarrow> dup_text alloc b pos n; if r \<noteq> RS_RET_OK then Some (r, m) else call s })
      in case field_of field of
        None \<Rightarrow> if flags AND TLV_CRITICAL \<noteq> 0 then invalid else ok m
      | Some F_PROTOCOL \<Rightarrow>
          if ty \<noteq> type_num TLV_U16 \<or> n \<noteq> 2 then invalid
          else do { v \<leftarrow> buf_read p 0 2; ok (setProtocolVersion m (uint (get16 (bytes_of v)))) }
      | Some F_SEVERITY \<Rightarrow>
          if ty \<noteq> type_num TLV_U16 \<or> n \<noteq> 2 then invalid
          else do { v \<leftarrow> buf_read p 0 2; ok (m \<lparr> iSeverity := uint (get16 (bytes_of v)) \<rparr>) }
      | Some F_FACILITY \<Rightarrow>
          if ty \<noteq> type_num TLV_U16 \<or> n \<noteq> 2 then invalid
          else do { v \<leftarrow> buf_read p 0 2; ok (m \<lparr> iFacility := uint (get16 (bytes_of v)) \<rparr>) }
      | Some F_FLAGS \<Rightarrow>
          if ty \<noteq> type_num TLV_U32 \<or> n \<noteq> 4 then invalid
          else do { v \<leftarrow> buf_read p 0 4; ok (m \<lparr> msgFlags := get32 (bytes_of v) \<rparr>) }
      | Some F_GENTIME \<Rightarrow>
          if ty \<noteq> type_num TLV_U64 \<or> n \<noteq> 8 then invalid
          else do { v \<leftarrow> buf_read p 0 8; ok (m \<lparr> ttGenTime := sint (get64 (bytes_of v)) \<rparr>) }
      | Some F_RECEIVED \<Rightarrow>
          if ty \<noteq> type_num TLV_TIME \<or> n \<noteq> 20 then invalid
          else do { (r, t) \<leftarrow> decode_time b pos n (tRcvdAt m); Some (r, m \<lparr> tRcvdAt := t \<rparr>) }
      | Some F_TIMESTAMP \<Rightarrow>
          if ty \<noteq> type_num TLV_TIME \<or> n \<noteq> 20 then invalid
          else do { (r, t) \<leftarrow> decode_time b pos n (tTIMESTAMP m); Some (r, m \<lparr> tTIMESTAMP := t \<rparr>) }
      | Some F_TAG \<Rightarrow>
          if \<not> is_text then invalid
          else do { s \<leftarrow> buf_read p 0 n; m \<leftarrow> MsgSetTAG alloc m s; ok m }
      | Some F_RAWMSG \<Rightarrow>
          if \<not> is_text then invalid
          else do { s \<leftarrow> buf_read p 0 n; m \<leftarrow> MsgSetRawMsg alloc m s; ok m }
      | Some F_HOSTNAME \<Rightarrow>
          if \<not> is_text then invalid
          else do { s \<leftarrow> buf_read p 0 n; m \<leftarrow> MsgSetHOSTNAME alloc m s; ok m }
      | Some F_INPUTNAME \<Rightarrow> if \<not> is_text then invalid else MsgSetInputNameStr alloc m p (int n)
      | Some F_RCVFROM \<Rightarrow> if \<not> is_text then invalid else MsgSetRcvFromText alloc m p (int n)
      | Some F_RCVFROMIP \<Rightarrow> if \<not> is_text then invalid else MsgSetRcvFromIPText alloc m p (int n)
      | Some F_RCVFROMPORT \<Rightarrow> if \<not> is_text then invalid else MsgSetRcvFromPortText alloc m p (int n)
      | Some F_STRUCTURED_DATA \<Rightarrow> TEXT_CALL (\<lambda>s. Some (MsgSetStructuredData alloc m s))
      | Some F_JSON \<Rightarrow>
          TEXT_CALL (\<lambda>s. case json_tokener_parse (take (strlen s) s) of None \<Rightarrow> invalid
            | Some j \<Rightarrow> ok (m \<lparr> json := Some j \<rparr>))
      | Some F_LOCALVARS \<Rightarrow>
          TEXT_CALL (\<lambda>s. case json_tokener_parse (take (strlen s) s) of None \<Rightarrow> invalid
            | Some j \<Rightarrow> ok (m \<lparr> localvars := Some j \<rparr>))
      | Some F_APPNAME \<Rightarrow> TEXT_CALL (\<lambda>s. MsgSetAPPNAME alloc m s)
      | Some F_PROCID \<Rightarrow> TEXT_CALL (\<lambda>s. MsgSetPROCID alloc m s)
      | Some F_MSGID \<Rightarrow> TEXT_CALL (\<lambda>s. MsgSetMSGID alloc m s)
      | Some F_UUID \<Rightarrow> TEXT_CALL (\<lambda>s. ok (m \<lparr> pszUUID := Some (take (strlen s) s) \<rparr>))
      | Some F_RULESET \<Rightarrow>
          TEXT_CALL (\<lambda>s. do {
            (r, cs) \<leftarrow> rsCStrConstructFromszStr alloc s;
            case (r, cs) of
              (RS_RET_OK, Some cs) \<Rightarrow> do {
                cs \<leftarrow> cstrFinalize cs;
                (r, m) \<leftarrow> MsgSetRulesetByName conf m cs;
                Some (if r = RS_RET_NOT_FOUND then RS_RET_OK else r, m) }
            | _ \<Rightarrow> Some (RS_RET_OUT_OF_MEMORY, m) })
      | Some F_MSG_OFFSET \<Rightarrow>
          if ty \<noteq> type_num TLV_U32 \<or> n \<noteq> 4 then invalid
          else do { v \<leftarrow> buf_read p 0 4; m \<leftarrow> MsgSetMSGoffs m (sint (get32 (bytes_of v))); ok m }
      | Some F_AFTER_PRI_OFFSET \<Rightarrow>
          if ty \<noteq> type_num TLV_U32 \<or> n \<noteq> 4 then invalid
          else do { v \<leftarrow> buf_read p 0 4; Some (MsgSetAfterPRIOffs m (sint (get32 (bytes_of v)))) }
      | Some F_PARSE_SUCCESS \<Rightarrow>
          if ty \<noteq> type_num TLV_U8 \<or> n \<noteq> 1 then invalid
          else do { v \<leftarrow> buf_read p 0 1; ok (MsgSetParseSuccess m (uint (byte_of_char (v ! 0)))) })"

text \<open>The fields a record must have.\<close>

definition required_fields :: "32 word" where
  "required_fields = push_bit (field_num F_RAWMSG - 1) 1 OR push_bit (field_num F_MSG_OFFSET - 1) 1"

text \<open>The loop over the fields. A code other than success ends it, and the message is destroyed.\<close>

function (sequential) decode_loop ::
    "(nat \<Rightarrow> bool) \<Rightarrow> (char list \<Rightarrow> 'j option) \<Rightarrow> rulesets \<Rightarrow> buf \<Rightarrow> nat \<Rightarrow> 32 word \<Rightarrow> 'j smsg \<Rightarrow> 'j smsg res" where
  "decode_loop alloc json_tokener_parse conf b pos seen m =
     (if length b \<le> pos
      then if seen AND required_fields \<noteq> required_fields then abort RS_RET_INVALID_VALUE else ret m
      else if length b - pos < TLV_HDR_LEN then abort RS_RET_INVALID_VALUE
      else do {
        cs \<leftarrow> buf_read b pos TLV_HDR_LEN;
        let h = bytes_of cs;
        let field = unat (get16 h);
        let ty = h ! 2;
        let flags = h ! 3;
        let n = unat (get32 (drop 4 h));
        let q = pos + TLV_HDR_LEN;
        let mask = (if 1 \<le> field \<and> field \<le> 31 then push_bit (field - 1) 1 else 0);
        if TLV_MAX_PAYLOAD < n \<or> length b - q < n then abort RS_RET_INVALID_VALUE
        else if seen AND mask \<noteq> 0 then abort RS_RET_INVALID_VALUE
        else do {
          (r, m) \<leftarrow> decode_field alloc json_tokener_parse conf b field ty flags q n m;
          if r \<noteq> RS_RET_OK then abort r
          else decode_loop alloc json_tokener_parse conf b (q + n) (seen OR mask) m } })"
  by pat_completeness auto
termination
  by (relation "measure (\<lambda>(alloc, parse, conf, b, pos, seen, m). length b - pos)") (auto simp: TLV_HDR_LEN_def)

definition segdiskCodecDecode ::
    "(nat \<Rightarrow> bool) \<Rightarrow> (char list \<Rightarrow> 'j option) \<Rightarrow> rulesets \<Rightarrow> int \<Rightarrow> buf \<Rightarrow> 'j smsg res" where
  "segdiskCodecDecode alloc json_tokener_parse conf uninit b =
     (case msgConstructForDeserializer alloc uninit of
        (r, None) \<Rightarrow> abort r
      | (r, Some m) \<Rightarrow> decode_loop alloc json_tokener_parse conf b 0 0 m)"

declare decode_loop.simps [simp del]

section \<open>What the encoder writes\<close>

text \<open>The bytes of a field, and of a list of fields.\<close>

type_synonym wire_field = "tlv_field \<times> tlv_type \<times> char list"

definition tlv_frame :: "wire_field \<Rightarrow> char list" where
  "tlv_frame x = (case x of (f, ty, ps) \<Rightarrow>
     chars (put16 (of_nat (field_num f)) @ [type_num ty, 0] @ put32 (of_nat (length ps))) @ ps)"

abbreviation wire :: "wire_field list \<Rightarrow> char list" where
  "wire xs \<equiv> concat (map tlv_frame xs)"

lemma length_frame [simp]: "length (tlv_frame (f, ty, ps)) = TLV_HDR_LEN + length ps"
  by (simp add: tlv_frame_def TLV_HDR_LEN_def)

lemma cap_loop_enough:
  assumes "0 < cap" "need \<le> TLV_MAX_PAYLOAD" "cap \<le> TLV_MAX_PAYLOAD"
  shows "\<exists>c. cap_loop cap need = Some c \<and> need \<le> c \<and> c \<le> TLV_MAX_PAYLOAD"
  using assms
proof (induction "TLV_MAX_PAYLOAD - cap" arbitrary: cap rule: less_induct)
  case less
  show ?case
  proof (cases "need \<le> cap \<or> TLV_MAX_PAYLOAD div 2 < cap")
    case True
    then show ?thesis
      using less.prems by (subst cap_loop.simps) auto
  next
    case False
    then have "\<exists>c. cap_loop (cap * 2) need = Some c \<and> need \<le> c \<and> c \<le> TLV_MAX_PAYLOAD"
      using less.prems by (intro less.hyps) auto
    then show ?thesis
      using False by (subst cap_loop.simps) simp
  qed
qed

text \<open>A buffer that holds the bytes written so far.\<close>

definition enc_rep :: "encbuf \<Rightarrow> char list \<Rightarrow> bool" where
  "enc_rep b xs \<longleftrightarrow> enc_len b = length xs \<and> buf_read (data b) 0 (length xs) = Some xs
     \<and> length (data b) = enc_cap b \<and> enc_cap b \<le> TLV_MAX_PAYLOAD"

lemma reserve_ok:
  assumes "enc_rep b xs" "length xs + add \<le> TLV_MAX_PAYLOAD"
  shows "\<exists>r b'. reserve alloc b add = Some (r, b')
    \<and> (r = RS_RET_OK \<and> enc_rep b' xs \<and> length xs + add \<le> length (data b')
       \<or> r = RS_RET_OUT_OF_MEMORY \<and> b' = b \<and> (\<exists>n. \<not> alloc n))"
proof (cases "length xs + add \<le> enc_cap b")
  case True
  then show ?thesis
    using assms by (auto simp: reserve_def enc_rep_def Let_def)
next
  case False
  define k where "k = (if enc_cap b = 0 then 1024 else enc_cap b)"
  have "0 < k" "k \<le> TLV_MAX_PAYLOAD"
    using assms(1) by (simp_all add: k_def enc_rep_def TLV_MAX_PAYLOAD_def)
  then obtain c where c: "cap_loop k (length xs + add) = Some c" "length xs + add \<le> c" "c \<le> TLV_MAX_PAYLOAD"
    using cap_loop_enough assms(2) by blast
  have "reserve alloc b add = (if alloc c
      then Some (RS_RET_OK, b \<lparr> data := buf_realloc (data b) c, enc_cap := c \<rparr>) else Some (RS_RET_OUT_OF_MEMORY, b))"
    using False assms c(1) by (simp add: reserve_def enc_rep_def Let_def flip: k_def)
  moreover have "buf_read (buf_realloc (data b) c) 0 (length xs) = Some xs"
    using assms(1) c(2) by (subst buf_read_realloc) (auto simp: enc_rep_def dest: buf_read_le)
  ultimately show ?thesis
    using assms(1) c by (auto simp: enc_rep_def)
qed

lemma buf_put_memcpy: "buf_put d i c = buf_memcpy d i [c]"
  by (auto simp: buf_put_def buf_memcpy_def upd_conv_take_nth_drop)

lemma buf_append:
  assumes "buf_read d 0 k = Some xs" "k + length ys \<le> length d"
  shows "\<exists>d'. buf_memcpy d k ys = Some d' \<and> length d' = length d \<and> buf_read d' 0 (k + length ys) = Some (xs @ ys)"
proof -
  obtain d' where d': "buf_memcpy d k ys = Some d'"
    using buf_memcpy_ex assms(2) by blast
  have "buf_read d' 0 k = Some xs"
    using buf_read_memcpy_before [OF d', of 0 k] assms(1) by simp
  moreover have "buf_read d' (0 + k) (length ys) = Some ys"
    using buf_read_memcpy_same [OF d'] by simp
  ultimately show ?thesis
    using buf_read_join [of d' 0 k xs "length ys" ys] d' buf_memcpy_length [OF d'] by auto
qed

lemma add_tlv_ok:
  assumes rep: "enc_rep b xs" and src: "buf_read src 0 (length ps) = Some ps"
    and fits: "length xs + length (tlv_frame (f, ty, ps)) \<le> TLV_MAX_PAYLOAD"
  shows "\<exists>r b'. add_tlv alloc b f ty 0 src (int (length ps)) = Some (r, b')
    \<and> (r = RS_RET_OK \<and> enc_rep b' (xs @ tlv_frame (f, ty, ps)) \<or> r = RS_RET_OUT_OF_MEMORY \<and> (\<exists>n. \<not> alloc n))"
proof -
  have n: "nat (int (length ps) mod 2 ^ 64) = length ps" "length ps \<le> 2 ^ 32 - 1"
    using fits by (simp_all add: TLV_MAX_PAYLOAD_def)
  obtain r b1 where r: "reserve alloc b (TLV_HDR_LEN + length ps) = Some (r, b1)"
    "r = RS_RET_OK \<and> enc_rep b1 xs \<and> length xs + (TLV_HDR_LEN + length ps) \<le> length (data b1)
       \<or> r = RS_RET_OUT_OF_MEMORY \<and> b1 = b \<and> (\<exists>n. \<not> alloc n)"
    using reserve_ok [OF rep, of "TLV_HDR_LEN + length ps" alloc] fits by auto
  show ?thesis
  proof (cases "r = RS_RET_OK")
    case False
    then show ?thesis
      using r n by (auto simp: add_tlv_def Let_def)
  next
    case True
    then have rep1: "enc_rep b1 xs" and room: "length xs + 8 + length ps \<le> length (data b1)"
      using r(2) by (auto simp: TLV_HDR_LEN_def)
    have len1: "enc_len b1 = length xs" and rd: "buf_read (data b1) 0 (length xs) = Some xs"
      using rep1 by (simp_all add: enc_rep_def)
    obtain d1 where d1: "buf_memcpy (data b1) (length xs) (chars (put16 (of_nat (field_num f)))) = Some d1"
      "length d1 = length (data b1)" "buf_read d1 0 (length xs + 2) = Some (xs @ chars (put16 (of_nat (field_num f))))"
      using buf_append [OF rd, of "chars (put16 (of_nat (field_num f)))"] room by auto
    obtain d2 where d2: "buf_put d1 (length xs + 2) (char_of_byte (type_num ty)) = Some d2" "length d2 = length d1"
      "buf_read d2 0 (length xs + 3) = Some (xs @ chars (put16 (of_nat (field_num f)) @ [type_num ty]))"
      using buf_append [OF d1(3), of "[char_of_byte (type_num ty)]"] room d1(2) by (auto simp: buf_put_memcpy eval_nat_numeral)
    obtain d3 where d3: "buf_put d2 (length xs + 3) (char_of_byte 0) = Some d3" "length d3 = length d2"
      "buf_read d3 0 (length xs + 4) = Some (xs @ chars (put16 (of_nat (field_num f)) @ [type_num ty, 0]))"
      using buf_append [OF d2(3), of "[char_of_byte 0]"] room d1(2) d2(2) by (auto simp: buf_put_memcpy eval_nat_numeral)
    obtain d4 where d4: "buf_memcpy d3 (length xs + 4) (chars (put32 (of_nat (length ps)))) = Some d4" "length d4 = length d3"
      "buf_read d4 0 (length xs + 8)
        = Some (xs @ chars (put16 (of_nat (field_num f)) @ [type_num ty, 0] @ put32 (of_nat (length ps))))"
      using buf_append [OF d3(3), of "chars (put32 (of_nat (length ps)))"] room d1(2) d2(2) d3(2) by (auto simp: add.commute)
    obtain d5 where d5: "(if length ps \<noteq> 0 then buf_memcpy d4 (length xs + 8) ps else Some d4) = Some d5"
      "length d5 = length d4" "buf_read d5 0 (length xs + 8 + length ps) = Some (xs @ tlv_frame (f, ty, ps))"
      using buf_append [OF d4(3), of ps] room d1(2) d2(2) d3(2) d4(2,3) by (cases "ps = []") (auto simp: tlv_frame_def)
    define b2 where "b2 = b1 \<lparr> data := d5, enc_len := length xs + 8 + length ps \<rparr>"
    have "add_tlv alloc b f ty 0 src (int (length ps)) = Some (RS_RET_OK, b2)"
      unfolding add_tlv_def Let_def n(1) using n(2) r(1) True d1(1) d2(1) d3(1) d4(1) d5(1) src len1
      by (auto simp: TLV_HDR_LEN_def b2_def split: if_splits)
    moreover have "enc_rep b2 (xs @ tlv_frame (f, ty, ps))"
      using rep1 d1(2) d2(2) d3(2) d4(2) d5(2,3) by (simp add: b2_def enc_rep_def TLV_HDR_LEN_def add.assoc)
    ultimately show ?thesis
      by blast
  qed
qed

section \<open>What a message shows\<close>

text \<open>
  The content of a message that a record keeps, independent of where its texts are stored:
  the texts of the tag, of the raw message and of the properties, the optional texts, and the
  numbers and flags.
\<close>

record 'j wire_view =
  v_protocol :: int
  v_severity :: int
  v_facility :: int
  v_flags :: "32 word"
  v_gentime :: int
  v_received :: syslogTime
  v_timestamp :: syslogTime
  v_tag :: "char list"
  v_raw :: "char list"
  v_hostname :: "char list option"
  v_input :: "char list"
  v_from :: "char list"
  v_fromip :: "char list"
  v_fromport :: "char list"
  v_struc :: "char list option"
  v_json :: "'j option"
  v_localvars :: "'j option"
  v_app :: "char list option"
  v_proc :: "char list option"
  v_msgid :: "char list option"
  v_uuid :: "char list option"
  v_ruleset :: "char list option"
  v_offmsg :: int
  v_lenmsg :: int
  v_afterpri :: int
  v_success :: int

definition hostname_is :: "'j smsg \<Rightarrow> char list option \<Rightarrow> bool" where
  "hostname_is m h \<longleftrightarrow> length (szHOSTNAME m) = 32 \<and> (case h of
     None \<Rightarrow> hostname_cells m = None
   | Some s \<Rightarrow> \<exists>b. hostname_cells m = Some b \<and> buf_read b 0 (length s) = Some s \<and> iLenHOSTNAME m = int (length s))"

definition cstr_is :: "cstr option \<Rightarrow> char list option \<Rightarrow> bool" where
  "cstr_is c t = (case t of None \<Rightarrow> c = None | Some s \<Rightarrow> \<exists>c'. c = Some c' \<and> cstr_wf c' \<and> cstr_val c' = s)"

definition from_is :: "'j smsg \<Rightarrow> char list \<Rightarrow> bool" where
  "from_is m s \<longleftrightarrow> (\<exists>p. pRcvFrom m = Some p \<and> prop_sz p = Some s)"

definition views :: "'j smsg \<Rightarrow> 'j wire_view \<Rightarrow> bool" where
  "views m v \<longleftrightarrow> iProtocolVersion m = v_protocol v \<and> iSeverity m = v_severity v \<and> iFacility m = v_facility v
     \<and> msgFlags m = v_flags v \<and> ttGenTime m = v_gentime v \<and> tRcvdAt m = v_received v \<and> tTIMESTAMP m = v_timestamp v
     \<and> tag_text m = Some (v_tag v) \<and> raw_ok m (v_raw v) \<and> hostname_is m (v_hostname v)
     \<and> getInputName m = Some (v_input v) \<and> from_is m (v_from v) \<and> prop_sz (pRcvFromIP m) = Some (v_fromip v)
     \<and> prop_sz (pRcvFromPort m) = Some (v_fromport v) \<and> pszStrucData m = v_struc v \<and> json m = v_json v
     \<and> localvars m = v_localvars v \<and> cstr_is (pCSAPPNAME m) (v_app v) \<and> cstr_is (pCSPROCID m) (v_proc v)
     \<and> cstr_is (pCSMSGID m) (v_msgid v) \<and> pszUUID m = v_uuid v \<and> pRuleset m = v_ruleset v
     \<and> offMSG m = v_offmsg v \<and> iLenMSG m = v_lenmsg v \<and> offAfterPRI m = v_afterpri v \<and> bParseSuccess m = v_success v"

lemmas view_defs = views_def tag_text_def raw_ok_def raw_buf_def hostname_is_def hostname_cells_def getInputName_def
  from_is_def pRcvFrom_def

text \<open>The fields of a record with that content, in the order in which the encoder adds them.\<close>

definition opt_field :: "tlv_field \<Rightarrow> char list option \<Rightarrow> wire_field list" where
  "opt_field f t = (case t of None \<Rightarrow> [] | Some s \<Rightarrow> [(f, TLV_BYTES, s)])"

definition wire_fields :: "('j \<Rightarrow> char list option) \<Rightarrow> 'j wire_view \<Rightarrow> wire_field list" where
  "wire_fields to_json_string v =
     (F_PROTOCOL, TLV_U16, chars (put16 (of_int (v_protocol v)))) #
     (F_SEVERITY, TLV_U16, chars (put16 (of_int (v_severity v)))) #
     (F_FACILITY, TLV_U16, chars (put16 (of_int (v_facility v)))) #
     (F_FLAGS, TLV_U32, chars (put32 (v_flags v))) #
     (F_GENTIME, TLV_U64, chars (put64 (of_int (v_gentime v)))) #
     (F_RECEIVED, TLV_TIME, chars (time_bytes (v_received v))) #
     (F_TIMESTAMP, TLV_TIME, chars (time_bytes (v_timestamp v))) #
     (F_TAG, TLV_BYTES, v_tag v) #
     (F_RAWMSG, TLV_BYTES, v_raw v) #
     opt_field F_HOSTNAME (v_hostname v) @
     (F_INPUTNAME, TLV_BYTES, v_input v) #
     (F_RCVFROM, TLV_BYTES, v_from v) #
     (F_RCVFROMIP, TLV_BYTES, v_fromip v) #
     (F_RCVFROMPORT, TLV_BYTES, v_fromport v) #
     opt_field F_STRUCTURED_DATA (v_struc v) @
     opt_field F_JSON (Option.bind (v_json v) to_json_string) @
     opt_field F_LOCALVARS (Option.bind (v_localvars v) to_json_string) @
     opt_field F_APPNAME (v_app v) @
     opt_field F_PROCID (v_proc v) @
     opt_field F_MSGID (v_msgid v) @
     opt_field F_UUID (v_uuid v) @
     opt_field F_RULESET (v_ruleset v) @
     [(F_MSG_OFFSET, TLV_U32, chars (put32 (of_int (v_offmsg v)))),
      (F_AFTER_PRI_OFFSET, TLV_U32, chars (put32 (of_int (v_afterpri v)))),
      (F_PARSE_SUCCESS, TLV_U8, chars [of_int (v_success v)])]"

section \<open>The encoder writes those fields\<close>

text \<open>The buffer holds all fields but those still to be added.\<close>

definition enc_at :: "wire_field list \<Rightarrow> encbuf \<Rightarrow> wire_field list \<Rightarrow> bool" where
  "enc_at xs b todo \<longleftrightarrow> (\<exists>done. xs = done @ todo \<and> enc_rep b (wire done)) \<and> length (wire xs) \<le> TLV_MAX_PAYLOAD"

abbreviation always :: "nat \<Rightarrow> bool" where
  "always \<equiv> \<lambda>n. True"

lemma ADD_tlv:
  assumes at: "enc_at xs b ((f, ty, ps) # todo)" and src: "buf_read src 0 (length ps) = Some ps"
    and go: "\<And>b'. enc_at xs b' todo \<Longrightarrow> k b' = R"
  shows "ADD m (add_tlv always b f ty 0 src (int (length ps))) k = R"
proof -
  obtain don where d: "xs = don @ (f, ty, ps) # todo" "enc_rep b (wire don)" and l: "length (wire xs) \<le> TLV_MAX_PAYLOAD"
    using at by (auto simp: enc_at_def)
  have "length (wire don) + length (tlv_frame (f, ty, ps)) \<le> TLV_MAX_PAYLOAD"
    using l by (simp add: d(1))
  then obtain b' where "add_tlv always b f ty 0 src (int (length ps)) = Some (RS_RET_OK, b')"
      "enc_rep b' (wire don @ tlv_frame (f, ty, ps))"
    using add_tlv_ok [OF d(2) src, of f ty always] by auto
  then show ?thesis
    using go [of b'] d(1) l by (auto simp: ADD_def enc_at_def intro: exI [of _ "don @ [(f, ty, ps)]"])
qed

lemma read_sz_cells [simp]: "buf_read (map Some s @ xs) 0 (length s) = Some s"
  by (simp add: buf_read_Some_iff)

lemma read_map_Some [simp]: "n = length s \<Longrightarrow> buf_read (map Some s) 0 n = Some s"
  by (simp add: buf_read_Some_iff)

lemma length_time_bytes [simp]: "length (time_bytes t) = 20"
  by (simp add: time_bytes_def)

lemma ADD_n:
  assumes "enc_at xs b ((f, ty, ps) # todo)" "src = map Some ps" "n = int (length ps)" "\<And>b'. enc_at xs b' todo \<Longrightarrow> k b' = R"
  shows "ADD m (add_tlv always b f ty 0 src n) k = R"
  using ADD_tlv [OF assms(1) _ assms(4)] assms(2,3) by simp

lemma ADD_fixed:
  "enc_at xs b ((f, TLV_U8, chars [x8]) # todo) \<Longrightarrow> (\<And>b'. enc_at xs b' todo \<Longrightarrow> k b' = R) \<Longrightarrow> ADD m (add_u8 always b f x8) k = R"
  "enc_at xs b ((f, TLV_U16, chars (put16 x16)) # todo) \<Longrightarrow> (\<And>b'. enc_at xs b' todo \<Longrightarrow> k b' = R)
    \<Longrightarrow> ADD m (add_u16 always b f x16) k = R"
  "enc_at xs b ((f, TLV_U32, chars (put32 x32)) # todo) \<Longrightarrow> (\<And>b'. enc_at xs b' todo \<Longrightarrow> k b' = R)
    \<Longrightarrow> ADD m (add_u32 always b f x32) k = R"
  "enc_at xs b ((f, TLV_U64, chars (put64 x64)) # todo) \<Longrightarrow> (\<And>b'. enc_at xs b' todo \<Longrightarrow> k b' = R)
    \<Longrightarrow> ADD m (add_u64 always b f x64) k = R"
  "enc_at xs b ((f, TLV_TIME, chars (time_bytes t)) # todo) \<Longrightarrow> (\<And>b'. enc_at xs b' todo \<Longrightarrow> k b' = R)
    \<Longrightarrow> ADD m (add_time always b f t) k = R"
  unfolding add_u8_def add_u16_def add_u32_def add_u64_def add_time_def by (erule ADD_n; simp)+

lemma ADD_skip: "enc_at xs b todo \<Longrightarrow> (\<And>b'. enc_at xs b' todo \<Longrightarrow> k b' = R) \<Longrightarrow> ADD m (Some (RS_RET_OK, b)) k = R"
  by (simp add: ADD_def)

lemma ADD_text:
  assumes "enc_at xs b ((f, TLV_BYTES, s) # todo)" "buf_read src 0 (length s) = Some s"
    "\<And>b'. enc_at xs b' todo \<Longrightarrow> k b' = R"
  shows "ADD m (add_bytes always b f (Some src) (int (length s))) k = R"
  using ADD_tlv [OF assms] by (simp add: add_bytes_def)

lemma ADD_opt:
  assumes "enc_at xs b (opt_field f t @ todo)" "\<And>b'. enc_at xs b' todo \<Longrightarrow> k b' = R"
  shows "ADD m (case t of None \<Rightarrow> Some (RS_RET_OK, b)
    | Some s \<Rightarrow> add_bytes always b f (Some (sz_cells s)) (int (length s))) k = R"
proof (cases t)
  case None
  then show ?thesis
    using assms by (simp add: opt_field_def ADD_def)
next
  case (Some s)
  then show ?thesis
    using assms(1) ADD_text [of xs b f s todo "sz_cells s" k R m, OF _ _ assms(2)] by (simp add: opt_field_def)
qed

lemma ADD_opt_strlen:
  assumes "enc_at xs b (opt_field f t @ todo)" "\<forall>s \<in> set_option t. NUL \<notin> set s" "\<And>b'. enc_at xs b' todo \<Longrightarrow> k b' = R"
  shows "ADD m (case t of None \<Rightarrow> Some (RS_RET_OK, b)
    | Some s \<Rightarrow> add_bytes always b f (Some (sz_cells s)) (int (strlen s))) k = R"
  using ADD_opt [of xs b f t todo k R m, OF assms(1,3)] assms(2) by (cases t) (simp_all add: strlen_no_NUL)

lemma ADD_host:
  assumes "enc_at xs b (opt_field F_HOSTNAME h @ todo)" "hostname_is m h" "\<And>b'. enc_at xs b' todo \<Longrightarrow> k b' = R"
  shows "ADD m' (add_bytes always b F_HOSTNAME (hostname_cells m) (iLenHOSTNAME m)) k = R"
proof (cases h)
  case None
  then show ?thesis
    using assms by (simp add: hostname_is_def add_bytes_def opt_field_def ADD_def)
next
  case (Some s)
  then show ?thesis
    using assms ADD_text [of xs b F_HOSTNAME s todo _ k R m'] by (auto simp: hostname_is_def opt_field_def)
qed

lemma ADD_json:
  assumes "enc_at xs b (opt_field f (Option.bind j print) @ todo)"
    "\<forall>x \<in> set_option j. \<exists>s. print x = Some s \<and> NUL \<notin> set s" "\<And>b'. enc_at xs b' todo \<Longrightarrow> k b' = R"
  shows "ADD m (add_json always print b f j) k = R"
proof (cases j)
  case None
  then show ?thesis
    using assms by (simp add: add_json_def opt_field_def ADD_def)
next
  case (Some x)
  then obtain s where s: "print x = Some s" "NUL \<notin> set s"
    using assms(2) by auto
  then show ?thesis
    using Some assms(1) ADD_text [of xs b f s todo "sz_cells s" k R m, OF _ _ assms(3)]
    by (simp add: add_json_def opt_field_def strlen_no_NUL)
qed

lemma cstr_val_read:
  assumes "cstr_wf c" "cstr_val c \<noteq> []"
  shows "\<exists>b. pBuf c = Some b \<and> buf_read b 0 (length (cstr_val c)) = Some (cstr_val c)"
proof -
  have "pBuf c \<noteq> None"
    using assms by (auto simp: cstr_wf_def cstr_val_def cstr_cells_def split: option.splits)
  then show ?thesis
    using cstr_cells_prefix [OF assms(1)] cstr_wf_len [OF assms(1)] assms(1)
    by (auto simp: buf_read_Some_iff cstr_cells_def)
qed

lemma ADD_cstr:
  assumes "enc_at xs b (opt_field f t @ todo)" "cstr_is c t" "t \<noteq> Some []" "\<And>b'. enc_at xs b' todo \<Longrightarrow> k b' = R"
  shows "ADD m (add_cstr always b f c) k = R"
proof (cases t)
  case None
  then show ?thesis
    using assms by (simp add: add_cstr_def opt_field_def cstr_is_def ADD_def)
next
  case (Some s)
  then obtain c' where c: "c = Some c'" "cstr_wf c'" "cstr_val c' = s" "s \<noteq> []"
    using assms(2,3) by (auto simp: cstr_is_def)
  have "iStrLen c' = length s"
    using length_cstr_val [OF c(2)] c(3) by simp
  moreover obtain b0 where "pBuf c' = Some b0" "buf_read b0 0 (length s) = Some s"
    using cstr_val_read [OF c(2)] c(3,4) by blast
  ultimately show ?thesis
    using Some c(1) assms(1) ADD_text [of xs b f s todo b0 k R m, OF _ _ assms(4)] by (simp add: add_cstr_def opt_field_def)
qed

text \<open>Reading the tag changes nothing but the tag and the cached program name.\<close>

lemma set_tag_frame: "MsgSetTAG alloc m s = Some m' \<Longrightarrow> \<exists>a b c. m' = m \<lparr> iLenPROGNAME := a, iLenTAG := b, TAG := c \<rparr>"
  by (auto simp: MsgSetTAG_def Let_def split: if_splits bind_splits)

lemma getTAG_frame:
  assumes "getTAG alloc m = Some (s, m')"
  shows "\<exists>a b c. m' = m \<lparr> iLenPROGNAME := a, iLenTAG := b, TAG := c \<rparr>"
proof -
  have same: "\<exists>a b c. m = m \<lparr> iLenPROGNAME := a, iLenTAG := b, TAG := c \<rparr>"
    by (intro exI [of _ "iLenPROGNAME m"] exI [of _ "iLenTAG m"] exI [of _ "TAG m"]) simp
  have "\<exists>a b c. m' = m \<lparr> iLenPROGNAME := a, iLenTAG := b, TAG := c \<rparr>" if e: "tryEmulateTAG alloc m = Some m'" for m'
  proof (cases "0 < iLenTAG m \<or> iProtocolVersion m \<noteq> 1")
    case True
    then show ?thesis
      using e same by (auto simp: tryEmulateTAG_def split: if_splits)
  next
    case False
    then have "m1 = m" if "getPROCID alloc m = Some (p, m1)" for p m1
      using that by (auto simp: getPROCID_def acquirePROCIDFromTAG_def split: if_splits option.splits bind_splits)
    then obtain t m1 where t: "MsgSetTAG alloc m t = Some m1" "m' = m1 \<lparr> iLenPROGNAME := - 1 \<rparr>"
      using False e by (auto simp: tryEmulateTAG_def split: if_splits bind_splits option.splits)
    obtain a b c where "m1 = m \<lparr> iLenPROGNAME := a, iLenTAG := b, TAG := c \<rparr>"
      using set_tag_frame [OF t(1)] by blast
    then have "m' = m \<lparr> iLenPROGNAME := - 1, iLenTAG := b, TAG := c \<rparr>"
      using t(2) by simp
    then show ?thesis
      by blast
  qed
  then show ?thesis
    using assms same by (auto simp: getTAG_def split: if_splits bind_splits)
qed

text \<open>
  What a record needs to be written: the peer is resolved, the JSON values can be printed, the
  texts that are measured with \<^verbatim>\<open>strlen\<close> have no zero byte, the string objects are not empty,
  and the record is not too large.
\<close>

definition no_nul :: "char list option \<Rightarrow> bool" where
  "no_nul t \<longleftrightarrow> (\<forall>s \<in> set_option t. NUL \<notin> set s)"

definition printable :: "('j \<Rightarrow> char list option) \<Rightarrow> 'j option \<Rightarrow> bool" where
  "printable print j \<longleftrightarrow> (\<forall>x \<in> set_option j. \<exists>s. print x = Some s \<and> NUL \<notin> set s)"

definition enc_ok :: "('j \<Rightarrow> char list option) \<Rightarrow> 'j wire_view \<Rightarrow> bool" where
  "enc_ok print v \<longleftrightarrow> v_flags v AND NEEDS_DNSRESOL = 0 \<and> printable print (v_json v) \<and> printable print (v_localvars v)
     \<and> no_nul (v_uuid v) \<and> no_nul (v_ruleset v) \<and> v_app v \<noteq> Some [] \<and> v_proc v \<noteq> Some [] \<and> v_msgid v \<noteq> Some []
     \<and> length (wire (wire_fields print v)) \<le> TLV_MAX_PAYLOAD"

lemma encode_fields:
  assumes tag: "getTAG always m = Some (v_tag v, m1)" and v: "views m1 v" and ok: "enc_ok print v"
  shows "segdiskCodecEncode always cvthname print m = Some (RS_RET_OK, Some (wire (wire_fields print v)), m1)"
proof -
  obtain a b c where m1: "m1 = m \<lparr> iLenPROGNAME := a, iLenTAG := b, TAG := c \<rparr>"
    using getTAG_frame [OF tag] by blast
  have first: "iProtocolVersion m = v_protocol v" "iSeverity m = v_severity v" "iFacility m = v_facility v"
    "msgFlags m = v_flags v" "ttGenTime m = v_gentime v" "tRcvdAt m = v_received v" "tTIMESTAMP m = v_timestamp v"
    using v by (simp_all add: views_def m1)
  have dns: "resolveDNS always cvthname m1 = Some (RS_RET_OK, m1)"
    using v ok by (simp add: resolveDNS_def needs_dns_def views_def enc_ok_def)
  have peer: "getRcvFrom always cvthname m1 = Some (v_from v, m1)" "getRcvFromIP always cvthname m1 = Some (v_fromip v, m1)"
    "getRcvFromPort always cvthname m1 = Some (v_fromport v, m1)"
    using v by (auto simp: getRcvFrom_def getRcvFromIP_def getRcvFromPort_def dns views_def from_is_def)
  have raw: "getRawMsg m1 = Some (v_raw v)" and input: "getInputName m1 = Some (v_input v)" and host: "hostname_is m1 (v_hostname v)"
    using v getRawMsg_ok by (auto simp: views_def)
  have rest: "pszStrucData m1 = v_struc v" "json m1 = v_json v" "localvars m1 = v_localvars v" "pszUUID m1 = v_uuid v"
    "pRuleset m1 = v_ruleset v" "offMSG m1 = v_offmsg v" "offAfterPRI m1 = v_afterpri v" "bParseSuccess m1 = v_success v"
    and cs: "cstr_is (pCSAPPNAME m1) (v_app v)" "cstr_is (pCSPROCID m1) (v_proc v)" "cstr_is (pCSMSGID m1) (v_msgid v)"
    using v by (simp_all add: views_def)
  have js: "\<forall>x \<in> set_option (v_json v). \<exists>s. print x = Some s \<and> NUL \<notin> set s"
    "\<forall>x \<in> set_option (v_localvars v). \<exists>s. print x = Some s \<and> NUL \<notin> set s"
    and nn: "\<forall>s \<in> set_option (v_uuid v). NUL \<notin> set s" "\<forall>s \<in> set_option (v_ruleset v). NUL \<notin> set s"
    and ne: "v_app v \<noteq> Some []" "v_proc v \<noteq> Some []" "v_msgid v \<noteq> Some []"
    using ok by (simp_all add: enc_ok_def printable_def no_nul_def)
  define xs where "xs = wire_fields print v"
  have start: "enc_at xs \<lparr> data = [], enc_len = 0, enc_cap = 0 \<rparr> (wire_fields print v)"
    using ok by (simp add: enc_at_def enc_rep_def xs_def enc_ok_def buf_read_def)
  note fin = enc_at_def [of xs _ "[]"] enc_rep_def
  show ?thesis
    unfolding segdiskCodecEncode_def Let_def first tag xs_def [symmetric] bind.bind_lunit prod.case raw input peer rest
    apply (rule ADD_fixed(2) [OF start [unfolded wire_fields_def]])
    apply (erule ADD_fixed(2), erule ADD_fixed(2), erule ADD_fixed(3), erule ADD_fixed(4), erule ADD_fixed(5), erule ADD_fixed(5))
    apply (erule ADD_text, simp, erule ADD_text, simp, erule ADD_host [OF _ host])
    apply (erule ADD_text, simp, erule ADD_text, simp, erule ADD_text, simp, erule ADD_text, simp)
    apply (erule ADD_opt, erule ADD_json [OF _ js(1)], erule ADD_json [OF _ js(2)])
    apply (erule ADD_cstr [OF _ cs(1) ne(1)], erule ADD_cstr [OF _ cs(2) ne(2)], erule ADD_cstr [OF _ cs(3) ne(3)])
    apply (erule ADD_opt_strlen [OF _ nn(1)], erule ADD_opt_strlen [OF _ nn(2)])
    apply (erule ADD_fixed(3), erule ADD_fixed(3), erule ADD_fixed(1))
    by (auto simp: fin)
qed

section \<open>The loop of the decoder\<close>

lemma field_of_num: "field_of (field_num f) = Some f"
  by (cases f) (simp_all add: field_of_def all_fields_def)

lemmas field_of_nums = field_of_num [of F_PROTOCOL, simplified] field_of_num [of F_SEVERITY, simplified]
  field_of_num [of F_FACILITY, simplified] field_of_num [of F_FLAGS, simplified] field_of_num [of F_GENTIME, simplified]
  field_of_num [of F_RECEIVED, simplified] field_of_num [of F_TIMESTAMP, simplified] field_of_num [of F_TAG, simplified]
  field_of_num [of F_RAWMSG, simplified] field_of_num [of F_HOSTNAME, simplified] field_of_num [of F_INPUTNAME, simplified]
  field_of_num [of F_RCVFROM, simplified] field_of_num [of F_RCVFROMIP, simplified] field_of_num [of F_RCVFROMPORT, simplified]
  field_of_num [of F_STRUCTURED_DATA, simplified] field_of_num [of F_JSON, simplified] field_of_num [of F_LOCALVARS, simplified]
  field_of_num [of F_APPNAME, simplified] field_of_num [of F_PROCID, simplified] field_of_num [of F_MSGID, simplified]
  field_of_num [of F_UUID, simplified] field_of_num [of F_RULESET, simplified] field_of_num [of F_MSG_OFFSET, simplified]
  field_of_num [of F_AFTER_PRI_OFFSET, simplified] field_of_num [of F_PARSE_SUCCESS, simplified]

lemma field_num_range: "1 \<le> field_num f" "field_num f \<le> 25"
  by (cases f; simp)+

lemma field_num_inj: "field_num f = field_num g \<longleftrightarrow> f = g"
  using field_of_num by (metis option.inject)

text \<open>The set of the fields seen, as the decoder keeps it.\<close>

definition field_bit :: "tlv_field \<Rightarrow> 32 word" where
  "field_bit f = push_bit (field_num f - 1) 1"

primrec seen_of :: "wire_field list \<Rightarrow> 32 word" where
  "seen_of [] = 0"
| "seen_of (x # xs) = field_bit (fst x) OR seen_of xs"

lemma seen_of_append [simp]: "seen_of (xs @ ys) = seen_of xs OR seen_of ys"
  by (induction xs) (simp_all add: or.assoc)

lemma bit_field_bit: "bit (field_bit f) n \<longleftrightarrow> n + 1 = field_num f"
  using field_num_range [of f] by (auto simp: field_bit_def bit_simps)

lemma bit_seen_of: "bit (seen_of xs) n \<longleftrightarrow> n + 1 \<in> field_num ` fst ` set xs"
  by (induction xs) (auto simp: bit_or_iff bit_field_bit)

lemma bit32_less: "bit w n \<Longrightarrow> n < 32" for w :: "32 word"
  using bit_imp_le_length [of w n] by simp

lemma seen_of_field: "seen_of xs AND field_bit f \<noteq> 0 \<longleftrightarrow> f \<in> fst ` set xs"
proof -
  have "seen_of xs AND field_bit f \<noteq> 0 \<longleftrightarrow> (\<exists>n. bit (seen_of xs) n \<and> bit (field_bit f) n)"
    by (auto simp: bit_eq_iff bit_and_iff dest: bit32_less)
  also have "\<dots> \<longleftrightarrow> f \<in> fst ` set xs"
    using field_num_range(1) [of f] by (force simp: bit_seen_of bit_field_bit field_num_inj intro: exI [of _ "field_num f - 1"])
  finally show ?thesis .
qed

lemma seen_of_required:
  "seen_of xs AND required_fields = required_fields \<longleftrightarrow> {F_RAWMSG, F_MSG_OFFSET} \<subseteq> fst ` set xs"
proof -
  have r: "required_fields = field_bit F_RAWMSG OR field_bit F_MSG_OFFSET"
    by (simp add: required_fields_def field_bit_def)
  have "seen_of xs AND required_fields = required_fields
      \<longleftrightarrow> (\<forall>n. bit required_fields n \<longrightarrow> bit (seen_of xs) n)"
    by (auto simp: bit_eq_iff bit_and_iff dest: bit32_less)
  also have "\<dots> \<longleftrightarrow> bit (seen_of xs) 8 \<and> bit (seen_of xs) 22"
    by (auto simp: r bit_or_iff bit_field_bit)
  also have "\<dots> \<longleftrightarrow> field_num F_RAWMSG \<in> field_num ` fst ` set xs \<and> field_num F_MSG_OFFSET \<in> field_num ` fst ` set xs"
    by (simp add: bit_seen_of)
  also have "\<dots> \<longleftrightarrow> {F_RAWMSG, F_MSG_OFFSET} \<subseteq> fst ` set xs"
  proof -
    have "inj field_num"
      by (rule injI) (simp add: field_num_inj)
    then show ?thesis
      by (simp only: inj_image_mem_iff insert_subset) simp
  qed
  finally show ?thesis .
qed

text \<open>The header of a field as the decoder reads it.\<close>

abbreviation tlv_head :: "wire_field \<Rightarrow> byte list" where
  "tlv_head x \<equiv> put16 (of_nat (field_num (fst x))) @ [type_num (fst (snd x)), 0] @ put32 (of_nat (length (snd (snd x))))"

lemma tlv_head_parts:
  assumes "length ps \<le> TLV_MAX_PAYLOAD"
  shows "unat (get16 (tlv_head (f, ty, ps))) = field_num f" "tlv_head (f, ty, ps) ! 2 = type_num ty"
    "tlv_head (f, ty, ps) ! 3 = 0" "unat (get32 (drop 4 (tlv_head (f, ty, ps)))) = length ps"
proof -
  have "get16 (tlv_head (f, ty, ps)) = of_nat (field_num f)"
    by (rule get16_put16) simp
  then show "unat (get16 (tlv_head (f, ty, ps))) = field_num f"
    using field_num_range(2) [of f] by (simp add: unat_of_nat)
  show "tlv_head (f, ty, ps) ! 2 = type_num ty" "tlv_head (f, ty, ps) ! 3 = 0"
    by (simp_all add: nth_append)
  have "get32 (drop 4 (tlv_head (f, ty, ps))) = of_nat (length ps)"
    by (rule get32_put32) simp
  then show "unat (get32 (drop 4 (tlv_head (f, ty, ps)))) = length ps"
    using assms by (simp add: unat_of_nat TLV_MAX_PAYLOAD_def)
qed

lemma frame_read:
  assumes "drop pos xs = tlv_frame (f, ty, ps) @ rest"
  shows "buf_read (map Some xs) pos TLV_HDR_LEN = Some (chars (tlv_head (f, ty, ps)))"
    "drop (pos + TLV_HDR_LEN) xs = ps @ rest" "pos < length xs" "length xs - pos = TLV_HDR_LEN + length ps + length rest"
proof -
  have h: "tlv_frame (f, ty, ps) = chars (tlv_head (f, ty, ps)) @ ps"
    by (simp add: tlv_frame_def)
  have l: "length xs - pos = TLV_HDR_LEN + length ps + length rest"
    using arg_cong [OF assms, of length] by simp
  then show "length xs - pos = TLV_HDR_LEN + length ps + length rest" "pos < length xs"
    by (simp_all add: TLV_HDR_LEN_def)
  have "take 8 (drop pos xs) = chars (tlv_head (f, ty, ps))"
    by (simp add: assms h)
  then show "buf_read (map Some xs) pos TLV_HDR_LEN = Some (chars (tlv_head (f, ty, ps)))"
    using l by (simp add: buf_read_Some_iff TLV_HDR_LEN_def take_map drop_map)
  have "drop (pos + TLV_HDR_LEN) xs = drop 8 (drop pos xs)"
    by (simp add: TLV_HDR_LEN_def add.commute)
  then show "drop (pos + TLV_HDR_LEN) xs = ps @ rest"
    by (simp add: assms h)
qed

lemma decode_next:
  assumes xs: "xs = don @ (f, ty, ps) # todo" and new: "f \<notin> fst ` set don" and l: "length ps \<le> TLV_MAX_PAYLOAD"
  shows "decode_loop alloc parse conf (map Some (wire xs)) (length (wire don)) (seen_of don) m = do {
      (r, m') \<leftarrow> decode_field alloc parse conf (map Some (wire xs)) (field_num f) (type_num ty) 0
        (length (wire don) + TLV_HDR_LEN) (length ps) m;
      if r \<noteq> RS_RET_OK then abort r
      else decode_loop alloc parse conf (map Some (wire xs)) (length (wire (don @ [(f, ty, ps)]))) (seen_of (don @ [(f, ty, ps)])) m' }"
proof -
  have "drop (length (wire don)) (wire xs) = tlv_frame (f, ty, ps) @ wire todo"
    by (simp add: xs)
  note fr = frame_read [OF this]
  have "Suc 0 \<le> field_num f" "field_num f \<le> 31" "2 ^ (field_num f - Suc 0) = field_bit f"
    using field_num_range [of f] by (simp_all add: field_bit_def push_bit_eq_mult)
  moreover have "seen_of don AND field_bit f = 0"
    using seen_of_field [of don f] new by blast
  moreover have "map (byte_of_char \<circ> char_of_byte) h = h" for h
    by (simp add: o_def)
  moreover have "\<not> length (wire xs) - (length (wire don) + TLV_HDR_LEN) < length ps"
    using fr(4) by linarith
  ultimately show ?thesis
    using fr(1,3,4) l tlv_head_parts [OF l, of f ty] by (subst decode_loop.simps) (simp add: Let_def add.assoc cong: if_cong)
qed

lemma decode_step:
  assumes "xs = don @ (f, ty, ps) # todo" "f \<notin> fst ` set don" "length ps \<le> TLV_MAX_PAYLOAD"
    and "decode_field alloc parse conf (map Some (wire xs)) (field_num f) (type_num ty) 0
      (length (wire don) + TLV_HDR_LEN) (length ps) m = Some (RS_RET_OK, m')"
  shows "decode_loop alloc parse conf (map Some (wire xs)) (length (wire don)) (seen_of don) m
    = decode_loop alloc parse conf (map Some (wire xs)) (length (wire (don @ [(f, ty, ps)]))) (seen_of (don @ [(f, ty, ps)])) m'"
  using decode_next [OF assms(1-3), of alloc parse conf m] assms(4) by simp

end
