(* ===== verification/Segdisk_Record.thy ===== *)
theory Segdisk_Record
imports Segdisk_Codec
begin

text \<open>
  A record that \<^verbatim>\<open>segdiskCodecEncode\<close> wrote is read back by \<^verbatim>\<open>segdiskCodecDecode\<close> as a message with the
  same content: each field changes the content of the message as it should, and the fields of
  a record give the content of the message that was written.
\<close>

unbundle bit_operations_syntax

section \<open>Fields and content\<close>

text \<open>How a field changes the content that a message shows.\<close>

primrec field_upd :: "tlv_field \<Rightarrow> (char list \<Rightarrow> 'j option) \<Rightarrow> char list \<Rightarrow> 'j wire_view \<Rightarrow> 'j wire_view" where
  "field_upd F_PROTOCOL parse ps v = v \<lparr> v_protocol := uint (get16 (bytes_of ps)) \<rparr>"
| "field_upd F_SEVERITY parse ps v = v \<lparr> v_severity := uint (get16 (bytes_of ps)) \<rparr>"
| "field_upd F_FACILITY parse ps v = v \<lparr> v_facility := uint (get16 (bytes_of ps)) \<rparr>"
| "field_upd F_FLAGS parse ps v = v \<lparr> v_flags := get32 (bytes_of ps) \<rparr>"
| "field_upd F_GENTIME parse ps v = v \<lparr> v_gentime := sint (get64 (bytes_of ps)) \<rparr>"
| "field_upd F_RECEIVED parse ps v = v \<lparr> v_received := time_of_wire (take 18 ps) \<rparr>"
| "field_upd F_TIMESTAMP parse ps v = v \<lparr> v_timestamp := time_of_wire (take 18 ps) \<rparr>"
| "field_upd F_TAG parse ps v = v \<lparr> v_tag := ps \<rparr>"
| "field_upd F_RAWMSG parse ps v = v \<lparr> v_raw := ps,
     v_lenmsg := (if v_offmsg v < int (length ps) then v_lenmsg v + int (length ps) - int (length (v_raw v)) else 0) \<rparr>"
| "field_upd F_HOSTNAME parse ps v = v \<lparr> v_hostname := Some ps \<rparr>"
| "field_upd F_INPUTNAME parse ps v = v \<lparr> v_input := ps \<rparr>"
| "field_upd F_RCVFROM parse ps v = v \<lparr> v_from := ps \<rparr>"
| "field_upd F_RCVFROMIP parse ps v = v \<lparr> v_fromip := ps \<rparr>"
| "field_upd F_RCVFROMPORT parse ps v = v \<lparr> v_fromport := ps \<rparr>"
| "field_upd F_STRUCTURED_DATA parse ps v = v \<lparr> v_struc := Some ps \<rparr>"
| "field_upd F_JSON parse ps v = v \<lparr> v_json := parse ps \<rparr>"
| "field_upd F_LOCALVARS parse ps v = v \<lparr> v_localvars := parse ps \<rparr>"
| "field_upd F_APPNAME parse ps v = v \<lparr> v_app := Some ps \<rparr>"
| "field_upd F_PROCID parse ps v = v \<lparr> v_proc := Some ps \<rparr>"
| "field_upd F_MSGID parse ps v = v \<lparr> v_msgid := Some ps \<rparr>"
| "field_upd F_UUID parse ps v = v \<lparr> v_uuid := Some ps \<rparr>"
| "field_upd F_RULESET parse ps v = v \<lparr> v_ruleset := Some ps \<rparr>"
| "field_upd F_MSG_OFFSET parse ps v = v \<lparr> v_offmsg := sint (get32 (bytes_of ps)),
     v_lenmsg := (if int (length (v_raw v)) < sint (get32 (bytes_of ps)) then 0
       else int (length (v_raw v)) - sint (get32 (bytes_of ps))) \<rparr>"
| "field_upd F_AFTER_PRI_OFFSET parse ps v = v \<lparr> v_afterpri := sint (get32 (bytes_of ps)) \<rparr>"
| "field_upd F_PARSE_SUCCESS parse ps v = v \<lparr> v_success := int8 (uint (byte_of_char (ps ! 0))) \<rparr>"

text \<open>When a field of the encoder is accepted by the decoder: its length, and what its setter needs.\<close>

definition text_ok :: "char list \<Rightarrow> bool" where
  "text_ok s \<longleftrightarrow> NUL \<notin> set s"

primrec field_ok :: "tlv_field \<Rightarrow> (char list \<Rightarrow> 'j option) \<Rightarrow> rulesets \<Rightarrow> tlv_type \<Rightarrow> char list \<Rightarrow> 'j wire_view \<Rightarrow> bool" where
  "field_ok F_PROTOCOL parse conf ty ps v \<longleftrightarrow> ty = TLV_U16 \<and> length ps = 2 \<and> uint (get16 (bytes_of ps)) \<le> 1"
| "field_ok F_SEVERITY parse conf ty ps v \<longleftrightarrow> ty = TLV_U16 \<and> length ps = 2"
| "field_ok F_FACILITY parse conf ty ps v \<longleftrightarrow> ty = TLV_U16 \<and> length ps = 2"
| "field_ok F_FLAGS parse conf ty ps v \<longleftrightarrow> ty = TLV_U32 \<and> length ps = 4"
| "field_ok F_GENTIME parse conf ty ps v \<longleftrightarrow> ty = TLV_U64 \<and> length ps = 8"
| "field_ok F_RECEIVED parse conf ty ps v \<longleftrightarrow> ty = TLV_TIME \<and> length ps = 20"
| "field_ok F_TIMESTAMP parse conf ty ps v \<longleftrightarrow> ty = TLV_TIME \<and> length ps = 20"
| "field_ok F_TAG parse conf ty ps v \<longleftrightarrow> ty = TLV_BYTES"
| "field_ok F_RAWMSG parse conf ty ps v \<longleftrightarrow> ty = TLV_BYTES \<and> v_raw v = []"
| "field_ok F_HOSTNAME parse conf ty ps v \<longleftrightarrow> ty = TLV_BYTES"
| "field_ok F_INPUTNAME parse conf ty ps v \<longleftrightarrow> ty = TLV_BYTES"
| "field_ok F_RCVFROM parse conf ty ps v \<longleftrightarrow> ty = TLV_BYTES \<and> text_ok ps \<and> v_flags v AND NEEDS_DNSRESOL = 0"
| "field_ok F_RCVFROMIP parse conf ty ps v \<longleftrightarrow> ty = TLV_BYTES \<and> text_ok ps"
| "field_ok F_RCVFROMPORT parse conf ty ps v \<longleftrightarrow> ty = TLV_BYTES \<and> text_ok ps"
| "field_ok F_STRUCTURED_DATA parse conf ty ps v \<longleftrightarrow> ty = TLV_BYTES \<and> text_ok ps"
| "field_ok F_JSON parse conf ty ps v \<longleftrightarrow> ty = TLV_BYTES \<and> text_ok ps \<and> parse ps \<noteq> None"
| "field_ok F_LOCALVARS parse conf ty ps v \<longleftrightarrow> ty = TLV_BYTES \<and> text_ok ps \<and> parse ps \<noteq> None"
| "field_ok F_APPNAME parse conf ty ps v \<longleftrightarrow> ty = TLV_BYTES \<and> text_ok ps \<and> ps \<noteq> [] \<and> v_app v = None"
| "field_ok F_PROCID parse conf ty ps v \<longleftrightarrow> ty = TLV_BYTES \<and> text_ok ps \<and> ps \<noteq> [] \<and> v_proc v = None"
| "field_ok F_MSGID parse conf ty ps v \<longleftrightarrow> ty = TLV_BYTES \<and> text_ok ps \<and> ps \<noteq> [] \<and> v_msgid v = None"
| "field_ok F_UUID parse conf ty ps v \<longleftrightarrow> ty = TLV_BYTES \<and> text_ok ps"
| "field_ok F_RULESET parse conf ty ps v \<longleftrightarrow> ty = TLV_BYTES \<and> text_ok ps \<and> ps \<noteq> []
     \<and> rulesetGetRuleset conf ps = Some (RS_RET_OK, Some ps)"
| "field_ok F_MSG_OFFSET parse conf ty ps v \<longleftrightarrow> ty = TLV_U32 \<and> length ps = 4
     \<and> - 1 \<le> sint (get32 (bytes_of ps)) \<and> sint (get32 (bytes_of ps)) \<le> int (length (v_raw v)) + 1"
| "field_ok F_AFTER_PRI_OFFSET parse conf ty ps v \<longleftrightarrow> ty = TLV_U32 \<and> length ps = 4
     \<and> 0 \<le> sint (get32 (bytes_of ps)) \<and> sint (get32 (bytes_of ps)) \<le> int (length (v_raw v))"
| "field_ok F_PARSE_SUCCESS parse conf ty ps v \<longleftrightarrow> ty = TLV_U8 \<and> length ps = 1"

text \<open>A message of the decoder: its content, and a MSG part that is at most one byte too long.\<close>

definition dec_views :: "'j smsg \<Rightarrow> 'j wire_view \<Rightarrow> bool" where
  "dec_views m v \<longleftrightarrow> views m v \<and> 0 \<le> iLenMSG m \<and> iLenMSG m \<le> iLenRawMsg m + 1 \<and> length (v_raw v) \<le> TLV_MAX_PAYLOAD"

section \<open>What the setters do to the content\<close>

lemma buf_store:
  assumes "length s < length d"
  shows "\<exists>d1 d2. buf_memcpy d 0 s = Some d1 \<and> buf_put d1 (length s) NUL = Some d2 \<and> length d2 = length d
    \<and> buf_read d2 0 (length s) = Some s"
proof -
  have "buf_read d 0 0 = Some []"
    by (simp add: buf_read_def)
  then obtain d1 where d1: "buf_memcpy d 0 s = Some d1" "length d1 = length d" "buf_read d1 0 (0 + length s) = Some ([] @ s)"
    using buf_append [of d 0 "[]" s] assms by auto
  then obtain d2 where d2: "buf_put d1 (length s) NUL = Some d2" "length d2 = length d1"
      "buf_read d2 0 (length s + 1) = Some (s @ [NUL])"
    using buf_append [of d1 "length s" s "[NUL]"] assms by (auto simp: buf_put_memcpy)
  then show ?thesis
    using d1(1,2) buf_read_part [OF d2(3), of 0 "length s"] by auto
qed

lemma wire_len: "length s \<le> TLV_MAX_PAYLOAD \<Longrightarrow> int32 (int (length s)) = int (length s)"
  by (intro int32_id) (simp_all add: TLV_MAX_PAYLOAD_def)

lemma set_tag_text:
  assumes "length s \<le> TLV_MAX_PAYLOAD"
  shows "\<exists>n u. MsgSetTAG always m s = Some (m \<lparr> iLenPROGNAME := - 1, iLenTAG := n, TAG := u \<rparr>)
    \<and> tag_text (m \<lparr> iLenPROGNAME := - 1, iLenTAG := n, TAG := u \<rparr>) = Some s"
proof -
  define k where "k = (if int (length s) < CONF_TAG_BUFSIZE then nat CONF_TAG_BUFSIZE else nat (int (length s)) + 1)"
  have "length s < length (buf_new k)"
    by (simp add: k_def CONF_TAG_BUFSIZE_def)
  then obtain d1 d2 where d: "buf_memcpy (buf_new k) 0 s = Some d1" "buf_put d1 (length s) NUL = Some d2"
      "buf_read d2 0 (length s) = Some s"
    using buf_store by blast
  then show ?thesis
    unfolding MsgSetTAG_def Let_def wire_len [OF assms] tag_text_def
    by (intro exI [of _ "int (length s)"] exI [of _ "if int (length s) < CONF_TAG_BUFSIZE then UnionBuf d2 else UnionPtr d2"])
      (auto simp: k_def split: if_splits)
qed

lemma set_hostname_text:
  assumes "length s \<le> TLV_MAX_PAYLOAD" "length (szHOSTNAME m) = 32"
  shows "\<exists>p c. MsgSetHOSTNAME always m s = Some (m \<lparr> iLenHOSTNAME := int (length s), pszHOSTNAME := p, szHOSTNAME := c \<rparr>)
    \<and> hostname_is (m \<lparr> iLenHOSTNAME := int (length s), pszHOSTNAME := p, szHOSTNAME := c \<rparr>) (Some s)"
proof (cases "int (length s) < CONF_HOSTNAME_BUFSIZE")
  case True
  then have "length s < length (szHOSTNAME m)"
    using assms(2) by (simp add: CONF_HOSTNAME_BUFSIZE_def)
  then obtain d1 d2 where d: "buf_memcpy (szHOSTNAME m) 0 s = Some d1" "buf_put d1 (length s) NUL = Some d2"
      "length d2 = 32" "buf_read d2 0 (length s) = Some s"
    using buf_store assms(2) by metis
  then show ?thesis
    unfolding MsgSetHOSTNAME_def Let_def wire_len [OF assms(1)] using True
    by (intro exI [of _ Fixed] exI [of _ d2]) (simp add: hostname_is_def hostname_cells_def)
next
  case False
  have "length s < length (buf_new (length s + 1))"
    by simp
  then obtain d1 d2 where d: "buf_memcpy (buf_new (length s + 1)) 0 s = Some d1" "buf_put d1 (length s) NUL = Some d2"
      "buf_read d2 0 (length s) = Some s"
    using buf_store by blast
  then show ?thesis
    unfolding MsgSetHOSTNAME_def Let_def wire_len [OF assms(1)] using False assms(2)
    by (intro exI [of _ "Heap d2"] exI [of _ "szHOSTNAME m"]) (simp add: hostname_is_def hostname_cells_def)
qed

lemma set_raw_frame:
  assumes "MsgSetRawMsg alloc m s = Some m'"
  shows "\<exists>p n b k. m' = m \<lparr> pszRawMsg := p, iLenRawMsg := n, szRawMsg := b, iLenMSG := k \<rparr>"
proof -
  have "\<exists>p' b'. set_raw_buf (m \<lparr> pszRawMsg := p, iLenRawMsg := n \<rparr>) b = m \<lparr> pszRawMsg := p', iLenRawMsg := n, szRawMsg := b' \<rparr>" for p n b
  proof (cases p)
    case NullPtr
    then show ?thesis
      by (intro exI [of _ NullPtr] exI [of _ "szRawMsg m"]) (simp add: set_raw_buf_def)
  next
    case Fixed
    then show ?thesis
      by (intro exI [of _ Fixed] exI [of _ b]) (simp add: set_raw_buf_def)
  next
    case (Heap c)
    then show ?thesis
      by (intro exI [of _ "Heap b"] exI [of _ "szRawMsg m"]) (simp add: set_raw_buf_def)
  qed
  moreover obtain p n b k where "m' = (set_raw_buf (m \<lparr> pszRawMsg := p, iLenRawMsg := n \<rparr>) b) \<lparr> iLenMSG := k \<rparr>"
    using assms unfolding MsgSetRawMsg_def Let_def by (auto split: if_splits bind_splits prod.splits)
  ultimately show ?thesis
    by (metis smsg.update_convs)
qed

text \<open>The string object the setters build for a text.\<close>

definition text_cstr :: "char list \<Rightarrow> cstr" where
  "text_cstr s = \<lparr> pBuf = Some (sz_cells s), iBufSize = length s + 1, iStrLen = length s \<rparr>"

lemma text_cstr_ok: "cstr_wf (text_cstr s)" "cstr_val (text_cstr s) = s"
  by (auto simp: text_cstr_def cstr_wf_def cstr_val_def cstr_cells_def)

lemma text_cstr_sz: "NUL \<notin> set s \<Longrightarrow> buf_sz (cstrGetSzStrNoNULL (text_cstr s)) = Some s"
  by (induction s) (auto simp: text_cstr_def cstrGetSzStrNoNULL_def)

lemma put_after: "buf_put (map Some s @ [x]) (length s) c = Some (map Some s @ [Some c])"
  by (simp add: buf_put_def list_update_append)

lemma memcpy_fresh: "buf_memcpy (replicate (Suc (length s)) None) 0 s = Some (map Some s @ [None])"
  by (simp add: buf_memcpy_def del: replicate_Suc) (simp add: Suc_diff_le)

lemma set_cstr_new:
  assumes "text_ok s" "s \<noteq> []"
  shows "set_cstr always None s = Some (RS_RET_OK, Some (text_cstr s))"
  using assms memcpy_fresh [of s] put_after [of s None NUL]
  by (simp add: set_cstr_def cstrConstruct_def rsCStrSetSzStr_def Let_def strlen_no_NUL text_ok_def cstr_cells_def
      buf_realloc_def cstrFinalize_def text_cstr_def cstr_empty_def)

lemma cstr_from_sz:
  assumes "text_ok s" "s \<noteq> []"
  shows "\<exists>c. rsCStrConstructFromszStr always s = Some (RS_RET_OK, Some c) \<and> cstrFinalize c = Some (text_cstr s)"
  using assms memcpy_fresh [of s] put_after [of s None NUL]
  by (simp add: rsCStrConstructFromszStr_def cstr_of_text_def cstrConstruct_def strlen_no_NUL text_ok_def cstr_cells_def
      buf_new_def cstrFinalize_def text_cstr_def cstr_empty_def)

lemma create_prop:
  assumes "length s \<le> TLV_MAX_PAYLOAD"
  shows "\<exists>p. CreateStringProp always (map Some (s @ NUL # rest)) (int (length s)) = Some (RS_RET_OK, Some p) \<and> prop_holds p s"
  using CreateStringProp_ok [of s "map Some (s @ NUL # rest)" always] assms by (auto simp: TLV_MAX_PAYLOAD_def)

lemma prop_holds_text: "prop_holds p s \<Longrightarrow> text_ok s \<Longrightarrow> prop_sz (Some p) = Some s"
  using prop_holds_sz [of p s] by (auto simp: prop_sz_def text_ok_def)

lemma prop_holds_input: "prop_holds p s \<Longrightarrow> pInputName m = Some p \<Longrightarrow> getInputName m = Some s"
  using buf_read_part [of _ 0 "length s + 1" "s @ [NUL]" 0 "length s"] by (auto simp: prop_holds_def getInputName_def)

section \<open>A field changes the content as it should\<close>

text \<open>The payload of a field in the buffer, with what follows it.\<close>

definition payload_at :: "buf \<Rightarrow> nat \<Rightarrow> char list \<Rightarrow> char list \<Rightarrow> bool" where
  "payload_at b pos ps rest \<longleftrightarrow> pos \<le> length b \<and> drop pos b = map Some (ps @ rest)"

lemma payload_read:
  assumes "payload_at b pos ps rest" "n = length ps"
  shows "buf_read (drop pos b) 0 n = Some ps" "buf_read b pos n = Some ps"
proof -
  have d: "drop pos b = map Some ps @ map Some rest"
    using assms(1) by (simp add: payload_at_def)
  then show "buf_read (drop pos b) 0 n = Some ps"
    using assms(2) by simp
  have "length b - pos = length ps + length rest"
    using arg_cong [OF d, of length] by simp
  then show "buf_read b pos n = Some ps"
    using assms d by (simp add: buf_read_Some_iff payload_at_def)
qed

lemma payload_time: "payload_at b pos ps rest \<Longrightarrow> length ps = 20 \<Longrightarrow> buf_read b pos 18 = Some (take 18 ps)"
  using buf_read_part [of b pos 20 ps 0 18] payload_read(2) [of b pos ps rest 20] by simp

abbreviation (input) field_does ::
  "(char list \<Rightarrow> 'j option) \<Rightarrow> rulesets \<Rightarrow> buf \<Rightarrow> nat \<Rightarrow> tlv_field \<Rightarrow> tlv_type \<Rightarrow> char list \<Rightarrow> 'j smsg \<Rightarrow> 'j wire_view \<Rightarrow> bool" where
  "field_does parse conf b pos f ty ps m v \<equiv>
     \<exists>m'. decode_field always parse conf b (field_num f) (type_num ty) 0 pos (length ps) m = Some (RS_RET_OK, m')
       \<and> dec_views m' (field_upd f parse ps v)"

lemmas field_defs = decode_field_def Let_def field_of_nums setProtocolVersion_def decode_time_def MsgSetParseSuccess_def

text \<open>
  The content of a message in terms of the fields of the object it depends on, so that the
  change of another field is seen not to matter.
\<close>

definition tag_is :: "int \<Rightarrow> cell_union \<Rightarrow> char list \<Rightarrow> bool" where
  "tag_is n u t \<longleftrightarrow> (if n = 0 then t = [] else 0 < n \<and> (case u of
     UnionNull \<Rightarrow> False
   | UnionBuf b \<Rightarrow> n < CONF_TAG_BUFSIZE \<and> buf_read b 0 (nat n) = Some t
   | UnionPtr b \<Rightarrow> \<not> n < CONF_TAG_BUFSIZE \<and> buf_read b 0 (nat n) = Some t))"

definition cells_of :: "cell_store \<Rightarrow> buf \<Rightarrow> buf option" where
  "cells_of p b = (case p of NullPtr \<Rightarrow> None | Fixed \<Rightarrow> Some b | Heap c \<Rightarrow> Some c)"

definition raw_is :: "cell_store \<Rightarrow> buf \<Rightarrow> int \<Rightarrow> char list \<Rightarrow> bool" where
  "raw_is p b n t \<longleftrightarrow> length b = 101 \<and> n = int (length t)
     \<and> (case cells_of p b of None \<Rightarrow> t = [] | Some b \<Rightarrow> buf_read b 0 (length t + 1) = Some (t @ [NUL]))"

definition host_is :: "cell_store \<Rightarrow> buf \<Rightarrow> int \<Rightarrow> char list option \<Rightarrow> bool" where
  "host_is p b n h \<longleftrightarrow> length b = 32 \<and> (case h of
     None \<Rightarrow> cells_of p b = None
   | Some s \<Rightarrow> \<exists>c. cells_of p b = Some c \<and> buf_read c 0 (length s) = Some s \<and> n = int (length s))"

definition input_is :: "prop_s option \<Rightarrow> char list \<Rightarrow> bool" where
  "input_is q s \<longleftrightarrow> (case q of None \<Rightarrow> s = [] | Some p \<Rightarrow> \<exists>b n. GetString p = Some (b, n) \<and> 0 \<le> n \<and> buf_read b 0 (nat n) = Some s)"

definition peer_is :: "rcv_from \<Rightarrow> char list \<Rightarrow> bool" where
  "peer_is r s \<longleftrightarrow> (case r of FromNull \<Rightarrow> s = [] | FromProp p \<Rightarrow> prop_sz (Some p) = Some s | FromInet _ \<Rightarrow> False)"

lemma tag_view: "tag_text m = Some t \<longleftrightarrow> tag_is (iLenTAG m) (TAG m) t"
  by (auto simp: tag_text_def tag_is_def split: cell_union.splits if_splits bool.splits)

lemma cells_view: "raw_buf m = cells_of (pszRawMsg m) (szRawMsg m)" "hostname_cells m = cells_of (pszHOSTNAME m) (szHOSTNAME m)"
  by (simp_all add: raw_buf_def hostname_cells_def cells_of_def)

lemma raw_view: "raw_ok m t \<longleftrightarrow> raw_is (pszRawMsg m) (szRawMsg m) (iLenRawMsg m) t"
  by (simp only: raw_ok_def raw_is_def cells_view)

lemma host_view: "hostname_is m h \<longleftrightarrow> host_is (pszHOSTNAME m) (szHOSTNAME m) (iLenHOSTNAME m) h"
  by (simp only: hostname_is_def host_is_def cells_view)

lemma input_view: "getInputName m = Some t \<longleftrightarrow> input_is (pInputName m) t"
  by (auto simp: getInputName_def input_is_def split: option.splits bind_splits)

lemma peer_view: "from_is m t \<longleftrightarrow> peer_is (rcvFrom m) t"
  by (auto simp: from_is_def peer_is_def pRcvFrom_def prop_sz_def split: rcv_from.splits option.splits)

lemmas part_views = tag_view raw_view host_view input_view peer_view

lemma dec_views_number:
  assumes "dec_views m v"
  shows "dec_views (m \<lparr> iProtocolVersion := i \<rparr>) (v \<lparr> v_protocol := i \<rparr>)" "dec_views (m \<lparr> iSeverity := i \<rparr>) (v \<lparr> v_severity := i \<rparr>)"
    "dec_views (m \<lparr> iFacility := i \<rparr>) (v \<lparr> v_facility := i \<rparr>)" "dec_views (m \<lparr> msgFlags := w \<rparr>) (v \<lparr> v_flags := w \<rparr>)"
    "dec_views (m \<lparr> ttGenTime := i \<rparr>) (v \<lparr> v_gentime := i \<rparr>)" "dec_views (m \<lparr> tRcvdAt := t \<rparr>) (v \<lparr> v_received := t \<rparr>)"
    "dec_views (m \<lparr> tTIMESTAMP := t \<rparr>) (v \<lparr> v_timestamp := t \<rparr>)" "dec_views (m \<lparr> bParseSuccess := i \<rparr>) (v \<lparr> v_success := i \<rparr>)"
  using assms unfolding dec_views_def views_def part_views by simp_all

lemma field_number:
  assumes "dec_views m v" "field_ok f parse conf ty ps v" "payload_at b pos ps rest"
    "f \<in> {F_PROTOCOL, F_SEVERITY, F_FACILITY, F_FLAGS, F_GENTIME, F_RECEIVED, F_TIMESTAMP, F_PARSE_SUCCESS}"
  shows "field_does parse conf b pos f ty ps m v"
proof -
  have "uint (get16 (bytes_of ps)) = 0 \<or> uint (get16 (bytes_of ps)) = 1" if "f = F_PROTOCOL"
  proof -
    have "0 \<le> uint (get16 (bytes_of ps))" "uint (get16 (bytes_of ps)) \<le> 1"
      using that assms(2) by auto
    then show ?thesis
      by linarith
  qed
  then show ?thesis
    using assms(2,4) payload_read(1) [OF assms(3)] payload_time [OF assms(3)] dec_views_number [OF assms(1)]
    by (auto simp: field_defs)
qed

lemma dec_views_text:
  assumes "dec_views m v"
  shows "dec_views (m \<lparr> pszStrucData := t \<rparr>) (v \<lparr> v_struc := t \<rparr>)" "dec_views (m \<lparr> json := j \<rparr>) (v \<lparr> v_json := j \<rparr>)"
    "dec_views (m \<lparr> localvars := j \<rparr>) (v \<lparr> v_localvars := j \<rparr>)" "dec_views (m \<lparr> pszUUID := t \<rparr>) (v \<lparr> v_uuid := t \<rparr>)"
    "dec_views (m \<lparr> pRuleset := t \<rparr>) (v \<lparr> v_ruleset := t \<rparr>)"
    "dec_views (m \<lparr> pCSAPPNAME := Some (text_cstr s) \<rparr>) (v \<lparr> v_app := Some s \<rparr>)"
    "dec_views (m \<lparr> pCSPROCID := Some (text_cstr s) \<rparr>) (v \<lparr> v_proc := Some s \<rparr>)"
    "dec_views (m \<lparr> pCSMSGID := Some (text_cstr s) \<rparr>) (v \<lparr> v_msgid := Some s \<rparr>)"
  using assms text_cstr_ok [of s] unfolding dec_views_def views_def part_views by (simp_all add: cstr_is_def)

lemma field_text:
  assumes "dec_views m v" "field_ok f parse conf ty ps v" "payload_at b pos ps rest"
    "f \<in> {F_STRUCTURED_DATA, F_JSON, F_LOCALVARS, F_APPNAME, F_PROCID, F_MSGID, F_UUID, F_RULESET}"
  shows "field_does parse conf b pos f ty ps m v"
proof -
  have "text_ok ps"
    using assms(2,4) by auto
  then have t: "take (strlen ps) ps = ps" "strlen ps = length ps"
    by (simp_all add: text_ok_def strlen_no_NUL)
  have d: "dup_text always b pos (length ps) = Some (RS_RET_OK, ps)"
    using payload_read(2) [OF assms(3)] by (simp add: dup_text_def)
  note dv = dec_views_text [OF assms(1)]
  consider "f \<in> {F_STRUCTURED_DATA, F_JSON, F_LOCALVARS, F_UUID}" | "f \<in> {F_APPNAME, F_PROCID, F_MSGID}" | "f = F_RULESET"
    using assms(4) by auto
  then show ?thesis
  proof cases
    case 1
    then show ?thesis
      using assms(2) d t dv by (auto simp: field_defs MsgSetStructuredData_def)
  next
    case 2
    then have ne: "ps \<noteq> []" and ty: "ty = TLV_BYTES"
      using assms(2) by auto
    have "decode_field always parse conf b (field_num F_APPNAME) (type_num TLV_BYTES) 0 pos (length ps) m
        = Some (RS_RET_OK, m \<lparr> pCSAPPNAME := Some (text_cstr ps) \<rparr>)" if "pCSAPPNAME m = None"
      using that ne d t set_cstr_new [OF \<open>text_ok ps\<close> ne] by (simp add: field_defs MsgSetAPPNAME_def)
    moreover have "decode_field always parse conf b (field_num F_PROCID) (type_num TLV_BYTES) 0 pos (length ps) m
        = Some (RS_RET_OK, m \<lparr> pCSPROCID := Some (text_cstr ps) \<rparr>)" if "pCSPROCID m = None"
      using that d set_cstr_new [OF \<open>text_ok ps\<close> ne] by (simp add: field_defs MsgSetPROCID_def)
    moreover have "decode_field always parse conf b (field_num F_MSGID) (type_num TLV_BYTES) 0 pos (length ps) m
        = Some (RS_RET_OK, m \<lparr> pCSMSGID := Some (text_cstr ps) \<rparr>)" if "pCSMSGID m = None"
      using that d set_cstr_new [OF \<open>text_ok ps\<close> ne] by (simp add: field_defs MsgSetMSGID_def)
    moreover have "f = F_APPNAME \<Longrightarrow> pCSAPPNAME m = None" "f = F_PROCID \<Longrightarrow> pCSPROCID m = None" "f = F_MSGID \<Longrightarrow> pCSMSGID m = None"
      using assms(1,2) by (simp_all add: dec_views_def views_def cstr_is_def)
    ultimately show ?thesis
      using 2 ty dv by fastforce
  next
    case 3
    then have ok: "ty = TLV_BYTES" "ps \<noteq> []" "rulesetGetRuleset conf ps = Some (RS_RET_OK, Some ps)"
      using assms(2) by auto
    obtain c where c: "rsCStrConstructFromszStr always ps = Some (RS_RET_OK, Some c)" "cstrFinalize c = Some (text_cstr ps)"
      using cstr_from_sz [OF \<open>text_ok ps\<close> ok(2)] by blast
    have "buf_sz (cstrGetSzStrNoNULL (text_cstr ps)) = Some ps"
      using \<open>text_ok ps\<close> text_cstr_sz by (simp add: text_ok_def)
    then show ?thesis
      using 3 ok c d dv by (simp add: field_defs MsgSetRulesetByName_def)
  qed
qed

lemma field_stored:
  assumes "dec_views m v" "field_ok f parse conf ty ps v" "payload_at b pos ps rest" "length ps \<le> TLV_MAX_PAYLOAD"
    "f \<in> {F_TAG, F_HOSTNAME}"
  shows "field_does parse conf b pos f ty ps m v"
proof (cases "f = F_TAG")
  case True
  obtain n u where t: "MsgSetTAG always m ps = Some (m \<lparr> iLenPROGNAME := - 1, iLenTAG := n, TAG := u \<rparr>)"
    "tag_text (m \<lparr> iLenPROGNAME := - 1, iLenTAG := n, TAG := u \<rparr>) = Some ps"
    using set_tag_text [OF assms(4)] by blast
  have "dec_views (m \<lparr> iLenPROGNAME := - 1, iLenTAG := n, TAG := u \<rparr>) (v \<lparr> v_tag := ps \<rparr>)"
    using assms(1) t(2) unfolding dec_views_def views_def part_views by simp
  then show ?thesis
    using True assms(2) payload_read(1) [OF assms(3)] t(1) by (simp add: field_defs)
next
  case False
  have "length (szHOSTNAME m) = 32"
    using assms(1) by (simp add: dec_views_def views_def hostname_is_def)
  then obtain p c where t: "MsgSetHOSTNAME always m ps = Some (m \<lparr> iLenHOSTNAME := int (length ps), pszHOSTNAME := p, szHOSTNAME := c \<rparr>)"
    "hostname_is (m \<lparr> iLenHOSTNAME := int (length ps), pszHOSTNAME := p, szHOSTNAME := c \<rparr>) (Some ps)"
    using set_hostname_text [OF assms(4)] by blast
  have "dec_views (m \<lparr> iLenHOSTNAME := int (length ps), pszHOSTNAME := p, szHOSTNAME := c \<rparr>) (v \<lparr> v_hostname := Some ps \<rparr>)"
    using assms(1) t(2) unfolding dec_views_def views_def part_views by simp
  then show ?thesis
    using False assms(2,5) payload_read(1) [OF assms(3)] t(1) by (auto simp: field_defs)
qed

lemma dec_views_prop:
  assumes "dec_views m v" "prop_holds p s"
  shows "dec_views (m \<lparr> pInputName := Some p \<rparr>) (v \<lparr> v_input := s \<rparr>)"
    "text_ok s \<Longrightarrow> dec_views (m \<lparr> rcvFrom := FromProp p \<rparr>) (v \<lparr> v_from := s \<rparr>)"
    "text_ok s \<Longrightarrow> dec_views (m \<lparr> pRcvFromIP := Some p \<rparr>) (v \<lparr> v_fromip := s \<rparr>)"
    "text_ok s \<Longrightarrow> dec_views (m \<lparr> pRcvFromPort := Some p \<rparr>) (v \<lparr> v_fromport := s \<rparr>)"
proof -
  have "getInputName (m \<lparr> pInputName := Some p \<rparr>) = Some s"
    by (rule prop_holds_input [OF assms(2)]) simp
  then have i: "input_is (Some p) s"
    by (simp add: part_views)
  have t: "prop_sz (Some p) = Some s" if "text_ok s"
    using prop_holds_text [OF assms(2) that] .
  show "dec_views (m \<lparr> pInputName := Some p \<rparr>) (v \<lparr> v_input := s \<rparr>)"
    using assms(1) i unfolding dec_views_def views_def part_views by simp
  show "text_ok s \<Longrightarrow> dec_views (m \<lparr> rcvFrom := FromProp p \<rparr>) (v \<lparr> v_from := s \<rparr>)"
    "text_ok s \<Longrightarrow> dec_views (m \<lparr> pRcvFromIP := Some p \<rparr>) (v \<lparr> v_fromip := s \<rparr>)"
    "text_ok s \<Longrightarrow> dec_views (m \<lparr> pRcvFromPort := Some p \<rparr>) (v \<lparr> v_fromport := s \<rparr>)"
    using assms(1) t unfolding dec_views_def views_def part_views by (simp_all add: peer_is_def)
qed

lemma field_prop:
  assumes "dec_views m v" "field_ok f parse conf ty ps v" "payload_at b pos ps (NUL # rest)" "length ps \<le> TLV_MAX_PAYLOAD"
    "f \<in> {F_INPUTNAME, F_RCVFROM, F_RCVFROMIP, F_RCVFROMPORT}"
  shows "field_does parse conf b pos f ty ps m v"
proof -
  have d: "drop pos b = map Some (ps @ NUL # rest)" and ty: "ty = TLV_BYTES"
    using assms(2,3,5) by (auto simp: payload_at_def)
  obtain p where p: "CreateStringProp always (drop pos b) (int (length ps)) = Some (RS_RET_OK, Some p)" "prop_holds p ps"
    using create_prop [OF assms(4)] unfolding d by blast
  note dv = dec_views_prop [OF assms(1) p(2)]
  have "rcvFrom m \<noteq> FromInet a" for a
    using assms(1) by (auto simp: dec_views_def views_def peer_view peer_is_def)
  then have "MsgSetRcvFromWithoutAddRef m (Some p) = Some (m \<lparr> rcvFrom := FromProp p \<rparr>)" if "f = F_RCVFROM"
    using that assms(1,2) by (auto simp: MsgSetRcvFromWithoutAddRef_def needs_dns_def dec_views_def views_def Let_def split: rcv_from.split)
  then show ?thesis
    using assms(2,5) ty p(1) dv
    by (auto simp: field_defs MsgSetInputNameStr_def MsgSetRcvFromText_def MsgSetRcvFromIPText_def MsgSetRcvFromPortText_def
        CreateOrReuseStringProp_def)
qed

lemma field_raw:
  assumes "dec_views m v" "field_ok F_RAWMSG parse conf ty ps v" "payload_at b pos ps rest" "length ps \<le> TLV_MAX_PAYLOAD"
  shows "field_does parse conf b pos F_RAWMSG ty ps m v"
proof -
  have "raw_ok m (v_raw v)" "v_raw v = []"
    using assms(1,2) by (auto simp: dec_views_def views_def)
  then have "raw_ok m []" and zero: "iLenRawMsg m = 0"
    by (simp_all add: raw_ok_def)
  moreover have m: "0 \<le> iLenMSG m" "iLenMSG m \<le> iLenRawMsg m + 1" "ty = TLV_BYTES"
    using assms(1,2) by (auto simp: dec_views_def)
  ultimately obtain m' where m': "MsgSetRawMsg always m ps = Some m'" "raw_ok m' ps"
      "iLenMSG m' = (if offMSG m < int (length ps) then iLenMSG m + int (length ps) else 0)"
    using set_raw_ok [of m ps always] assms(4) by (auto simp: raw_ok_def TLV_MAX_PAYLOAD_def split: if_splits)
  obtain p n c k where e: "m' = m \<lparr> pszRawMsg := p, iLenRawMsg := n, szRawMsg := c, iLenMSG := k \<rparr>"
    using set_raw_frame [OF m'(1)] by blast
  have "iLenRawMsg m' = int (length ps)"
    using m'(2) by (simp add: raw_ok_def)
  then have "dec_views m' (field_upd F_RAWMSG parse ps v)"
    using assms(1,4) m(1,2) zero \<open>v_raw v = []\<close> m'(2,3) unfolding dec_views_def views_def part_views e
    by (simp split: if_splits)
  then show ?thesis
    using payload_read(1) [OF assms(3)] m(3) m'(1) by (simp add: field_defs)
qed

lemma field_offset:
  assumes "dec_views m v" "field_ok f parse conf ty ps v" "payload_at b pos ps rest" "f \<in> {F_MSG_OFFSET, F_AFTER_PRI_OFFSET}"
  shows "field_does parse conf b pos f ty ps m v"
proof -
  define i where "i = sint (get32 (bytes_of ps))"
  have i: "i < 2 ^ 31"
    using sint_lt [of "get32 (bytes_of ps)"] by (simp add: i_def)
  have raw: "iLenRawMsg m = int (length (v_raw v))" "length (v_raw v) \<le> TLV_MAX_PAYLOAD"
    using assms(1) by (auto simp: dec_views_def views_def raw_ok_def)
  have r: "buf_read (drop pos b) 0 4 = Some ps" and ty: "ty = TLV_U32" "length ps = 4"
    using assms(2,4) payload_read(1) [OF assms(3), of 4] by auto
  show ?thesis
  proof (cases "f = F_MSG_OFFSET")
    case True
    define k where "k = (if iLenRawMsg m < i then 0 else iLenRawMsg m - i)"
    have lo: "- 1 \<le> i" "i \<le> iLenRawMsg m + 1"
      using assms(2) True raw by (simp_all add: i_def)
    then have s: "MsgSetMSGoffs m i = Some (m \<lparr> offMSG := i, iLenMSG := k \<rparr>)"
      using raw i by (simp add: MsgSetMSGoffs_def k_def TLV_MAX_PAYLOAD_def)
    have "dec_views (m \<lparr> offMSG := i, iLenMSG := k \<rparr>) (v \<lparr> v_offmsg := i, v_lenmsg := k \<rparr>)"
      using assms(1) lo unfolding dec_views_def views_def part_views by (auto simp: k_def)
    then show ?thesis
      using True r ty s raw(1) by (cases "int (length (v_raw v)) < i") (simp_all add: field_defs k_def flip: i_def)
  next
    case False
    then have s: "MsgSetAfterPRIOffs m i = (RS_RET_OK, m \<lparr> offAfterPRI := i \<rparr>)" and f: "f = F_AFTER_PRI_OFFSET"
      using assms(2,4) raw by (auto simp: MsgSetAfterPRIOffs_def i_def)
    have "dec_views (m \<lparr> offAfterPRI := i \<rparr>) (v \<lparr> v_afterpri := i \<rparr>)"
      using assms(1) unfolding dec_views_def views_def part_views by simp
    then show ?thesis
      using f r ty s by (simp add: field_defs flip: i_def)
  qed
qed

section \<open>A whole record\<close>

abbreviation followed :: "tlv_field set" where
  "followed \<equiv> {F_INPUTNAME, F_RCVFROM, F_RCVFROMIP, F_RCVFROMPORT}"

lemma field_effect:
  assumes "dec_views m v" "field_ok f parse conf ty ps v" "payload_at b pos ps rest" "length ps \<le> TLV_MAX_PAYLOAD"
    "f \<in> followed \<Longrightarrow> \<exists>rest'. rest = NUL # rest'"
  shows "field_does parse conf b pos f ty ps m v"
proof -
  consider "f \<in> {F_PROTOCOL, F_SEVERITY, F_FACILITY, F_FLAGS, F_GENTIME, F_RECEIVED, F_TIMESTAMP, F_PARSE_SUCCESS}"
    | "f \<in> {F_STRUCTURED_DATA, F_JSON, F_LOCALVARS, F_APPNAME, F_PROCID, F_MSGID, F_UUID, F_RULESET}"
    | "f \<in> {F_TAG, F_HOSTNAME}" | "f \<in> followed" | "f = F_RAWMSG" | "f \<in> {F_MSG_OFFSET, F_AFTER_PRI_OFFSET}"
    by (cases f) auto
  then show ?thesis
  proof cases
    case 1
    then show ?thesis
      using field_number assms(1-3) by blast
  next
    case 2
    then show ?thesis
      using field_text assms(1-3) by blast
  next
    case 3
    then show ?thesis
      using field_stored assms(1-4) by blast
  next
    case 4
    then show ?thesis
      using field_prop assms by blast
  next
    case 5
    then show ?thesis
      using field_raw assms(1-4) by blast
  next
    case 6
    then show ?thesis
      using field_offset assms(1-3) by blast
  qed
qed

text \<open>The fields one after the other.\<close>

primrec fields_ok :: "(char list \<Rightarrow> 'j option) \<Rightarrow> rulesets \<Rightarrow> wire_field list \<Rightarrow> 'j wire_view \<Rightarrow> bool" where
  "fields_ok parse conf [] v = True"
| "fields_ok parse conf (x # xs) v \<longleftrightarrow> field_ok (fst x) parse conf (fst (snd x)) (snd (snd x)) v
     \<and> fields_ok parse conf xs (field_upd (fst x) parse (snd (snd x)) v)"

primrec fields_upd :: "(char list \<Rightarrow> 'j option) \<Rightarrow> wire_field list \<Rightarrow> 'j wire_view \<Rightarrow> 'j wire_view" where
  "fields_upd parse [] v = v"
| "fields_upd parse (x # xs) v = fields_upd parse xs (field_upd (fst x) parse (snd (snd x)) v)"

lemma frame_starts_zero: "\<exists>r. tlv_frame x = NUL # r"
proof -
  obtain f ty ps where x: "x = (f, ty, ps)"
    by (metis prod.collapse)
  have "drop_bit 8 (of_nat (field_num f) :: 16 word) = 0"
    using field_num_range(2) [of f] by (simp add: drop_bit_eq_div word_eq_iff_unsigned unat_of_nat flip: unat_eq_zero)
      (simp add: unat_div unat_of_nat)
  then show ?thesis
    by (simp add: x tlv_frame_def put16_def char_of_byte_def char_of_def)
qed

text \<open>
  The loop over a part of a record. A field that is stored in a property reads one byte behind
  its payload, so it needs a successor, whose first byte is zero.
\<close>

lemma decode_prefix:
  assumes "xs = don @ todo @ rest" "distinct (map fst xs)" "length (wire xs) \<le> TLV_MAX_PAYLOAD"
    "dec_views m v" "fields_ok parse conf todo v" "todo \<noteq> [] \<Longrightarrow> fst (last todo) \<in> followed \<Longrightarrow> rest \<noteq> []"
  shows "\<exists>m'. dec_views m' (fields_upd parse todo v)
    \<and> decode_loop always parse conf (map Some (wire xs)) (length (wire don)) (seen_of don) m
      = decode_loop always parse conf (map Some (wire xs)) (length (wire (don @ todo))) (seen_of (don @ todo)) m'"
  using assms
proof (induction todo arbitrary: don m v)
  case Nil
  then show ?case
    by auto
next
  case (Cons x todo)
  obtain f ty ps where x: "x = (f, ty, ps)"
    by (metis prod.collapse)
  have xs: "xs = don @ (f, ty, ps) # todo @ rest" and len: "length ps \<le> TLV_MAX_PAYLOAD" and new: "f \<notin> fst ` set don"
    using Cons.prems(1-3) by (auto simp: x)
  have "payload_at (map Some (wire xs)) (length (wire don) + TLV_HDR_LEN) ps (wire (todo @ rest))"
    using frame_read(2) [of "length (wire don)" "wire xs" f ty ps "wire (todo @ rest)"] xs
    by (simp add: payload_at_def drop_map)
  moreover have "\<exists>r. wire (todo @ rest) = NUL # r" if "f \<in> followed"
  proof -
    have "todo @ rest \<noteq> []"
      using that Cons.prems(6) by (auto simp: x)
    then show ?thesis
      using frame_starts_zero [of "hd (todo @ rest)"] by (cases "todo @ rest") auto
  qed
  ultimately obtain m1 where m1: "decode_field always parse conf (map Some (wire xs)) (field_num f) (type_num ty) 0
        (length (wire don) + TLV_HDR_LEN) (length ps) m = Some (RS_RET_OK, m1)" "dec_views m1 (field_upd f parse ps v)"
    using field_effect [OF Cons.prems(4) _ _ len, of f parse conf ty "map Some (wire xs)" "length (wire don) + TLV_HDR_LEN" "wire (todo @ rest)"]
      Cons.prems(5) by (auto simp: x)
  show ?case
    using Cons.IH [of "don @ [x]" m1 "field_upd f parse ps v"] Cons.prems m1(2) decode_step [OF xs new len m1(1)]
    by (auto simp: x split: if_splits)
qed

lemma decode_end:
  "decode_loop alloc parse conf (map Some (wire xs)) (length (wire xs)) (seen_of xs) m
    = (if {F_RAWMSG, F_MSG_OFFSET} \<subseteq> fst ` set xs then ret m else abort RS_RET_INVALID_VALUE)"
  using seen_of_required [of xs] by (subst decode_loop.simps) auto


section \<open>The record of a message\<close>

lemma int_of_word: "int8 (uint w8) = sint w8" "int16 (uint w16) = sint w16" "int32 (uint w32) = sint w32"
  for w8 :: "8 word" and w16 :: "16 word" and w32 :: "32 word"
  by (simp_all add: int8_def int16_def int32_def sint_uint)

lemma int_words:
  "0 \<le> x \<Longrightarrow> x < 2 ^ 16 \<Longrightarrow> uint (of_int x :: 16 word) = x"
  "- 128 \<le> x \<Longrightarrow> x \<le> 127 \<Longrightarrow> sint (of_int x :: 8 word) = x"
  "- 32768 \<le> x \<Longrightarrow> x \<le> 32767 \<Longrightarrow> sint (of_int x :: 16 word) = x"
  "- (2 ^ 31) \<le> x \<Longrightarrow> x < 2 ^ 31 \<Longrightarrow> sint (of_int x :: 32 word) = x"
  "- (2 ^ 63) \<le> x \<Longrightarrow> x < 2 ^ 63 \<Longrightarrow> sint (of_int x :: 64 word) = x"
  by (simp_all add: uint_word_of_int take_bit_int_eq_self sint_sbintrunc' signed_take_bit_int_eq_self)

lemma wire_words [simp]:
  "get16 (bytes_of (chars (put16 w16))) = w16" "get32 (bytes_of (chars (put32 w32))) = w32"
  "get64 (bytes_of (chars (put64 w64))) = w64"
  by (simp_all add: o_def get16_put16 get32_put32 get64_put64)

text \<open>A timestamp whose parts are in the range of their types.\<close>

definition time_fits :: "syslogTime \<Rightarrow> bool" where
  "time_fits t \<longleftrightarrow> (\<forall>x \<in> {timeType t, month t, day t, wday t, hour t, minute t, second t, secfracPrecision t,
       OffsetMinute t, OffsetHour t, inUTC t}. - 128 \<le> x \<and> x \<le> 127)
     \<and> - 32768 \<le> year t \<and> year t \<le> 32767 \<and> - (2 ^ 31) \<le> secfrac t \<and> secfrac t < 2 ^ 31"

lemma time_wire: "time_fits t \<Longrightarrow> time_of_wire (take 18 (chars (time_bytes t))) = t"
proof -
  assume fits: "time_fits t"
  define h where "h = [of_int (timeType t), of_int (month t), of_int (day t), of_int (wday t), of_int (hour t), of_int (minute t),
      of_int (second t), of_int (secfracPrecision t), of_int (OffsetMinute t), of_int (OffsetHour t),
      byte_of_char (OffsetMode t), of_int (inUTC t) :: byte]"
  have p: "bytes_of (take 18 (chars (time_bytes t))) = h @ put16 (of_int (year t)) @ put32 (of_int (secfrac t))"
    by (simp add: time_bytes_def h_def take_map o_def)
  have y: "get16 (drop 12 (h @ put16 (of_int (year t)) @ put32 (of_int (secfrac t)))) = of_int (year t)"
    by (rule get16_put16) (simp add: h_def)
  have s: "get32 (drop 14 (h @ put16 (of_int (year t)) @ put32 (of_int (secfrac t)))) = of_int (secfrac t)"
    by (rule get32_put32) (simp add: h_def)
  have o: "take 18 (chars (time_bytes t)) ! 10 = OffsetMode t"
    by (simp add: time_bytes_def)
  show ?thesis
    unfolding time_of_wire_def Let_def p y s o using fits
    by (intro syslogTime.equality) (simp_all add: h_def time_fits_def int_of_word int_words)
qed

lemma view_none:
  "v_hostname w = None \<Longrightarrow> w \<lparr> v_hostname := None \<rparr> = w" "v_struc w = None \<Longrightarrow> w \<lparr> v_struc := None \<rparr> = w"
  "v_uuid w = None \<Longrightarrow> w \<lparr> v_uuid := None \<rparr> = w" "v_app w = None \<Longrightarrow> w \<lparr> v_app := None \<rparr> = w"
  "v_proc w = None \<Longrightarrow> w \<lparr> v_proc := None \<rparr> = w" "v_msgid w = None \<Longrightarrow> w \<lparr> v_msgid := None \<rparr> = w"
  "v_ruleset w = None \<Longrightarrow> w \<lparr> v_ruleset := None \<rparr> = w" "v_json w = None \<Longrightarrow> w \<lparr> v_json := None \<rparr> = w"
  "v_localvars w = None \<Longrightarrow> w \<lparr> v_localvars := None \<rparr> = w"
  by (rule wire_view.equality; simp)+

lemma fields_opt:
  "v_hostname w = None \<Longrightarrow> fields_ok parse conf (opt_field F_HOSTNAME t @ ys) w \<longleftrightarrow> fields_ok parse conf ys (w \<lparr> v_hostname := t \<rparr>)"
  "v_struc w = None \<Longrightarrow> fields_ok parse conf (opt_field F_STRUCTURED_DATA t @ ys) w
    \<longleftrightarrow> no_nul t \<and> fields_ok parse conf ys (w \<lparr> v_struc := t \<rparr>)"
  "v_uuid w = None \<Longrightarrow> fields_ok parse conf (opt_field F_UUID t @ ys) w \<longleftrightarrow> no_nul t \<and> fields_ok parse conf ys (w \<lparr> v_uuid := t \<rparr>)"
  "v_app w = None \<Longrightarrow> fields_ok parse conf (opt_field F_APPNAME t @ ys) w
    \<longleftrightarrow> no_nul t \<and> t \<noteq> Some [] \<and> fields_ok parse conf ys (w \<lparr> v_app := t \<rparr>)"
  "v_proc w = None \<Longrightarrow> fields_ok parse conf (opt_field F_PROCID t @ ys) w
    \<longleftrightarrow> no_nul t \<and> t \<noteq> Some [] \<and> fields_ok parse conf ys (w \<lparr> v_proc := t \<rparr>)"
  "v_msgid w = None \<Longrightarrow> fields_ok parse conf (opt_field F_MSGID t @ ys) w
    \<longleftrightarrow> no_nul t \<and> t \<noteq> Some [] \<and> fields_ok parse conf ys (w \<lparr> v_msgid := t \<rparr>)"
  "v_ruleset w = None \<Longrightarrow> fields_ok parse conf (opt_field F_RULESET t @ ys) w
    \<longleftrightarrow> no_nul t \<and> t \<noteq> Some [] \<and> (\<forall>s \<in> set_option t. rulesetGetRuleset conf s = Some (RS_RET_OK, Some s))
      \<and> fields_ok parse conf ys (w \<lparr> v_ruleset := t \<rparr>)"
  by (simp_all add: opt_field_def no_nul_def text_ok_def view_none split: option.split)

lemma fields_upd_opt:
  "v_hostname w = None \<Longrightarrow> fields_upd parse (opt_field F_HOSTNAME t @ ys) w = fields_upd parse ys (w \<lparr> v_hostname := t \<rparr>)"
  "v_struc w = None \<Longrightarrow> fields_upd parse (opt_field F_STRUCTURED_DATA t @ ys) w = fields_upd parse ys (w \<lparr> v_struc := t \<rparr>)"
  "v_uuid w = None \<Longrightarrow> fields_upd parse (opt_field F_UUID t @ ys) w = fields_upd parse ys (w \<lparr> v_uuid := t \<rparr>)"
  "v_app w = None \<Longrightarrow> fields_upd parse (opt_field F_APPNAME t @ ys) w = fields_upd parse ys (w \<lparr> v_app := t \<rparr>)"
  "v_proc w = None \<Longrightarrow> fields_upd parse (opt_field F_PROCID t @ ys) w = fields_upd parse ys (w \<lparr> v_proc := t \<rparr>)"
  "v_msgid w = None \<Longrightarrow> fields_upd parse (opt_field F_MSGID t @ ys) w = fields_upd parse ys (w \<lparr> v_msgid := t \<rparr>)"
  "v_ruleset w = None \<Longrightarrow> fields_upd parse (opt_field F_RULESET t @ ys) w = fields_upd parse ys (w \<lparr> v_ruleset := t \<rparr>)"
  by (simp_all add: opt_field_def view_none split: option.split)

text \<open>A JSON value that can be printed, and that the parser gives back.\<close>

definition json_ok :: "('j \<Rightarrow> char list option) \<Rightarrow> (char list \<Rightarrow> 'j option) \<Rightarrow> 'j option \<Rightarrow> bool" where
  "json_ok print parse j \<longleftrightarrow> (\<forall>x \<in> set_option j. \<exists>s. print x = Some s \<and> NUL \<notin> set s \<and> parse s = Some x)"

lemma fields_json:
  assumes "json_ok print parse j"
  shows "v_json w = None \<Longrightarrow> fields_ok parse conf (opt_field F_JSON (Option.bind j print) @ ys) w
      \<longleftrightarrow> fields_ok parse conf ys (w \<lparr> v_json := j \<rparr>)"
    "v_json w = None \<Longrightarrow> fields_upd parse (opt_field F_JSON (Option.bind j print) @ ys) w = fields_upd parse ys (w \<lparr> v_json := j \<rparr>)"
    "v_localvars w = None \<Longrightarrow> fields_ok parse conf (opt_field F_LOCALVARS (Option.bind j print) @ ys) w
      \<longleftrightarrow> fields_ok parse conf ys (w \<lparr> v_localvars := j \<rparr>)"
    "v_localvars w = None \<Longrightarrow> fields_upd parse (opt_field F_LOCALVARS (Option.bind j print) @ ys) w
      = fields_upd parse ys (w \<lparr> v_localvars := j \<rparr>)"
proof -
  have "j = None \<or> (\<exists>x s. j = Some x \<and> print x = Some s \<and> NUL \<notin> set s \<and> parse s = Some x)"
    using assms by (cases j) (auto simp: json_ok_def)
  then show "v_json w = None \<Longrightarrow> fields_ok parse conf (opt_field F_JSON (Option.bind j print) @ ys) w
      \<longleftrightarrow> fields_ok parse conf ys (w \<lparr> v_json := j \<rparr>)"
    "v_json w = None \<Longrightarrow> fields_upd parse (opt_field F_JSON (Option.bind j print) @ ys) w = fields_upd parse ys (w \<lparr> v_json := j \<rparr>)"
    "v_localvars w = None \<Longrightarrow> fields_ok parse conf (opt_field F_LOCALVARS (Option.bind j print) @ ys) w
      \<longleftrightarrow> fields_ok parse conf ys (w \<lparr> v_localvars := j \<rparr>)"
    "v_localvars w = None \<Longrightarrow> fields_upd parse (opt_field F_LOCALVARS (Option.bind j print) @ ys) w
      = fields_upd parse ys (w \<lparr> v_localvars := j \<rparr>)"
    by (auto simp: opt_field_def text_ok_def view_none)
qed

text \<open>What the content of a message needs so that reading the record gives it back.\<close>

definition dec_ok :: "('j \<Rightarrow> char list option) \<Rightarrow> (char list \<Rightarrow> 'j option) \<Rightarrow> rulesets \<Rightarrow> 'j wire_view \<Rightarrow> bool" where
  "dec_ok print parse conf v \<longleftrightarrow> 0 \<le> v_protocol v \<and> v_protocol v \<le> 1 \<and> 0 \<le> v_severity v \<and> v_severity v < 2 ^ 16
     \<and> 0 \<le> v_facility v \<and> v_facility v < 2 ^ 16 \<and> - (2 ^ 63) \<le> v_gentime v \<and> v_gentime v < 2 ^ 63
     \<and> time_fits (v_received v) \<and> time_fits (v_timestamp v)
     \<and> text_ok (v_from v) \<and> text_ok (v_fromip v) \<and> text_ok (v_fromport v) \<and> no_nul (v_struc v)
     \<and> json_ok print parse (v_json v) \<and> json_ok print parse (v_localvars v)
     \<and> no_nul (v_app v) \<and> no_nul (v_proc v) \<and> no_nul (v_msgid v) \<and> v_ruleset v \<noteq> Some []
     \<and> (\<forall>s \<in> set_option (v_ruleset v). rulesetGetRuleset conf s = Some (RS_RET_OK, Some s))
     \<and> - 1 \<le> v_offmsg v \<and> v_offmsg v < 2 ^ 31 \<and> v_offmsg v \<le> int (length (v_raw v)) + 1
     \<and> 0 \<le> v_afterpri v \<and> v_afterpri v < 2 ^ 31
     \<and> v_afterpri v \<le> int (length (v_raw v))
     \<and> - 128 \<le> v_success v \<and> v_success v \<le> 127"

text \<open>The length of the MSG part is not in the record: it is the rest of the raw message behind the offset.\<close>

definition msg_rest :: "'j wire_view \<Rightarrow> int" where
  "msg_rest v = (if int (length (v_raw v)) < v_offmsg v then 0 else int (length (v_raw v)) - v_offmsg v)"

definition fresh_view :: "int \<Rightarrow> 'j wire_view" where
  "fresh_view u = \<lparr> v_protocol = 0, v_severity = LOG_DEBUG, v_facility = LOG_INVLD, v_flags = 0, v_gentime = u,
     v_received = zero_time, v_timestamp = zero_time, v_tag = [], v_raw = [], v_hostname = None, v_input = [], v_from = [],
     v_fromip = [], v_fromport = [], v_struc = None, v_json = None, v_localvars = None, v_app = None, v_proc = None,
     v_msgid = None, v_uuid = None, v_ruleset = None, v_offmsg = - 1, v_lenmsg = 0, v_afterpri = 0, v_success = 0 \<rparr>"

lemma base_views: "dec_views (msgBaseConstruct u) (fresh_view u)"
  by (simp add: dec_views_def views_def part_views msgBaseConstruct_def fresh_view_def tag_is_def raw_is_def host_is_def cells_of_def
      input_is_def peer_is_def prop_sz_def cstr_is_def conf_sizes)

lemma wire_fields_ok:
  assumes "enc_ok print v" "dec_ok print parse conf v"
  shows "fields_ok parse conf (wire_fields print v) (fresh_view u)"
proof -
  have j: "json_ok print parse (v_json v)" "json_ok print parse (v_localvars v)"
    using assms(2) by (simp_all add: dec_ok_def)
  show ?thesis
    using assms
    by (simp add: wire_fields_def fields_opt fields_json [OF j(1)] fields_json [OF j(2)] enc_ok_def dec_ok_def fresh_view_def
        int_words del: map_map)
qed

lemma wire_fields_upd:
  assumes "dec_ok print parse conf v"
  shows "fields_upd parse (wire_fields print v) (fresh_view u) = v \<lparr> v_lenmsg := msg_rest v \<rparr>"
proof -
  have j: "json_ok print parse (v_json v)" "json_ok print parse (v_localvars v)"
    using assms by (simp_all add: dec_ok_def)
  show ?thesis
    using assms
    by (intro wire_view.equality)
      (simp_all add: wire_fields_def fields_upd_opt fields_json [OF j(1)] fields_json [OF j(2)] dec_ok_def fresh_view_def
        int_words int_of_word time_wire msg_rest_def del: map_map)
qed

lemma distinct_wire_fields: "distinct (map fst (wire_fields print v))" "{F_RAWMSG, F_MSG_OFFSET} \<subseteq> fst ` set (wire_fields print v)"
  by (auto simp: wire_fields_def opt_field_def split: option.splits)

lemma record_read_back:
  assumes "getTAG always m = Some (v_tag v, m1)" "views m1 v" "enc_ok print v" "dec_ok print parse conf v"
  shows "\<exists>r m'. segdiskCodecEncode always cvthname print m = Some (RS_RET_OK, Some r, m1)
    \<and> segdiskCodecDecode always parse conf uninit (map Some r) = ret m' \<and> views m' (v \<lparr> v_lenmsg := msg_rest v \<rparr>)"
proof -
  let ?xs = "wire_fields print v"
  have "fst (last ?xs) \<notin> followed"
    by (simp add: wire_fields_def)
  then have "\<exists>m'. dec_views m' (v \<lparr> v_lenmsg := msg_rest v \<rparr>)
      \<and> decode_loop always parse conf (map Some (wire ?xs)) 0 0 (msgBaseConstruct uninit) = ret m'"
    using decode_prefix [of ?xs "[]" ?xs "[]" "msgBaseConstruct uninit" "fresh_view uninit" parse conf]
      distinct_wire_fields [of print v] base_views [of uninit] wire_fields_ok [OF assms(3,4)] wire_fields_upd [OF assms(4)] assms(3)
    by (simp add: enc_ok_def decode_end)
  then show ?thesis
    using encode_fields [OF assms(1-3)] by (auto simp: segdiskCodecDecode_def msgConstructForDeserializer_def dec_views_def)
qed

lemma views_msg:
  assumes "views m (v \<lparr> v_lenmsg := msg_rest v \<rparr>)" "0 \<le> v_offmsg v" "v_offmsg v \<le> int (length (v_raw v)) + 1"
  shows "getMSG m = Some (drop (nat (v_offmsg v)) (v_raw v))"
proof -
  have m: "raw_ok m (v_raw v)" "offMSG m = v_offmsg v" "iLenMSG m = msg_rest v"
    using assms(1) by (simp_all add: views_def)
  then have "part_ok m"
    using assms(2,3) by (auto simp: part_ok_def raw_ok_def msg_rest_def)
  then show ?thesis
    using getMSG_ok [OF m(1)] m(2,3) assms(2) by (auto simp: msg_rest_def)
qed

text \<open>
  C3: A message that is written to the disk queue is read back. For a message whose peer is resolved, whose parts
  fit their types, whose MSG offset is at most one past the raw message and whose JSON values the JSON library
  prints and parses back, encoding succeeds and leaves
  only the tag cached in the message; decoding the record gives a new message that shows the
  same numbers, flags, timestamps, texts, offsets and JSON values, with the raw message terminated inside its
  buffer. The length of MSG is not in the record: the reader takes the rest of the raw message behind the MSG
  offset. So MSG is read back as that rest, and the new message shows exactly the content of the stored one
  if and only if the MSG of the stored one reached to the end of its raw message. For a message that
  was not parsed yet, whose offset is -1, the new length is one more than the length of the raw message.
\<close>

theorem record_roundtrip:
  assumes "getTAG always m = Some (v_tag v, m1)" "views m1 v" "enc_ok print v" "dec_ok print parse conf v"
  shows "\<exists>r m'. segdiskCodecEncode always cvthname print m = Some (RS_RET_OK, Some r, m1)
    \<and> segdiskCodecDecode always parse conf uninit (map Some r) = ret m' \<and> views m' (v \<lparr> v_lenmsg := msg_rest v \<rparr>)
    \<and> (views m' v \<longleftrightarrow> iLenMSG m1 = msg_rest v)
    \<and> (0 \<le> v_offmsg v \<longrightarrow> getMSG m' = Some (drop (nat (v_offmsg v)) (v_raw v)))
    \<and> (v_offmsg v = - 1 \<longrightarrow> iLenMSG m' = int (length (v_raw v)) + 1)"
proof -
  obtain r m' where r: "segdiskCodecEncode always cvthname print m = Some (RS_RET_OK, Some r, m1)"
      "segdiskCodecDecode always parse conf uninit (map Some r) = ret m'" and v: "views m' (v \<lparr> v_lenmsg := msg_rest v \<rparr>)"
    using record_read_back [OF assms] by blast
  have len: "iLenMSG m' = msg_rest v" "iLenMSG m1 = v_lenmsg v"
    using v assms(2) by (simp_all add: views_def)
  then have "views m' v \<longleftrightarrow> v_lenmsg v = msg_rest v"
    using v by (auto simp: views_def)
  moreover have "getMSG m' = Some (drop (nat (v_offmsg v)) (v_raw v))" if "0 \<le> v_offmsg v"
    using views_msg [OF v that] assms(4) by (simp add: dec_ok_def)
  ultimately show ?thesis
    using r v len by (auto simp: msg_rest_def)
qed

lemma prop_overread: "CreateStringProp always (map Some ps) (int (length ps)) = None"
proof -
  have "buf_read (map Some ps) 0 (length ps + 1) = None"
    by (simp add: buf_read_def)
  then show ?thesis
    by (auto simp: CreateStringProp_def propConstruct_def SetString_def union_ptr_null_def nat_add_distrib)
qed

lemma fields_ok_append: "fields_ok parse conf (xs @ ys) v \<longleftrightarrow> fields_ok parse conf xs v \<and> fields_ok parse conf ys (fields_upd parse xs v)"
  by (induction xs arbitrary: v) auto

lemma field_overread:
  assumes "f \<in> followed" "drop pos b = map Some ps"
  shows "decode_field always parse conf b (field_num f) (type_num TLV_BYTES) 0 pos (length ps) m = None"
  using assms prop_overread [of ps]
  by (auto simp: field_defs MsgSetInputNameStr_def MsgSetRcvFromText_def MsgSetRcvFromIPText_def MsgSetRcvFromPortText_def
      CreateOrReuseStringProp_def)

text \<open>
  C35: The property setters copy one byte more than they are told. A record that ends with the input name, or with
  one of the three fields on the peer, is read behind its end: the decoder relies on a
  further field, whose first byte is zero and ends the text.
\<close>

theorem decode_reads_past_record:
  assumes "enc_ok print v" "dec_ok print parse conf v" "wire_fields print v = don @ x # rest" "fst x \<in> {F_INPUTNAME, F_RCVFROM, F_RCVFROMIP, F_RCVFROMPORT}"
  shows "segdiskCodecDecode always parse conf uninit (map Some (wire (don @ [x]))) = None"
proof -
  obtain f ty ps where x: "x = (f, ty, ps)"
    by (metis prod.collapse)
  let ?xs = "don @ [x]" and ?m = "msgBaseConstruct uninit"
  have ok: "fields_ok parse conf don (fresh_view uninit)" "field_ok f parse conf ty ps (fields_upd parse don (fresh_view uninit))"
    using wire_fields_ok [OF assms(1,2), of uninit] by (simp_all add: assms(3) fields_ok_append x)
  have f: "f \<in> followed" and ty: "ty = TLV_BYTES"
    using assms(4) ok(2) by (auto simp: x)
  have d: "distinct (map fst ?xs)" and l: "length (wire ?xs) \<le> TLV_MAX_PAYLOAD"
    using distinct_wire_fields(1) [of print v] assms(1) by (simp_all add: assms(3) enc_ok_def)
  obtain m' where m': "decode_loop always parse conf (map Some (wire ?xs)) 0 0 ?m
      = decode_loop always parse conf (map Some (wire ?xs)) (length (wire don)) (seen_of don) m'"
    using decode_prefix [of ?xs "[]" don "[x]" ?m "fresh_view uninit" parse conf] d l base_views ok(1) by auto
  have "drop (length (wire don) + TLV_HDR_LEN) (map Some (wire ?xs)) = map Some ps"
    using frame_read(2) [of "length (wire don)" "wire ?xs" f ty ps "[]"] by (simp add: x drop_map)
  then have "decode_field always parse conf (map Some (wire ?xs)) (field_num f) (type_num ty) 0
      (length (wire don) + TLV_HDR_LEN) (length ps) m' = None"
    unfolding ty using field_overread [OF f] by blast
  then have "decode_loop always parse conf (map Some (wire ?xs)) (length (wire don)) (seen_of don) m' = None"
    using decode_next [of ?xs don f ty ps "[]" always parse conf m'] d l by (simp add: x)
  then show ?thesis
    using m' by (simp add: segdiskCodecDecode_def msgConstructForDeserializer_def)
qed

section \<open>What the decoder accepts\<close>

text \<open>The number and the length in the header of a field, known or not.\<close>

definition frame_num :: "char list \<Rightarrow> nat" where
  "frame_num h = unat (get16 (bytes_of h))"

definition frame_len :: "char list \<Rightarrow> nat" where
  "frame_len h = unat (get32 (drop 4 (bytes_of h)))"

text \<open>A buffer that is a sequence of complete fields.\<close>

definition framed :: "buf \<Rightarrow> (char list \<times> buf) list \<Rightarrow> bool" where
  "framed b fs \<longleftrightarrow> b = concat (map (\<lambda>(h, p). map Some h @ p) fs)
     \<and> (\<forall>(h, p) \<in> set fs. length h = TLV_HDR_LEN \<and> frame_len h = length p \<and> length p \<le> TLV_MAX_PAYLOAD)"

definition frame_nums :: "(char list \<times> buf) list \<Rightarrow> nat list" where
  "frame_nums fs = map (\<lambda>(h, p). frame_num h) fs"

abbreviation known_num :: "nat \<Rightarrow> bool" where
  "known_num n \<equiv> 1 \<le> n \<and> n \<le> 31"

lemma bit_mask32: "known_num n \<Longrightarrow> bit (push_bit (n - 1) 1 :: 32 word) k \<longleftrightarrow> k = n - 1"
  by (auto simp: bit_simps)

lemma bit_required: "bit required_fields 8" "bit required_fields 22"
  by (simp_all add: required_fields_def)

lemma mask_unseen:
  assumes "known_num n" "seen AND push_bit (n - 1) 1 = (0 :: 32 word)"
  shows "\<not> bit seen (n - 1)"
proof
  assume "bit seen (n - 1)"
  then have "bit (seen AND push_bit (n - 1) 1) (n - 1)"
    using bit_mask32 [OF assms(1)] by (simp add: bit_and_iff)
  then show False
    unfolding assms(2) by simp
qed

lemma decode_loop_framed:
  assumes "decode_loop alloc parse conf b pos seen m = ret m'" "pos \<le> length b"
  shows "\<exists>fs. framed (drop pos b) fs \<and> distinct (filter known_num (frame_nums fs))
    \<and> (\<forall>n \<in> set (frame_nums fs). known_num n \<longrightarrow> \<not> bit seen (n - 1))
    \<and> (\<forall>n \<in> {9, 23}. bit seen (n - 1) \<or> n \<in> set (frame_nums fs))"
  using assms
proof (induction "length b - pos" arbitrary: pos seen m rule: less_induct)
  case less
  show ?case
  proof (cases "length b \<le> pos")
    case True
    then have "seen AND required_fields = required_fields"
      using less.prems(1) by (subst (asm) decode_loop.simps) (auto split: if_splits)
    then have "bit (seen AND required_fields) 8" "bit (seen AND required_fields) 22"
      by (simp_all add: bit_required)
    then have "bit seen 8" "bit seen 22"
      by (simp_all add: bit_and_iff)
    then show ?thesis
      using True by (intro exI [of _ "[]"]) (simp add: framed_def frame_nums_def)
  next
    case False
    note eq = less.prems(1) [unfolded decode_loop.simps [of _ _ _ b pos]]
    obtain h where h: "buf_read b pos TLV_HDR_LEN = Some h" and room: "TLV_HDR_LEN \<le> length b - pos"
      using eq False by (auto split: if_splits bind_splits)
    let ?n = "frame_num h" and ?l = "frame_len h" and ?q = "pos + TLV_HDR_LEN"
    define mask where "mask = (if known_num ?n then push_bit (?n - 1) 1 else (0 :: 32 word))"
    have fits: "?l \<le> TLV_MAX_PAYLOAD" "?l \<le> length b - ?q" and fresh: "seen AND mask = 0"
      using eq False room h by (auto simp: Let_def frame_num_def frame_len_def mask_def split: if_splits)
    obtain m1 where m1: "decode_field alloc parse conf b ?n (bytes_of h ! 2) (bytes_of h ! 3) ?q ?l m = Some (RS_RET_OK, m1)"
      "decode_loop alloc parse conf b (?q + ?l) (seen OR mask) m1 = ret m'"
      using eq False room h fits fresh
      by (auto simp: Let_def frame_num_def frame_len_def mask_def split: if_splits bind_splits)
    have q: "?q + ?l \<le> length b"
      using fits(2) room False unfolding TLV_HDR_LEN_def by linarith
    moreover have "length b - (?q + ?l) < length b - pos"
      using False by (simp add: TLV_HDR_LEN_def)
    ultimately obtain fs where fs: "framed (drop (?q + ?l) b) fs" "distinct (filter known_num (frame_nums fs))"
      "\<forall>n \<in> set (frame_nums fs). known_num n \<longrightarrow> \<not> bit (seen OR mask) (n - 1)"
      "\<forall>n \<in> {9, 23}. bit (seen OR mask) (n - 1) \<or> n \<in> set (frame_nums fs)"
      using less.hyps [OF _ m1(2)] by blast
    define p where "p = take ?l (drop ?q b)"
    have "drop pos b = map Some h @ drop ?q b"
      using h append_take_drop_id [of TLV_HDR_LEN "drop pos b"] by (simp add: buf_read_Some_iff add.commute)
    also have "drop ?q b = p @ drop (?q + ?l) b"
      using append_take_drop_id [of ?l "drop ?q b"] by (simp add: p_def add.commute)
    finally have "framed (drop pos b) ((h, p) # fs)"
      using fs(1) buf_read_length [OF h] fits q by (auto simp: framed_def p_def)
    moreover have nums: "frame_nums ((h, p) # fs) = ?n # frame_nums fs"
      by (simp add: frame_nums_def)
    moreover have mask: "bit mask k \<longleftrightarrow> known_num ?n \<and> k = ?n - 1" for k
      using bit_mask32 [of ?n k] by (auto simp: mask_def)
    then have "distinct (filter known_num (?n # frame_nums fs))"
      using fs(2,3) by (auto simp: bit_or_iff)
    moreover have "\<not> bit seen (?n - 1)" if "known_num ?n"
      using mask_unseen [OF that] fresh that by (simp add: mask_def)
    then have "\<forall>n \<in> set (?n # frame_nums fs). known_num n \<longrightarrow> \<not> bit seen (n - 1)"
      using fs(3) by (auto simp: bit_or_iff)
    moreover have "\<forall>n \<in> {9, 23}. bit seen (n - 1) \<or> n \<in> set (?n # frame_nums fs)"
      using fs(4) mask by (auto simp: bit_or_iff)
    ultimately show ?thesis
      by (metis (no_types, lifting))
  qed
qed

text \<open>
  C34: The decoder accepts nothing but well-formed records. When it returns a message, the buffer is a sequence
  of complete fields, none cut off and none with a payload over the limit, no field with a
  number from 1 to 31 occurs twice, and the raw message and the MSG offset are among them.
\<close>

theorem decode_accepts_records:
  assumes "segdiskCodecDecode alloc parse conf uninit b = ret m"
  shows "\<exists>fs. framed b fs \<and> distinct (filter (\<lambda>n. 1 \<le> n \<and> n \<le> 31) (frame_nums fs))
    \<and> {field_num F_RAWMSG, field_num F_MSG_OFFSET} \<subseteq> set (frame_nums fs)"
proof -
  have "decode_loop alloc parse conf b 0 0 (msgBaseConstruct uninit) = ret m"
    using assms by (simp add: segdiskCodecDecode_def msgConstructForDeserializer_def split: if_splits)
  from decode_loop_framed [OF this] show ?thesis
    by auto
qed

section \<open>A record\<close>

definition demo_stored :: "unit smsg" where
  "demo_stored = demo_msg \<lparr> offMSG := 14, iLenMSG := 5, json := Some () \<rparr>"

definition demo_view :: "unit wire_view" where
  "demo_view = (fresh_view 0) \<lparr> v_raw := ''<13>host tag: hello'', v_offmsg := 14, v_lenmsg := 5, v_json := Some () \<rparr>"

definition demo_print :: "unit \<Rightarrow> char list option" where
  "demo_print x = Some ''{}''"

definition demo_parse :: "char list \<Rightarrow> unit option" where
  "demo_parse s = (if s = ''{}'' then Some () else None)"

definition demo_rulesets :: rulesets where
  "demo_rulesets = (\<lambda>a. None, llInit)"

definition demo_lookup :: "sockaddr \<Rightarrow> bool \<Rightarrow> rsRetVal \<times> prop_s \<times> prop_s" where
  "demo_lookup sa keep = (RS_RET_ERR, \<lparr> szVal = UnionNull, prop_len = 0 \<rparr>, \<lparr> szVal = UnionNull, prop_len = 0 \<rparr>)"

lemma demo_views: "views demo_stored demo_view"
proof -
  let ?b = "msgBaseConstruct 0 :: unit smsg"
  have "length (szRawMsg ?b) = 101" "iLenRawMsg ?b = 0" "iLenMSG ?b = 0"
    by (simp_all add: msgBaseConstruct_def conf_sizes)
  then have "\<exists>m'. MsgSetRawMsg always ?b ''<13>host tag: hello'' = Some m'"
    using set_raw_ok [of ?b "''<13>host tag: hello''" always] by auto
  then have "MsgSetRawMsg always (msgBaseConstruct 0) ''<13>host tag: hello'' = Some demo_msg"
    by (auto simp: demo_msg_def)
  then obtain p n b k where e: "demo_msg = msgBaseConstruct 0 \<lparr> pszRawMsg := p, iLenRawMsg := n, szRawMsg := b, iLenMSG := k \<rparr>"
    using set_raw_frame by blast
  have "raw_is p b n ''<13>host tag: hello''"
    using demo_msg_ok(1) by (simp add: raw_view e)
  moreover have "dec_views ?b (fresh_view 0)"
    by (rule base_views)
  ultimately show ?thesis
    unfolding dec_views_def views_def part_views demo_stored_def demo_view_def e by simp
qed

lemma demo_ok: "enc_ok demo_print demo_view" "dec_ok demo_print demo_parse demo_rulesets demo_view"
proof -
  show "enc_ok demo_print demo_view"
    by (simp add: enc_ok_def demo_view_def demo_print_def fresh_view_def printable_def no_nul_def wire_fields_def opt_field_def
        TLV_MAX_PAYLOAD_def TLV_HDR_LEN_def)
  show "dec_ok demo_print demo_parse demo_rulesets demo_view"
    by (simp add: dec_ok_def demo_view_def demo_print_def demo_parse_def fresh_view_def no_nul_def text_ok_def json_ok_def
        time_fits_def zero_time_def invld_values)
qed

lemma demo_tag: "getTAG always demo_stored = Some (v_tag demo_view, demo_stored)"
  using demo_views by (simp add: getTAG_def tryEmulateTAG_def views_def demo_view_def fresh_view_def)

theorem record_roundtrip_witness:
  "\<exists>r m'. segdiskCodecEncode (\<lambda>n. True) demo_lookup demo_print demo_stored = Some (RS_RET_OK, Some r, demo_stored)
     \<and> segdiskCodecDecode (\<lambda>n. True) demo_parse demo_rulesets 0 (map Some r) = ret m'
     \<and> getRawMsg m' = Some ''<13>host tag: hello'' \<and> getMSG m' = Some ''hello'' \<and> views m' demo_view \<and> json m' = Some ()"
proof -
  obtain r m' where "segdiskCodecEncode always demo_lookup demo_print demo_stored = Some (RS_RET_OK, Some r, demo_stored)"
      "segdiskCodecDecode always demo_parse demo_rulesets 0 (map Some r) = ret m'" "views m' demo_view"
      "getMSG m' = Some (drop (nat (v_offmsg demo_view)) (v_raw demo_view))"
  proof -
    have "iLenMSG demo_stored = msg_rest demo_view" "0 \<le> v_offmsg demo_view"
      by (simp_all add: demo_stored_def demo_view_def msg_rest_def)
    then show thesis
      using that record_roundtrip [OF demo_tag demo_views demo_ok, of demo_lookup 0] by blast
  qed
  then show ?thesis
    using getRawMsg_ok [of m' "''<13>host tag: hello''"] by (auto simp: views_def demo_view_def)
qed

theorem decode_reads_past_record_witness:
  "segdiskCodecDecode (\<lambda>n. True) demo_parse demo_rulesets 0
     (map Some (wire (take 10 (wire_fields demo_print demo_view)))) = None
   \<and> map fst (drop 9 (take 10 (wire_fields demo_print demo_view))) = [F_INPUTNAME]"
proof -
  let ?xs = "wire_fields demo_print demo_view"
  have x: "?xs = take 9 ?xs @ (F_INPUTNAME, TLV_BYTES, []) # drop 10 ?xs" "take 10 ?xs = take 9 ?xs @ [(F_INPUTNAME, TLV_BYTES, [])]"
    by (simp_all add: wire_fields_def demo_view_def fresh_view_def opt_field_def)
  have "segdiskCodecDecode always demo_parse demo_rulesets 0 (map Some (wire (take 9 ?xs @ [(F_INPUTNAME, TLV_BYTES, [])]))) = None"
    by (rule decode_reads_past_record [OF demo_ok x(1)]) simp
  then show ?thesis
    unfolding x(2) by (simp add: wire_fields_def demo_view_def fresh_view_def opt_field_def)
qed

theorem decode_accepts_records_witness:
  "\<exists>r m fs. segdiskCodecDecode (\<lambda>n. True) demo_parse demo_rulesets 0 (map Some r) = ret m \<and> framed (map Some r) fs
     \<and> {field_num F_RAWMSG, field_num F_MSG_OFFSET} \<subseteq> set (frame_nums fs)"
proof -
  obtain r m where "segdiskCodecDecode always demo_parse demo_rulesets 0 (map Some r) = ret m"
    using record_read_back [OF demo_tag demo_views demo_ok, of demo_lookup 0] by blast
  then show ?thesis
    using decode_accepts_records [of always demo_parse demo_rulesets 0 "map Some r" m] by blast
qed

end
