(* ===== verification/Tcps_Sess.thy ===== *)
theory Tcps_Sess
imports Msg
begin

text \<open>
  A session of the TCP server, \<^verbatim>\<open>runtime/tcps_sess.c\<close>: the state machine that cuts the bytes
  received into messages, by a line feed or by a byte count in front of the message, and
  hands each to the core. A byte is processed together with the byte behind it in the same
  read, which the code looks at for messages of several lines.
\<close>

unbundle bit_operations_syntax

section \<open>State\<close>

datatype tcps_state = eAtStrtFram | eInOctetCnt | eInMsg | eInMsgTruncating | eInMsgCheckMultiLine

datatype TCPFRAMINGMODE = TCP_FRAMING_OCTET_STUFFING | TCP_FRAMING_OCTET_COUNTING

definition TCPSRV_NO_ADDTL_DELIMITER :: int where "TCPSRV_NO_ADDTL_DELIMITER = - 1"

definition NEEDS_PARSING :: "32 word" where "NEEDS_PARSING = 0x010"
definition PARSE_HOSTNAME :: "32 word" where "PARSE_HOSTNAME = 0x020"
definition NO_LEGACY_Z_DECOMPRESS :: "32 word" where "NO_LEGACY_Z_DECOMPRESS = 0x400"

text \<open>
  The settings of the server and of the listener that a session uses. The regular expression
  is the predicate on the text it is matched against.
\<close>

record tcps_cfg =
  bDisableLFDelim :: bool
  addtlFrameDelim :: int
  discardTruncatedMsg :: bool
  maxFrameSize :: int
  bMultiLine :: bool
  bHasStartRegex :: bool
  start_preg :: "char list \<Rightarrow> bool"
  pszOrigin :: "char list option"
  iDrvrMode :: int
  cnf_pInputName :: "prop_s option"
  cnf_pRuleset :: "char list option"

record tcps_sess =
  iMsg :: int
  bSuppOctetFram :: bool
  bSPFramingFix :: bool
  inputState :: tcps_state
  bFrameOversize :: bool
  iOctetsRemain :: int
  eFraming :: TCPFRAMINGMODE
  pMsg :: buf
  fromHost :: "prop_s option"
  fromHostIP :: "prop_s option"
  fromHostPort :: "prop_s option"
  iCurrLine :: int
  pMsg_save :: "buf option"
  iMaxLine :: int
  tlsProbeBytes :: nat
  tlsProbeBuf :: buf
  tlsProbeDone :: bool
  tlsMismatchWarned :: bool
  streamDecompressed :: bool

section \<open>Construction\<close>

definition tcps_sessConstruct :: "(nat \<Rightarrow> bool) \<Rightarrow> int \<Rightarrow> rsRetVal \<times> tcps_sess option" where
  "tcps_sessConstruct alloc maxLine =
     (if alloc (nat maxLine + 1)
      then (RS_RET_OK, Some
        \<lparr> iMsg = 0, bSuppOctetFram = False, bSPFramingFix = False, inputState = eAtStrtFram, bFrameOversize = False,
          iOctetsRemain = 0, eFraming = TCP_FRAMING_OCTET_STUFFING, pMsg = buf_new (nat maxLine + 1), fromHost = None,
          fromHostIP = None, fromHostPort = None, iCurrLine = 0, pMsg_save = None, iMaxLine = maxLine,
          tlsProbeBytes = 0, tlsProbeBuf = replicate 5 (Some NUL), tlsProbeDone = False, tlsMismatchWarned = False,
          streamDecompressed = False \<rparr>)
      else (RS_RET_OUT_OF_MEMORY, None))"

text \<open>
  The second buffer and the larger first one for framing by a regular expression: whether the
  reallocation and the allocation succeed are two questions, although they ask for the same
  size. The callback of the server is a parameter, \<^const>\<open>None\<close> if there is none, with its result.
\<close>

definition tcps_sessConstructFinalize ::
    "(nat \<Rightarrow> bool) \<Rightarrow> (nat \<Rightarrow> bool) \<Rightarrow> rsRetVal option \<Rightarrow> tcps_cfg \<Rightarrow> tcps_sess \<Rightarrow> rsRetVal \<times> tcps_sess" where
  "tcps_sessConstructFinalize realloc_ok alloc OnSessConstructFinalize cfg s =
     (let final = (\<lambda>s. case OnSessConstructFinalize of None \<Rightarrow> (RS_RET_OK, s) | Some r \<Rightarrow> (r, s)) in
      if bHasStartRegex cfg
      then if (2 ^ 31 - 1 - 1) div 2 < iMaxLine s then (RS_RET_ERR, s)
        else let regexBufSize = nat (iMaxLine s) * 2 + 1 in
          if \<not> realloc_ok regexBufSize then (RS_RET_OUT_OF_MEMORY, s)
          else let s = s \<lparr> pMsg := buf_realloc (pMsg s) regexBufSize \<rparr> in
            if \<not> alloc regexBufSize then (RS_RET_OUT_OF_MEMORY, s)
            else final (s \<lparr> pMsg_save := Some (buf_new regexBufSize) \<rparr>)
      else final s)"

definition SetLstnInfo :: "tcps_sess \<Rightarrow> bool \<Rightarrow> bool \<Rightarrow> tcps_sess" where
  "SetLstnInfo s suppOctetFram spFramingFix = s \<lparr> bSuppOctetFram := suppOctetFram, bSPFramingFix := spFramingFix \<rparr>"

definition SetMsgIdx :: "tcps_sess \<Rightarrow> int \<Rightarrow> tcps_sess" where
  "SetMsgIdx s idx = s \<lparr> iMsg := idx \<rparr>"

section \<open>Detection of a TLS client\<close>

definition isLikelyTlsClientHello :: "char list \<Rightarrow> bool" where
  "isLikelyTlsClientHello b \<longleftrightarrow> of_char (b ! 0) = (0x16 :: nat) \<and> of_char (b ! 1) = (0x03 :: nat)
     \<and> of_char (b ! 2) \<le> (0x04 :: nat)
     \<and> (let recordLen = of_char (b ! 3) * 256 + of_char (b ! 4) in 40 \<le> recordLen \<and> recordLen \<le> (16384 :: nat))"

fun tls_probe :: "tcps_sess \<Rightarrow> char list \<Rightarrow> tcps_sess option" where
  "tls_probe s [] = Some s"
| "tls_probe s (c # cs) =
     (if tlsProbeBytes s < 5
      then do {
        b \<leftarrow> buf_put (tlsProbeBuf s) (tlsProbeBytes s) c;
        tls_probe (s \<lparr> tlsProbeBuf := b, tlsProbeBytes := tlsProbeBytes s + 1 \<rparr>) cs }
      else Some s)"

definition maybeDetectTlsClientHello :: "tcps_cfg \<Rightarrow> tcps_sess \<Rightarrow> char list \<Rightarrow> (rsRetVal \<times> tcps_sess) option" where
  "maybeDetectTlsClientHello cfg s dat =
     (if tlsProbeDone s then Some (RS_RET_OK, s)
      else if pszOrigin cfg \<noteq> Some ''imtcp'' then Some (RS_RET_OK, s \<lparr> tlsProbeDone := True \<rparr>)
      else if iDrvrMode cfg \<noteq> 0 then Some (RS_RET_OK, s \<lparr> tlsProbeDone := True \<rparr>)
      else do {
        s \<leftarrow> tls_probe s dat;
        if 5 \<le> tlsProbeBytes s
        then do {
          b \<leftarrow> buf_read (tlsProbeBuf s) 0 5;
          if \<not> tlsMismatchWarned s \<and> isLikelyTlsClientHello b
          then Some (RS_RET_SERVER_NO_TLS, s \<lparr> tlsMismatchWarned := True \<rparr>)
          else Some (RS_RET_OK, s \<lparr> tlsProbeDone := True \<rparr>) }
        else Some (RS_RET_OK, s) })"

section \<open>Submission\<close>

text \<open>
  The message object for the text received. A message that cannot be allocated is lost; in any
  case the session is ready for the next text. Time zone and flow control of the message, the
  log entry for an oversize message and the rate limiter are outside the model: the result is
  the message handed to the rate limiter.
\<close>

definition defaultDoSubmitMessage ::
    "(nat \<Rightarrow> bool) \<Rightarrow> tcps_cfg \<Rightarrow> syslogTime \<Rightarrow> int \<Rightarrow> tcps_sess \<Rightarrow> (tcps_sess \<times> 'j smsg list) option" where
  "defaultDoSubmitMessage alloc cfg stTime genTime s =
     (let done = (\<lambda>ms. Some (s \<lparr> iMsg := 0, bFrameOversize := False \<rparr>, ms)) in
      if iMsg s = 0 then done []
      else case msgConstructWithTime alloc stTime genTime of
        (r, None) \<Rightarrow> done []
      | (r, Some m) \<Rightarrow> do {
          raw \<leftarrow> (if iMsg s < 0 then None else buf_read (pMsg s) 0 (nat (iMsg s)));
          m \<leftarrow> MsgSetRawMsg alloc m raw;
          let m = m \<lparr> pInputName := cnf_pInputName cfg,
            msgFlags := NEEDS_PARSING OR PARSE_HOSTNAME OR (if streamDecompressed s then NO_LEGACY_Z_DECOMPRESS else 0) \<rparr>;
          m \<leftarrow> MsgSetRcvFromWithoutAddRef m (fromHost s);
          done [m \<lparr> pRcvFromIP := fromHostIP s, pRcvFromPort := fromHostPort s, pRuleset := cnf_pRuleset cfg \<rparr>] })"

section \<open>Framing\<close>

definition sess_store :: "tcps_sess \<Rightarrow> char \<Rightarrow> tcps_sess option" where
  "sess_store s c = (if iMsg s < 0 then None
     else do { b \<leftarrow> buf_put (pMsg s) (nat (iMsg s)) c; Some (s \<lparr> pMsg := b, iMsg := iMsg s + 1 \<rparr>) })"

definition is_delim :: "tcps_cfg \<Rightarrow> char \<Rightarrow> bool" where
  "is_delim cfg c \<longleftrightarrow> c = CHR 0x0A \<and> \<not> bDisableLFDelim cfg
     \<or> addtlFrameDelim cfg \<noteq> TCPSRV_NO_ADDTL_DELIMITER \<and> int8 (of_char c) = addtlFrameDelim cfg"

definition sess_submit ::
    "(nat \<Rightarrow> bool) \<Rightarrow> tcps_cfg \<Rightarrow> syslogTime \<Rightarrow> int \<Rightarrow> tcps_sess \<Rightarrow> tcps_state \<Rightarrow> (tcps_sess \<times> 'j smsg list) option" where
  "sess_submit alloc cfg stTime genTime s st = do {
     (s, ms) \<leftarrow> defaultDoSubmitMessage alloc cfg stTime genTime s; Some (s \<lparr> inputState := st \<rparr>, ms) }"

text \<open>The first byte of a frame decides on the framing.\<close>

definition sess_start :: "tcps_sess \<Rightarrow> char \<Rightarrow> tcps_sess" where
  "sess_start s c =
     (if isdigit c \<and> bSuppOctetFram s
      then s \<lparr> inputState := eInOctetCnt, bFrameOversize := False, iOctetsRemain := 0, eFraming := TCP_FRAMING_OCTET_COUNTING \<rparr>
      else s \<lparr> inputState := eInMsg, bFrameOversize := False, eFraming := TCP_FRAMING_OCTET_STUFFING \<rparr>)"

text \<open>The end of a counted frame is reached when its last byte has been processed.\<close>

definition sess_octet_end ::
    "(nat \<Rightarrow> bool) \<Rightarrow> tcps_cfg \<Rightarrow> syslogTime \<Rightarrow> int \<Rightarrow> tcps_sess \<Rightarrow> (tcps_sess \<times> 'j smsg list) option" where
  "sess_octet_end alloc cfg stTime genTime s =
     (if eFraming s = TCP_FRAMING_OCTET_COUNTING
      then let s = s \<lparr> iOctetsRemain := iOctetsRemain s - 1 \<rparr> in
        if iOctetsRemain s < 1 then sess_submit alloc cfg stTime genTime s eAtStrtFram else Some (s, [])
      else Some (s, []))"

text \<open>A byte inside a message; \<^verbatim>\<open>nxt\<close> is the byte behind it in the buffer, if there is one.\<close>

definition sess_in_msg ::
    "(nat \<Rightarrow> bool) \<Rightarrow> tcps_cfg \<Rightarrow> syslogTime \<Rightarrow> int \<Rightarrow> tcps_sess \<Rightarrow> char \<Rightarrow> char option \<Rightarrow> (tcps_sess \<times> 'j smsg list) option" where
  "sess_in_msg alloc cfg stTime genTime s c nxt =
     (if is_delim cfg c \<and> eFraming s = TCP_FRAMING_OCTET_STUFFING
      then if bMultiLine cfg
        then (case nxt of
                Some d \<Rightarrow>
                  if d = CHR ''<'' then sess_submit alloc cfg stTime genTime s eAtStrtFram
                  else if iMsg s < iMaxLine s then do { s \<leftarrow> sess_store s c; Some (s, []) } else Some (s, [])
              | None \<Rightarrow> Some (s \<lparr> inputState := eInMsgCheckMultiLine \<rparr>, []))
        else sess_submit alloc cfg stTime genTime s eAtStrtFram
      else if iMsg s < iMaxLine s
      then do { s \<leftarrow> sess_store s c; sess_octet_end alloc cfg stTime genTime s }
      else do {
        (s, ms) \<leftarrow> defaultDoSubmitMessage alloc cfg stTime genTime (s \<lparr> bFrameOversize := True \<rparr>);
        if discardTruncatedMsg cfg
        then if eFraming s = TCP_FRAMING_OCTET_COUNTING
          then let s = s \<lparr> iOctetsRemain := iOctetsRemain s - 1 \<rparr> in
            if iOctetsRemain s = 0 then Some (s \<lparr> inputState := eAtStrtFram \<rparr>, ms)
            else Some (s \<lparr> inputState := eInMsgTruncating \<rparr>, ms)
          else Some (s \<lparr> inputState := eInMsgTruncating \<rparr>, ms)
        else do { (s, ms') \<leftarrow> sess_octet_end alloc cfg stTime genTime s; Some (s, ms @ ms') } })"

definition sess_truncating :: "tcps_cfg \<Rightarrow> tcps_sess \<Rightarrow> char \<Rightarrow> tcps_sess" where
  "sess_truncating cfg s c =
     (if eFraming s = TCP_FRAMING_OCTET_COUNTING
      then let s = s \<lparr> iOctetsRemain := iOctetsRemain s - 1 \<rparr> in
        if iOctetsRemain s < 1 then s \<lparr> inputState := eAtStrtFram \<rparr> else s
      else if is_delim cfg c then s \<lparr> inputState := eAtStrtFram \<rparr> else s)"

text \<open>A byte of the octet count; the digits are kept in the message as well.\<close>

definition sess_octet_cnt :: "tcps_cfg \<Rightarrow> tcps_sess \<Rightarrow> char \<Rightarrow> tcps_sess option" where
  "sess_octet_cnt cfg s c =
     (if isdigit c
      then do {
        s \<leftarrow> (if iOctetsRemain s \<le> 200000000
              then do { v \<leftarrow> ck_int (iOctetsRemain s * 10); w \<leftarrow> ck_int (v + int (of_char c)); Some (s \<lparr> iOctetsRemain := w - 48 \<rparr>) }
              else Some s);
        if iMsg s < iMaxLine s then sess_store s c else Some s }
      else
        let s = (if iOctetsRemain s < 1 then s \<lparr> eFraming := TCP_FRAMING_OCTET_STUFFING \<rparr>
                 else if iMaxLine s < iOctetsRemain s then s \<lparr> bFrameOversize := True \<rparr> else s);
            s = (if maxFrameSize cfg < iOctetsRemain s then s \<lparr> eFraming := TCP_FRAMING_OCTET_STUFFING \<rparr>
                 else s \<lparr> iMsg := 0 \<rparr>)
        in Some (s \<lparr> inputState := eInMsg \<rparr>))"

text \<open>Framing by a regular expression that matches the start of a message.\<close>

definition regex_full ::
    "(nat \<Rightarrow> bool) \<Rightarrow> tcps_cfg \<Rightarrow> syslogTime \<Rightarrow> int \<Rightarrow> tcps_sess \<Rightarrow> (tcps_sess \<times> 'j smsg list) option" where
  "regex_full alloc cfg stTime genTime s =
     (if 2 * iMaxLine s \<le> iMsg s
      then do { (s, ms) \<leftarrow> defaultDoSubmitMessage alloc cfg stTime genTime s; Some (s \<lparr> iMsg := 0, iCurrLine := 0 \<rparr>, ms) }
      else Some (s, []))"

definition regex_match ::
    "(nat \<Rightarrow> bool) \<Rightarrow> tcps_cfg \<Rightarrow> syslogTime \<Rightarrow> int \<Rightarrow> tcps_sess \<Rightarrow> (tcps_sess \<times> 'j smsg list) option" where
  "regex_match alloc cfg stTime genTime s = do {
     let len_save = nat (iMsg s - iCurrLine s);
     saved \<leftarrow> buf_read (pMsg s) (nat (iCurrLine s)) len_save;
     save \<leftarrow> pMsg_save s;
     save \<leftarrow> buf_memcpy save 0 saved;
     save \<leftarrow> buf_put save len_save NUL;
     let s = s \<lparr> iMsg := iCurrLine s - 1, pMsg_save := Some save \<rparr>;
     (s, ms) \<leftarrow> defaultDoSubmitMessage alloc cfg stTime genTime s;
     saved \<leftarrow> buf_read save 0 (len_save + 1);
     b \<leftarrow> buf_memcpy (pMsg s) 0 saved;
     Some (s \<lparr> pMsg := b, iMsg := int len_save, iCurrLine := 0 \<rparr>, ms) }"

definition processDataRcvd_regexFraming ::
    "(nat \<Rightarrow> bool) \<Rightarrow> tcps_cfg \<Rightarrow> syslogTime \<Rightarrow> int \<Rightarrow> tcps_sess \<Rightarrow> char \<Rightarrow> (tcps_sess \<times> 'j smsg list) option" where
  "processDataRcvd_regexFraming alloc cfg stTime genTime s c = do {
     (s, ms) \<leftarrow> regex_full alloc cfg stTime genTime s;
     s \<leftarrow> sess_store s c;
     b \<leftarrow> buf_put (pMsg s) (nat (iMsg s)) NUL;
     let s = s \<lparr> pMsg := b \<rparr>;
     if c = CHR 0x0A then Some (s \<lparr> iCurrLine := iMsg s \<rparr>, ms)
     else do {
       line \<leftarrow> buf_sz (drop (nat (iCurrLine s)) (pMsg s));
       if 0 < iCurrLine s \<and> start_preg cfg line
       then do { (s, ms') \<leftarrow> regex_match alloc cfg stTime genTime s; Some (s, ms @ ms') }
       else Some (s, ms) } }"

text \<open>The byte in the state the frame is in, after the decision on the framing at its start.\<close>

definition sess_dispatch ::
    "(nat \<Rightarrow> bool) \<Rightarrow> tcps_cfg \<Rightarrow> syslogTime \<Rightarrow> int \<Rightarrow> tcps_sess \<Rightarrow> char \<Rightarrow> char option \<Rightarrow> (tcps_sess \<times> 'j smsg list) option" where
  "sess_dispatch alloc cfg stTime genTime s c nxt = (case inputState s of
       eInMsg \<Rightarrow> sess_in_msg alloc cfg stTime genTime s c nxt
     | eInMsgTruncating \<Rightarrow> Some (sess_truncating cfg s c, [])
     | _ \<Rightarrow> do { s \<leftarrow> sess_octet_cnt cfg s c; Some (s, []) })"

definition sess_open ::
    "(nat \<Rightarrow> bool) \<Rightarrow> tcps_cfg \<Rightarrow> syslogTime \<Rightarrow> int \<Rightarrow> tcps_sess \<Rightarrow> char \<Rightarrow> char option \<Rightarrow> (tcps_sess \<times> 'j smsg list) option" where
  "sess_open alloc cfg stTime genTime s c nxt =
     (if inputState s = eAtStrtFram
      then if \<not> (isdigit c \<and> bSuppOctetFram s) \<and> c = CHR '' '' \<and> bSPFramingFix s then Some (s, [])
        else sess_dispatch alloc cfg stTime genTime (sess_start s c) c nxt
      else sess_dispatch alloc cfg stTime genTime s c nxt)"

definition processDataRcvd ::
    "(nat \<Rightarrow> bool) \<Rightarrow> tcps_cfg \<Rightarrow> syslogTime \<Rightarrow> int \<Rightarrow> tcps_sess \<Rightarrow> char \<Rightarrow> char option \<Rightarrow> (tcps_sess \<times> 'j smsg list) option" where
  "processDataRcvd alloc cfg stTime genTime s c nxt =
     (if bHasStartRegex cfg then processDataRcvd_regexFraming alloc cfg stTime genTime s c
      else do {
        (s, ms) \<leftarrow> (if inputState s = eInMsgCheckMultiLine
          then if c = CHR ''<'' then sess_submit alloc cfg stTime genTime s eAtStrtFram
            else do {
              s \<leftarrow> (if iMsg s < iMaxLine s then sess_store s (CHR 0x0A) else Some s);
              Some (s \<lparr> inputState := eInMsg \<rparr>, []) }
          else Some (s, []));
        (s, ms') \<leftarrow> sess_open alloc cfg stTime genTime s c nxt;
        Some (s, ms @ ms') })"

text \<open>The bytes of one read.\<close>

fun data_loop ::
    "(nat \<Rightarrow> bool) \<Rightarrow> tcps_cfg \<Rightarrow> syslogTime \<Rightarrow> int \<Rightarrow> tcps_sess \<Rightarrow> char list \<Rightarrow> (tcps_sess \<times> 'j smsg list) option" where
  "data_loop alloc cfg stTime genTime s [] = Some (s, [])"
| "data_loop alloc cfg stTime genTime s (c # cs) = do {
     (s, ms) \<leftarrow> processDataRcvd alloc cfg stTime genTime s c (case cs of [] \<Rightarrow> None | d # _ \<Rightarrow> Some d);
     (s, ms') \<leftarrow> data_loop alloc cfg stTime genTime s cs;
     Some (s, ms @ ms') }"

text \<open>
  A read. The last messages of the read go to the queue of their ruleset in one piece; \<^verbatim>\<open>flush\<close>
  stands for \<^verbatim>\<open>multiSubmitFlush\<close> and gives its result, which is the result of the read.
\<close>

definition DataRcvdUncompressed ::
    "(nat \<Rightarrow> bool) \<Rightarrow> ('j smsg list \<Rightarrow> rsRetVal) \<Rightarrow> tcps_cfg \<Rightarrow> syslogTime \<Rightarrow> int \<Rightarrow> tcps_sess \<Rightarrow> char list \<Rightarrow> bool
      \<Rightarrow> (rsRetVal \<times> tcps_sess \<times> 'j smsg list) option" where
  "DataRcvdUncompressed alloc flush cfg stTime genTime s dat detectTls = do {
     (r, s) \<leftarrow> (if detectTls then maybeDetectTlsClientHello cfg s dat else Some (RS_RET_OK, s));
     if r \<noteq> RS_RET_OK then Some (r, s, [])
     else do { (s, ms) \<leftarrow> data_loop alloc cfg stTime genTime s dat; Some (flush ms, s, ms) } }"

definition DataRcvdUncompressedFromStream ::
    "(nat \<Rightarrow> bool) \<Rightarrow> ('j smsg list \<Rightarrow> rsRetVal) \<Rightarrow> tcps_cfg \<Rightarrow> syslogTime \<Rightarrow> int \<Rightarrow> tcps_sess \<Rightarrow> char list \<Rightarrow> bool
      \<Rightarrow> (rsRetVal \<times> tcps_sess \<times> 'j smsg list) option" where
  "DataRcvdUncompressedFromStream alloc flush cfg stTime genTime s dat detectTls = do {
     let previous = streamDecompressed s;
     (r, s, ms) \<leftarrow> DataRcvdUncompressed alloc flush cfg stTime genTime (s \<lparr> streamDecompressed := True \<rparr>) dat detectTls;
     Some (r, s \<lparr> streamDecompressed := previous \<rparr>, ms) }"

text \<open>The end of the stream: a text without a delimiter is submitted, a counted frame that is not complete is dropped.\<close>

definition PrepareClose ::
    "(nat \<Rightarrow> bool) \<Rightarrow> tcps_cfg \<Rightarrow> syslogTime \<Rightarrow> int \<Rightarrow> tcps_sess \<Rightarrow> (tcps_sess \<times> 'j smsg list) option" where
  "PrepareClose alloc cfg stTime genTime s =
     (if inputState s = eAtStrtFram then Some (s, [])
      else if eFraming s = TCP_FRAMING_OCTET_COUNTING then Some (s, [])
      else defaultDoSubmitMessage alloc cfg stTime genTime s)"

definition sess_close :: "tcps_sess \<Rightarrow> tcps_sess" where
  "sess_close s = s \<lparr> fromHost := None, fromHostIP := None \<rparr>"

end
