(* ===== verification/Tcps_Framing.thy ===== *)
theory Tcps_Framing
imports Tcps_Sess Pars
begin

text \<open>
  What the TCP framing of \<^verbatim>\<open>Tcps_Sess\<close> promises. An automaton on plain texts describes it
  without the buffer, and every byte a session processes is a step of the automaton. On the
  automaton: the texts do not depend on how the network splits the bytes into reads, what a
  sender frames arrives, and the start of a frame is reached again and again.
\<close>

unbundle bit_operations_syntax

section \<open>Framing on texts\<close>

text \<open>
  What a session promises, without its buffer and its counters: the part of the frame that has
  been received, and the texts that become complete. A text is bounded by the size of a message.
\<close>

datatype framer =
    FStart
  | FCount int "char list"
  | FLine "char list"
  | FOctets int "char list"
  | FSkipLine
  | FSkipOctets int
  | FLineEnd "char list"

definition emit :: "char list \<Rightarrow> char list list" where
  "emit t = (if t = [] then [] else [t])"

definition fill :: "int \<Rightarrow> char list \<Rightarrow> char \<Rightarrow> char list" where
  "fill n t c = (if int (length t) < n then t @ [c] else t)"

fun frame_body :: "tcps_cfg \<Rightarrow> int \<Rightarrow> framer \<Rightarrow> char \<Rightarrow> char option \<Rightarrow> framer \<times> char list list" where
  "frame_body cfg n (FLine t) c nxt =
     (if is_delim cfg c
      then if bMultiLine cfg
        then (case nxt of None \<Rightarrow> (FLineEnd t, [])
              | Some d \<Rightarrow> if d = CHR ''<'' then (FStart, emit t) else (FLine (fill n t c), []))
        else (FStart, emit t)
      else if int (length t) < n then (FLine (t @ [c]), [])
      else (if discardTruncatedMsg cfg then FSkipLine else FLine [], emit t))"
| "frame_body cfg n (FOctets k t) c nxt =
     (if int (length t) < n
      then if k \<le> 1 then (FStart, [t @ [c]]) else (FOctets (k - 1) (t @ [c]), [])
      else (if k \<le> 1 then FStart else if discardTruncatedMsg cfg then FSkipOctets (k - 1) else FOctets (k - 1) [], emit t))"
| "frame_body cfg n FSkipLine c nxt = (if is_delim cfg c then FStart else FSkipLine, [])"
| "frame_body cfg n (FSkipOctets k) c nxt = (if k \<le> 1 then FStart else FSkipOctets (k - 1), [])"
| "frame_body cfg n (FCount v t) c nxt =
     (if isdigit c then (FCount (if v \<le> 200000000 then 10 * v + digit_val c else v) (fill n t c), [])
      else if maxFrameSize cfg < v then (FLine t, [])
      else if v < 1 then (FLine [], [])
      else (FOctets v [], []))"
| "frame_body cfg n FStart c nxt = (FStart, [])"
| "frame_body cfg n (FLineEnd t) c nxt = (FLineEnd t, [])"

definition frame_first :: "tcps_cfg \<Rightarrow> int \<Rightarrow> bool \<Rightarrow> bool \<Rightarrow> char \<Rightarrow> char option \<Rightarrow> framer \<times> char list list" where
  "frame_first cfg n oct sp c nxt =
     (if isdigit c \<and> oct then frame_body cfg n (FCount 0 []) c nxt
      else if c = CHR '' '' \<and> sp then (FStart, [])
      else frame_body cfg n (FLine []) c nxt)"

fun frame_byte :: "tcps_cfg \<Rightarrow> int \<Rightarrow> bool \<Rightarrow> bool \<Rightarrow> framer \<Rightarrow> char \<Rightarrow> char option \<Rightarrow> framer \<times> char list list" where
  "frame_byte cfg n oct sp FStart c nxt = frame_first cfg n oct sp c nxt"
| "frame_byte cfg n oct sp (FLineEnd t) c nxt =
     (if c = CHR ''<'' then apsnd ((@) (emit t)) (frame_first cfg n oct sp c nxt)
      else frame_body cfg n (FLine (fill n t (CHR 0x0A))) c nxt)"
| "frame_byte cfg n oct sp f c nxt = frame_body cfg n f c nxt"

text \<open>One read, and a sequence of reads.\<close>

fun frame_read :: "tcps_cfg \<Rightarrow> int \<Rightarrow> bool \<Rightarrow> bool \<Rightarrow> framer \<Rightarrow> char list \<Rightarrow> framer \<times> char list list" where
  "frame_read cfg n oct sp f [] = (f, [])"
| "frame_read cfg n oct sp f (c # cs) =
     (let (f, ts) = frame_byte cfg n oct sp f c (case cs of [] \<Rightarrow> None | d # _ \<Rightarrow> Some d);
          (f, ts') = frame_read cfg n oct sp f cs
      in (f, ts @ ts'))"

fun frame_reads :: "tcps_cfg \<Rightarrow> int \<Rightarrow> bool \<Rightarrow> bool \<Rightarrow> framer \<Rightarrow> char list list \<Rightarrow> framer \<times> char list list" where
  "frame_reads cfg n oct sp f [] = (f, [])"
| "frame_reads cfg n oct sp f (xs # xss) =
     (let (f, ts) = frame_read cfg n oct sp f xs; (f, ts') = frame_reads cfg n oct sp f xss in (f, ts @ ts'))"

text \<open>The messages for the texts: what memory allows of each, with what the session knows of the peer.\<close>

definition delivered :: "(nat \<Rightarrow> bool) \<Rightarrow> char list \<Rightarrow> char list list" where
  "delivered alloc t = (if \<not> alloc sizeof_smsg then []
     else if length t < 101 \<or> alloc (length t + 1) then [t] else [take 100 t])"

definition msg_of :: "tcps_cfg \<Rightarrow> syslogTime \<Rightarrow> tcps_sess \<Rightarrow> char list \<Rightarrow> 'j smsg \<Rightarrow> bool" where
  "msg_of cfg stTime s t m \<longleftrightarrow> raw_ok m t \<and> tRcvdAt m = stTime \<and> pInputName m = cnf_pInputName cfg
     \<and> msgFlags m = NEEDS_PARSING OR PARSE_HOSTNAME OR (if streamDecompressed s then NO_LEGACY_Z_DECOMPRESS else 0)
     \<and> rcvFrom m = (case fromHost s of None \<Rightarrow> FromNull | Some p \<Rightarrow> FromProp p)
     \<and> pRcvFromIP m = fromHostIP s \<and> pRcvFromPort m = fromHostPort s \<and> pRuleset m = cnf_pRuleset cfg"

definition msgs_of :: "(nat \<Rightarrow> bool) \<Rightarrow> tcps_cfg \<Rightarrow> syslogTime \<Rightarrow> tcps_sess \<Rightarrow> char list list \<Rightarrow> 'j smsg list \<Rightarrow> bool" where
  "msgs_of alloc cfg stTime s ts ms \<longleftrightarrow> list_all2 (msg_of cfg stTime s) (concat (map (delivered alloc) ts)) ms"

text \<open>The session holds a text, and is in a state of the automaton.\<close>

definition held :: "tcps_sess \<Rightarrow> char list \<Rightarrow> bool" where
  "held s t \<longleftrightarrow> iMsg s = int (length t) \<and> int (length t) \<le> iMaxLine s \<and> buf_read (pMsg s) 0 (length t) = Some t
     \<and> iMaxLine s < int (length (pMsg s)) \<and> 0 < iMaxLine s \<and> iMaxLine s < 2 ^ 31 - 1"

fun in_frame :: "tcps_sess \<Rightarrow> framer \<Rightarrow> bool" where
  "in_frame s FStart \<longleftrightarrow> inputState s = eAtStrtFram \<and> held s []"
| "in_frame s (FCount v t) \<longleftrightarrow> inputState s = eInOctetCnt \<and> held s t \<and> eFraming s = TCP_FRAMING_OCTET_COUNTING
     \<and> iOctetsRemain s = v \<and> 0 \<le> v \<and> v \<le> 2000000009"
| "in_frame s (FLine t) \<longleftrightarrow> inputState s = eInMsg \<and> held s t \<and> eFraming s = TCP_FRAMING_OCTET_STUFFING"
| "in_frame s (FOctets k t) \<longleftrightarrow> inputState s = eInMsg \<and> held s t \<and> eFraming s = TCP_FRAMING_OCTET_COUNTING
     \<and> iOctetsRemain s = k \<and> 1 \<le> k \<and> k \<le> 2000000009"
| "in_frame s FSkipLine \<longleftrightarrow> inputState s = eInMsgTruncating \<and> held s [] \<and> eFraming s = TCP_FRAMING_OCTET_STUFFING"
| "in_frame s (FSkipOctets k) \<longleftrightarrow> inputState s = eInMsgTruncating \<and> held s [] \<and> eFraming s = TCP_FRAMING_OCTET_COUNTING
     \<and> iOctetsRemain s = k \<and> 1 \<le> k \<and> k \<le> 2000000009"
| "in_frame s (FLineEnd t) \<longleftrightarrow> inputState s = eInMsgCheckMultiLine \<and> held s t \<and> eFraming s = TCP_FRAMING_OCTET_STUFFING"

text \<open>What the data received does not change; the framing leaves the detection of TLS alone as well.\<close>

definition sess_conf :: "tcps_sess \<Rightarrow> tcps_sess \<Rightarrow> bool" where
  "sess_conf s s' \<longleftrightarrow> bSuppOctetFram s' = bSuppOctetFram s \<and> bSPFramingFix s' = bSPFramingFix s \<and> iMaxLine s' = iMaxLine s
     \<and> fromHost s' = fromHost s \<and> fromHostIP s' = fromHostIP s \<and> fromHostPort s' = fromHostPort s
     \<and> streamDecompressed s' = streamDecompressed s"

definition sess_env :: "tcps_sess \<Rightarrow> tcps_sess \<Rightarrow> bool" where
  "sess_env s s' \<longleftrightarrow> bSuppOctetFram s' = bSuppOctetFram s \<and> bSPFramingFix s' = bSPFramingFix s \<and> iMaxLine s' = iMaxLine s
     \<and> fromHost s' = fromHost s \<and> fromHostIP s' = fromHostIP s \<and> fromHostPort s' = fromHostPort s
     \<and> streamDecompressed s' = streamDecompressed s
     \<and> tlsProbeBytes s' = tlsProbeBytes s \<and> tlsProbeBuf s' = tlsProbeBuf s \<and> tlsProbeDone s' = tlsProbeDone s"

section \<open>The session implements the automaton\<close>

lemma set_raw_fields:
  assumes "MsgSetRawMsg alloc m s = Some m'"
  shows "tRcvdAt m' = tRcvdAt m" "rcvFrom m' = rcvFrom m"
proof -
  have "tRcvdAt (set_raw_buf m b) = tRcvdAt m" "rcvFrom (set_raw_buf m b) = rcvFrom m" for m :: "'a smsg" and b
    by (simp_all add: set_raw_buf_def split: cell_store.split)
  then show "tRcvdAt m' = tRcvdAt m" "rcvFrom m' = rcvFrom m"
    using assms by (auto simp: MsgSetRawMsg_def Let_def Option.bind_eq_Some_conv split: if_splits prod.splits)
qed

lemma set_raw_delivered:
  assumes "int (length t) < 2 ^ 31 - 1" "alloc sizeof_smsg" "m = msgBaseConstruct u \<lparr> ttGenTime := g, tRcvdAt := st, tTIMESTAMP := st' \<rparr>"
  shows "\<exists>m' t'. MsgSetRawMsg alloc m t = Some m' \<and> delivered alloc t = [t'] \<and> raw_ok m' t'"
proof (cases "length t < 101 \<or> alloc (length t + 1)")
  case True
  then show ?thesis
    using set_raw_ok [of m t alloc] assms by (simp add: delivered_def msgBaseConstruct_def conf_sizes) blast
next
  case False
  then show ?thesis
    using set_raw_oom [of m t alloc] assms by (simp add: delivered_def msgBaseConstruct_def conf_sizes)
qed

lemma raw_ok_meta [simp]:
  "raw_ok (m \<lparr> pInputName := i, msgFlags := f, rcvFrom := r, pRcvFromIP := ip, pRcvFromPort := q, pRuleset := u \<rparr>) t = raw_ok m t"
  by (cases "pszRawMsg m") (simp_all add: raw_ok_def raw_buf_def)

lemma submit_text:
  assumes h: "iMsg s = int (length t)" "buf_read (pMsg s) 0 (length t) = Some t" "int (length t) < 2 ^ 31 - 1"
  shows "\<exists>ms. defaultDoSubmitMessage alloc cfg stTime genTime s = Some (s \<lparr> iMsg := 0, bFrameOversize := False \<rparr>, ms)
    \<and> msgs_of alloc cfg stTime s (emit t) ms"
proof (cases "t = []")
  case True
  then show ?thesis
    using h by (simp add: defaultDoSubmitMessage_def msgs_of_def emit_def)
next
  case nonempty: False
  show ?thesis
  proof (cases "alloc sizeof_smsg")
    case False
    then show ?thesis
      using nonempty h(1) by (simp add: defaultDoSubmitMessage_def msgConstructWithTime_def msgs_of_def emit_def delivered_def)
  next
    case True
    let ?m = "msgBaseConstruct genTime \<lparr> ttGenTime := genTime, tRcvdAt := stTime, tTIMESTAMP := stTime \<rparr> :: 'a smsg"
    obtain m t' where m: "MsgSetRawMsg alloc ?m t = Some m" "delivered alloc t = [t']" "raw_ok m t'"
      using set_raw_delivered [where t = t and alloc = alloc and m = ?m] h(3) True by blast
    have f: "tRcvdAt m = stTime" "rcvFrom m = FromNull"
      using set_raw_fields [OF m(1)] by (simp_all add: msgBaseConstruct_def)
    let ?flags = "NEEDS_PARSING OR PARSE_HOSTNAME OR (if streamDecompressed s then NO_LEGACY_Z_DECOMPRESS else 0)"
    have "\<not> needs_dns (m \<lparr> pInputName := cnf_pInputName cfg, msgFlags := ?flags \<rparr>)"
      by (simp add: needs_dns_def NEEDS_PARSING_def PARSE_HOSTNAME_def NO_LEGACY_Z_DECOMPRESS_def NEEDS_DNSRESOL_def)
    then show ?thesis
      using m nonempty True f h
      by (simp add: defaultDoSubmitMessage_def msgConstructWithTime_def msgs_of_def emit_def MsgSetRcvFromWithoutAddRef_def
          msg_of_def)
  qed
qed

lemma submit_ok:
  assumes "held s t"
  shows "\<exists>ms. defaultDoSubmitMessage alloc cfg stTime genTime s = Some (s \<lparr> iMsg := 0, bFrameOversize := False \<rparr>, ms)
    \<and> msgs_of alloc cfg stTime s (emit t) ms"
  using assms by (intro submit_text) (auto simp: held_def)

lemma store_ok:
  assumes "held s t" "int (length t) < iMaxLine s"
  shows "\<exists>b. sess_store s c = Some (s \<lparr> pMsg := b, iMsg := int (length t) + 1 \<rparr>)
    \<and> held (s \<lparr> pMsg := b, iMsg := int (length t) + 1 \<rparr>) (t @ [c])"
proof -
  have h: "iMsg s = int (length t)" "buf_read (pMsg s) 0 (length t) = Some t" "length t < length (pMsg s)"
    using assms by (auto simp: held_def)
  obtain b where b: "buf_memcpy (pMsg s) (length t) [c] = Some b"
    using buf_memcpy_ex [of "length t" "[c]" "pMsg s"] h(3) by auto
  have "buf_read b 0 (length t) = Some t"
    using buf_read_memcpy_before [OF b, of 0 "length t"] h(2) by simp
  moreover have "buf_read b (0 + length t) 1 = Some [c]"
    using buf_read_memcpy_same [OF b] by simp
  ultimately have "buf_read b 0 (length t + 1) = Some (t @ [c])"
    by (rule buf_read_join)
  then have "held (s \<lparr> pMsg := b, iMsg := int (length t) + 1 \<rparr>) (t @ [c])"
    using assms buf_memcpy_length [OF b] by (auto simp: held_def)
  moreover have "sess_store s c = Some (s \<lparr> pMsg := b, iMsg := int (length t) + 1 \<rparr>)"
    using h(1) b by (simp add: sess_store_def buf_put_as_memcpy)
  ultimately show ?thesis
    by blast
qed

text \<open>The fields a step may change, other than the buffer, do not matter to what is held.\<close>

lemma held_simps [simp]:
  "held (s \<lparr> inputState := a \<rparr>) t = held s t" "held (s \<lparr> eFraming := f \<rparr>) t = held s t"
  "held (s \<lparr> iOctetsRemain := k \<rparr>) t = held s t" "held (s \<lparr> bFrameOversize := o' \<rparr>) t = held s t"
  by (simp_all add: held_def)

lemma held_reset [simp]: "held s t \<Longrightarrow> held (s \<lparr> iMsg := 0 \<rparr>) []"
  by (auto simp: held_def buf_read_def)

lemma sess_env_simps [simp]:
  "sess_env s s" "sess_env s (s' \<lparr> inputState := a \<rparr>) = sess_env s s'" "sess_env s (s' \<lparr> eFraming := f \<rparr>) = sess_env s s'"
  "sess_env s (s' \<lparr> iOctetsRemain := k \<rparr>) = sess_env s s'" "sess_env s (s' \<lparr> bFrameOversize := o' \<rparr>) = sess_env s s'"
  "sess_env s (s' \<lparr> iMsg := i \<rparr>) = sess_env s s'" "sess_env s (s' \<lparr> pMsg := b \<rparr>) = sess_env s s'"
  by (simp_all add: sess_env_def)

lemma sess_env_trans: "sess_env s s' \<Longrightarrow> sess_env s' s'' \<Longrightarrow> sess_env s s''"
  by (simp add: sess_env_def)

lemma sess_env_conf: "sess_env s s' \<Longrightarrow> sess_conf s s'"
  by (simp add: sess_env_def sess_conf_def)

lemma sess_conf_trans: "sess_conf s s' \<Longrightarrow> sess_conf s' s'' \<Longrightarrow> sess_conf s s''"
  by (simp add: sess_conf_def)

lemma msgs_of_conf: "sess_conf s s' \<Longrightarrow> msgs_of alloc cfg stTime s' = msgs_of alloc cfg stTime s"
  by (intro ext) (simp add: msgs_of_def msg_of_def [abs_def] sess_conf_def)

lemmas msgs_of_env = msgs_of_conf [OF sess_env_conf]

lemma msgs_of_nil [simp]: "msgs_of alloc cfg stTime s [] ms \<longleftrightarrow> ms = []"
  by (simp add: msgs_of_def)

lemma msgs_of_append: "msgs_of alloc cfg stTime s ts ms \<Longrightarrow> msgs_of alloc cfg stTime s ts' ms'
    \<Longrightarrow> msgs_of alloc cfg stTime s (ts @ ts') (ms @ ms')"
  by (simp add: msgs_of_def list_all2_appendI)

text \<open>A result of the session that is a result of the automaton.\<close>

definition agrees ::
    "(nat \<Rightarrow> bool) \<Rightarrow> tcps_cfg \<Rightarrow> syslogTime \<Rightarrow> tcps_sess \<Rightarrow> (tcps_sess \<times> 'j smsg list) option \<Rightarrow> framer \<times> char list list \<Rightarrow> bool" where
  "agrees alloc cfg stTime s r F \<longleftrightarrow> (\<exists>s' ms. r = Some (s', ms) \<and> in_frame s' (fst F) \<and> sess_env s s'
     \<and> msgs_of alloc cfg stTime s (snd F) ms)"

lemma agrees_Some [simp]: "agrees alloc cfg stTime s (Some (s', ms)) F \<longleftrightarrow> in_frame s' (fst F) \<and> sess_env s s'
    \<and> msgs_of alloc cfg stTime s (snd F) ms"
  by (simp add: agrees_def)

lemma agrees_env: "agrees alloc cfg stTime s r F \<Longrightarrow> sess_env s0 s \<Longrightarrow> agrees alloc cfg stTime s0 r F"
  by (auto simp: agrees_def msgs_of_env intro: sess_env_trans)

lemma submit_frame:
  assumes "held s t" "sess_env s0 s"
  shows "agrees alloc cfg stTime s0 (sess_submit alloc cfg stTime genTime s eAtStrtFram :: (tcps_sess \<times> 'j smsg list) option)
    (FStart, emit t)"
proof -
  obtain ms :: "'j smsg list" where "defaultDoSubmitMessage alloc cfg stTime genTime s = Some (s \<lparr> iMsg := 0, bFrameOversize := False \<rparr>, ms)"
    "msgs_of alloc cfg stTime s (emit t) ms"
    using submit_ok [OF assms(1)] by blast
  then show ?thesis
    using held_reset [OF assms(1)] assms(2) by (simp add: sess_submit_def msgs_of_env [OF assms(2)])
qed

lemma octet_end_line: "eFraming s = TCP_FRAMING_OCTET_STUFFING \<Longrightarrow> sess_octet_end alloc cfg stTime genTime s = Some (s, [])"
  by (simp add: sess_octet_end_def)

lemma octet_end_count:
  assumes "held s t" "sess_env s0 s" "inputState s = eInMsg" "eFraming s = TCP_FRAMING_OCTET_COUNTING" "iOctetsRemain s = k" "1 \<le> k" "k \<le> 2000000009"
  shows "agrees alloc cfg stTime s0 (sess_octet_end alloc cfg stTime genTime s) (if k \<le> 1 then (FStart, emit t) else (FOctets (k - 1) t, []))"
proof (cases "k \<le> 1")
  case True
  then show ?thesis
    using submit_frame [of "s \<lparr> iOctetsRemain := k - 1 \<rparr>" t s0] assms by (simp add: sess_octet_end_def Let_def)
next
  case False
  then show ?thesis
    using assms by (simp add: sess_octet_end_def Let_def)
qed

lemma submit_oversize:
  assumes "held s t"
  shows "\<exists>ms :: 'j smsg list. defaultDoSubmitMessage alloc cfg stTime genTime (s \<lparr> bFrameOversize := True \<rparr>)
      = Some (s \<lparr> iMsg := 0, bFrameOversize := False \<rparr>, ms) \<and> msgs_of alloc cfg stTime s (emit t) ms"
proof -
  have h: "held (s \<lparr> bFrameOversize := True \<rparr>) t"
    using assms by simp
  obtain ms :: "'j smsg list" where "defaultDoSubmitMessage alloc cfg stTime genTime (s \<lparr> bFrameOversize := True \<rparr>)
      = Some (s \<lparr> bFrameOversize := True \<rparr> \<lparr> iMsg := 0, bFrameOversize := False \<rparr>, ms)"
      "msgs_of alloc cfg stTime (s \<lparr> bFrameOversize := True \<rparr>) (emit t) ms"
    using submit_ok [OF h] by blast
  then show ?thesis
    by (simp add: msgs_of_env [of s "s \<lparr> bFrameOversize := True \<rparr>"])
qed

lemma fill_ok:
  assumes "held s t"
  shows "\<exists>b i. (if iMsg s < iMaxLine s then sess_store s c else Some s) = Some (s \<lparr> pMsg := b, iMsg := i \<rparr>)
    \<and> held (s \<lparr> pMsg := b, iMsg := i \<rparr>) (fill (iMaxLine s) t c)"
proof (cases "int (length t) < iMaxLine s")
  case True
  then show ?thesis
    using store_ok [OF assms True, of c] assms by (auto simp: fill_def held_def add.commute)
next
  case False
  then show ?thesis
    using assms by (auto simp: fill_def held_def intro!: exI [of _ "pMsg s"] exI [of _ "iMsg s"])
qed

lemma in_msg_line:
  assumes s: "in_frame s (FLine t)"
  shows "agrees alloc cfg stTime s (sess_in_msg alloc cfg stTime genTime s c nxt :: (tcps_sess \<times> 'j smsg list) option)
    (frame_body cfg (iMaxLine s) (FLine t) c nxt)"
proof -
  have h: "held s t" "inputState s = eInMsg" "eFraming s = TCP_FRAMING_OCTET_STUFFING" "iMsg s = int (length t)"
    using s by (auto simp: held_def)
  obtain b i where fill: "(if iMsg s < iMaxLine s then sess_store s c else Some s) = Some (s \<lparr> pMsg := b, iMsg := i \<rparr>)"
    "held (s \<lparr> pMsg := b, iMsg := i \<rparr>) (fill (iMaxLine s) t c)"
    using fill_ok [OF h(1)] by blast
  obtain ms :: "'j smsg list" where sub: "defaultDoSubmitMessage alloc cfg stTime genTime (s \<lparr> bFrameOversize := True \<rparr>)
      = Some (s \<lparr> iMsg := 0, bFrameOversize := False \<rparr>, ms)" "msgs_of alloc cfg stTime s (emit t) ms"
    using submit_oversize [OF h(1)] by blast
  consider (delim) "is_delim cfg c" "\<not> bMultiLine cfg" | (look) "is_delim cfg c" "bMultiLine cfg"
    | (room) "\<not> is_delim cfg c" "int (length t) < iMaxLine s" | (full) "\<not> is_delim cfg c" "\<not> int (length t) < iMaxLine s"
    by blast
  then show ?thesis
  proof cases
    case delim
    then show ?thesis
      using submit_frame [OF h(1), of s] h by (simp add: sess_in_msg_def)
  next
    case look
    show ?thesis
    proof (cases nxt)
      case None
      then show ?thesis
        using look h by (simp add: sess_in_msg_def)
    next
      case (Some d)
      have "sess_in_msg alloc cfg stTime genTime s c nxt = Some (s \<lparr> pMsg := b, iMsg := i \<rparr>, [] :: 'j smsg list)" if "d \<noteq> CHR ''<''"
        using fill(1) look h that Some by (auto simp: sess_in_msg_def split: if_splits)
      then show ?thesis
        using submit_frame [OF h(1), of s] h look Some fill(2) by (cases "d = CHR ''<''") (simp_all add: sess_in_msg_def)
    qed
  next
    case room
    then show ?thesis
      using fill h by (simp add: sess_in_msg_def fill_def octet_end_line)
  next
    case full
    then show ?thesis
      using sub h held_reset [OF h(1)] by (simp add: sess_in_msg_def octet_end_line)
  qed
qed

lemma in_msg_octets:
  assumes s: "in_frame s (FOctets k t)"
  shows "agrees alloc cfg stTime s (sess_in_msg alloc cfg stTime genTime s c nxt :: (tcps_sess \<times> 'j smsg list) option)
    (frame_body cfg (iMaxLine s) (FOctets k t) c nxt)"
proof -
  have h: "held s t" "inputState s = eInMsg" "eFraming s = TCP_FRAMING_OCTET_COUNTING" "iMsg s = int (length t)"
    "iOctetsRemain s = k" "1 \<le> k" "k \<le> 2000000009"
    using s by (auto simp: held_def)
  show ?thesis
  proof (cases "int (length t) < iMaxLine s")
    case True
    obtain b where b: "sess_store s c = Some (s \<lparr> pMsg := b, iMsg := int (length t) + 1 \<rparr>)"
      "held (s \<lparr> pMsg := b, iMsg := int (length t) + 1 \<rparr>) (t @ [c])"
      using store_ok [OF h(1) True] by blast
    have "agrees alloc cfg stTime s (sess_octet_end alloc cfg stTime genTime (s \<lparr> pMsg := b, iMsg := int (length t) + 1 \<rparr>)
        :: (tcps_sess \<times> 'j smsg list) option) (if k \<le> 1 then (FStart, emit (t @ [c])) else (FOctets (k - 1) (t @ [c]), []))"
      by (rule octet_end_count [OF b(2)]) (use h in simp_all)
    then show ?thesis
      using True b(1) h by (simp add: sess_in_msg_def emit_def split: if_splits)
  next
    case False
    let ?e = "s \<lparr> iMsg := 0, bFrameOversize := False \<rparr>"
    obtain ms :: "'j smsg list" where sub: "defaultDoSubmitMessage alloc cfg stTime genTime (s \<lparr> bFrameOversize := True \<rparr>) = Some (?e, ms)"
        "msgs_of alloc cfg stTime s (emit t) ms"
      using submit_oversize [OF h(1)] by blast
    have e: "held ?e []" "sess_env s ?e"
      using held_reset [OF h(1)] by simp_all
    have "agrees alloc cfg stTime s (sess_octet_end alloc cfg stTime genTime ?e :: (tcps_sess \<times> 'j smsg list) option)
        (if k \<le> 1 then (FStart, emit []) else (FOctets (k - 1) [], []))"
      by (rule octet_end_count [OF e]) (use h in simp_all)
    then obtain s' where "sess_octet_end alloc cfg stTime genTime ?e = Some (s', [] :: 'j smsg list)" "sess_env s s'"
        "in_frame s' (if k \<le> 1 then FStart else FOctets (k - 1) [])"
      by (auto simp: agrees_def emit_def split: if_splits)
    then show ?thesis
      using False sub h e by (simp add: sess_in_msg_def Let_def split: if_splits)
  qed
qed

lemma octet_cnt_sim:
  assumes s: "in_frame s (FCount v t)"
  shows "agrees alloc cfg stTime s (do { s \<leftarrow> sess_octet_cnt cfg s c; Some (s, [] :: 'j smsg list) })
    (frame_body cfg (iMaxLine s) (FCount v t) c nxt)"
proof (cases "isdigit c")
  case True
  have d: "48 \<le> int (of_char c)" "int (of_char c) \<le> 57"
    using True by (auto simp: isdigit_def)
  have h: "held s t" "inputState s = eInOctetCnt" "eFraming s = TCP_FRAMING_OCTET_COUNTING" "iOctetsRemain s = v" "0 \<le> v" "v \<le> 2000000009"
    using s by auto
  let ?v = "if v \<le> 200000000 then 10 * v + digit_val c else v"
  let ?s = "s \<lparr> iOctetsRemain := ?v \<rparr>"
  have v: "0 \<le> ?v" "?v \<le> 2000000009"
    using h(5,6) d by (auto simp: digit_val_def)
  have "(if iOctetsRemain s \<le> 200000000
      then do { u \<leftarrow> ck_int (iOctetsRemain s * 10); w \<leftarrow> ck_int (u + int (of_char c)); Some (s \<lparr> iOctetsRemain := w - 48 \<rparr>) }
      else Some s) = Some ?s"
    using h(4-6) d by (auto simp: ck_int_def digit_val_def algebra_simps)
  moreover obtain b i where "(if iMsg ?s < iMaxLine ?s then sess_store ?s c else Some ?s) = Some (?s \<lparr> pMsg := b, iMsg := i \<rparr>)"
    "held (?s \<lparr> pMsg := b, iMsg := i \<rparr>) (fill (iMaxLine ?s) t c)"
    using fill_ok [of ?s t c] h(1) by auto
  ultimately show ?thesis
    using True h(2,3) v by (simp add: sess_octet_cnt_def)
next
  case False
  then show ?thesis
    using s held_reset [of s t] by (auto simp: sess_octet_cnt_def Let_def)
qed

lemma truncating_sim:
  assumes "in_frame s f" "inputState s = eInMsgTruncating"
  shows "agrees alloc cfg stTime s (Some (sess_truncating cfg s c, [] :: 'j smsg list)) (frame_body cfg (iMaxLine s) f c nxt)"
  using assms by (cases f) (auto simp: sess_truncating_def Let_def)

lemma dispatch_sim:
  assumes "in_frame s f" "inputState s \<noteq> eAtStrtFram" "inputState s \<noteq> eInMsgCheckMultiLine"
  shows "agrees alloc cfg stTime s (sess_dispatch alloc cfg stTime genTime s c nxt :: (tcps_sess \<times> 'j smsg list) option)
    (frame_body cfg (iMaxLine s) f c nxt)"
proof (cases f)
  case (FCount v t)
  then show ?thesis
    using octet_cnt_sim [of s v t] assms(1) by (simp add: sess_dispatch_def del: frame_body.simps)
next
  case (FLine t)
  then show ?thesis
    using in_msg_line [of s t] assms(1) by (simp add: sess_dispatch_def del: frame_body.simps)
next
  case (FOctets k t)
  then show ?thesis
    using in_msg_octets [of s k t] assms(1) by (simp add: sess_dispatch_def del: frame_body.simps)
qed (use truncating_sim [OF assms(1)] assms in \<open>simp_all add: sess_dispatch_def del: frame_body.simps\<close>)

lemma open_start:
  assumes "in_frame s FStart"
  shows "agrees alloc cfg stTime s (sess_open alloc cfg stTime genTime s c nxt :: (tcps_sess \<times> 'j smsg list) option)
    (frame_first cfg (iMaxLine s) (bSuppOctetFram s) (bSPFramingFix s) c nxt)"
proof -
  let ?f = "if isdigit c \<and> bSuppOctetFram s then FCount 0 [] else FLine []"
  let ?d = "sess_dispatch alloc cfg stTime genTime (sess_start s c) c nxt :: (tcps_sess \<times> 'j smsg list) option"
  have f: "in_frame (sess_start s c) ?f" and e: "sess_env s (sess_start s c)"
    using assms by (auto simp: sess_start_def)
  have st: "inputState (sess_start s c) \<noteq> eAtStrtFram" "inputState (sess_start s c) \<noteq> eInMsgCheckMultiLine"
    "iMaxLine (sess_start s c) = iMaxLine s"
    by (simp_all add: sess_start_def)
  have d: "agrees alloc cfg stTime s ?d (frame_body cfg (iMaxLine s) ?f c nxt)"
    using agrees_env [OF dispatch_sim [OF f st(1,2)] e] st(3) by metis
  have i: "inputState s = eAtStrtFram"
    using assms by simp
  show ?thesis
  proof (cases "\<not> (isdigit c \<and> bSuppOctetFram s) \<and> c = CHR '' '' \<and> bSPFramingFix s")
    case True
    then show ?thesis
      using assms i unfolding sess_open_def frame_first_def by auto
  next
    case False
    then have "sess_open alloc cfg stTime genTime s c nxt = ?d"
      "frame_first cfg (iMaxLine s) (bSuppOctetFram s) (bSPFramingFix s) c nxt = frame_body cfg (iMaxLine s) ?f c nxt"
      using i unfolding sess_open_def frame_first_def by (auto simp del: frame_body.simps)
    then show ?thesis
      using d by simp
  qed
qed

lemma open_body:
  assumes "in_frame s f" "inputState s \<noteq> eAtStrtFram" "inputState s \<noteq> eInMsgCheckMultiLine"
  shows "agrees alloc cfg stTime s (sess_open alloc cfg stTime genTime s c nxt :: (tcps_sess \<times> 'j smsg list) option)
    (frame_body cfg (iMaxLine s) f c nxt)"
  using dispatch_sim [OF assms] assms(2) by (simp add: sess_open_def)

lemma agrees_bind:
  assumes "agrees alloc cfg stTime s r (f1, ts1)"
    and k: "\<And>s1. in_frame s1 f1 \<Longrightarrow> sess_env s s1 \<Longrightarrow> agrees alloc cfg stTime s1 (k s1) (f2, ts2)"
  shows "agrees alloc cfg stTime s (do { (s, ms) \<leftarrow> r; (s, ms') \<leftarrow> k s; Some (s, ms @ ms') }) (f2, ts1 @ ts2)"
proof -
  obtain s1 ms where r: "r = Some (s1, ms)" "in_frame s1 f1" "sess_env s s1" "msgs_of alloc cfg stTime s ts1 ms"
    using assms(1) by (auto simp: agrees_def)
  obtain s2 ms' where "k s1 = Some (s2, ms')" "in_frame s2 f2" "sess_env s1 s2" "msgs_of alloc cfg stTime s1 ts2 ms'"
    using k [OF r(2,3)] by (auto simp: agrees_def)
  then show ?thesis
    using r sess_env_trans [OF r(3)] by (simp add: msgs_of_env [OF r(3)] msgs_of_append)
qed

text \<open>One byte, one read and a sequence of reads.\<close>

lemma byte_sim:
  assumes s: "in_frame s f" and "\<not> bHasStartRegex cfg"
  shows "agrees alloc cfg stTime s (processDataRcvd alloc cfg stTime genTime s c nxt :: (tcps_sess \<times> 'j smsg list) option)
    (frame_byte cfg (iMaxLine s) (bSuppOctetFram s) (bSPFramingFix s) f c nxt)"
proof (cases "inputState s = eInMsgCheckMultiLine")
  case False
  then have p: "processDataRcvd alloc cfg stTime genTime s c nxt
      = (sess_open alloc cfg stTime genTime s c nxt :: (tcps_sess \<times> 'j smsg list) option)"
    using assms(2) by (simp add: processDataRcvd_def)
  show ?thesis
  proof (cases "f = FStart")
    case True
    then show ?thesis
      using open_start [of s] s p by simp
  next
    case no: False
    have "inputState s \<noteq> eAtStrtFram"
      using no s False by (cases f) auto
    moreover have "frame_byte cfg n oct sp f c nxt = frame_body cfg n f c nxt" for n oct sp
      using no s False by (cases f) (simp_all del: frame_body.simps)
    ultimately show ?thesis
      using open_body [OF s] False p by simp
  qed
next
  case True
  then obtain t where t: "f = FLineEnd t" "held s t" "eFraming s = TCP_FRAMING_OCTET_STUFFING"
    using s by (cases f) auto
  let ?n = "iMaxLine s"
  show ?thesis
  proof (cases "c = CHR ''<''")
    case lt: True
    obtain f' ts where F: "frame_first cfg ?n (bSuppOctetFram s) (bSPFramingFix s) c nxt = (f', ts)"
      by (cases "frame_first cfg ?n (bSuppOctetFram s) (bSPFramingFix s) c nxt")
    have "agrees alloc cfg stTime s1 (sess_open alloc cfg stTime genTime s1 c nxt :: (tcps_sess \<times> 'j smsg list) option) (f', ts)"
      if "in_frame s1 FStart" "sess_env s s1" for s1
      using open_start [OF that(1), of alloc cfg stTime genTime c nxt] that(2) F by (simp add: sess_env_def)
    then have "agrees alloc cfg stTime s (do { (s, ms) \<leftarrow> sess_submit alloc cfg stTime genTime s eAtStrtFram;
        (s, ms') \<leftarrow> sess_open alloc cfg stTime genTime s c nxt; Some (s, ms @ ms' :: 'j smsg list) }) (f', emit t @ ts)"
      by (rule agrees_bind [OF submit_frame [OF t(2) sess_env_simps(1)]])
    then show ?thesis
      using True lt F t(1) assms(2) by (simp add: processDataRcvd_def)
  next
    case no: False
    obtain b i where b: "(if iMsg s < ?n then sess_store s (CHR 0x0A) else Some s) = Some (s \<lparr> pMsg := b, iMsg := i \<rparr>)"
      "held (s \<lparr> pMsg := b, iMsg := i \<rparr>) (fill ?n t (CHR 0x0A))"
      using fill_ok [OF t(2)] by blast
    let ?s = "s \<lparr> pMsg := b, iMsg := i, inputState := eInMsg \<rparr>"
    have "in_frame ?s (FLine (fill ?n t (CHR 0x0A)))" and e: "sess_env s ?s"
      using b(2) t(3) by simp_all
    then have "agrees alloc cfg stTime s (sess_open alloc cfg stTime genTime ?s c nxt :: (tcps_sess \<times> 'j smsg list) option)
        (frame_body cfg ?n (FLine (fill ?n t (CHR 0x0A))) c nxt)"
      using agrees_env [OF open_body [of ?s "FLine (fill ?n t (CHR 0x0A))"] e] by (simp del: frame_body.simps)
    then show ?thesis
      using True no b(1) t(1) assms(2) by (simp add: processDataRcvd_def del: frame_body.simps)
  qed
qed

lemma read_sim:
  assumes "in_frame s f" "\<not> bHasStartRegex cfg"
  shows "agrees alloc cfg stTime s (data_loop alloc cfg stTime genTime s cs :: (tcps_sess \<times> 'j smsg list) option)
    (frame_read cfg (iMaxLine s) (bSuppOctetFram s) (bSPFramingFix s) f cs)"
  using assms
proof (induction cs arbitrary: s f)
  case (Cons c cs)
  let ?nxt = "case cs of [] \<Rightarrow> None | d # _ \<Rightarrow> Some d"
  obtain f1 ts1 where F1: "frame_byte cfg (iMaxLine s) (bSuppOctetFram s) (bSPFramingFix s) f c ?nxt = (f1, ts1)"
    by (rule prod.exhaust)
  obtain f2 ts2 where F2: "frame_read cfg (iMaxLine s) (bSuppOctetFram s) (bSPFramingFix s) f1 cs = (f2, ts2)"
    by (rule prod.exhaust)
  have k: "agrees alloc cfg stTime s1 (data_loop alloc cfg stTime genTime s1 cs :: (tcps_sess \<times> 'j smsg list) option) (f2, ts2)"
    if "in_frame s1 f1" "sess_env s s1" for s1
    using Cons.IH [OF that(1) Cons.prems(2)] that(2) F2 by (simp add: sess_env_def)
  have b: "agrees alloc cfg stTime s (processDataRcvd alloc cfg stTime genTime s c ?nxt :: (tcps_sess \<times> 'j smsg list) option) (f1, ts1)"
    using byte_sim [OF Cons.prems, of alloc stTime genTime c ?nxt] F1 by simp
  show ?case
    using agrees_bind [OF b k] F1 F2 by simp
qed simp

section \<open>The split into reads does not matter\<close>

text \<open>
  With multi-line messages the byte behind a delimiter decides whether the message ends; the
  automaton waits for it when the read ends there. That the delimiter is a line feed is needed,
  as this is what a session adds to the message in that case.
\<close>

definition lf_continues :: "tcps_cfg \<Rightarrow> bool" where
  "lf_continues cfg \<longleftrightarrow> (bMultiLine cfg \<longrightarrow> addtlFrameDelim cfg = TCPSRV_NO_ADDTL_DELIMITER \<or> addtlFrameDelim cfg = 10)"

lemma int8_char:
  assumes "int8 (of_char c) = k" "0 \<le> k"
  shows "of_char c = k"
proof -
  have "take_bit 8 (of_char c) = take_bit 8 k"
    using assms(1) by (auto simp: int8_def take_bit_signed_take_bit)
  moreover have "take_bit 8 (of_char c :: int) = of_char c"
    by (simp add: take_bit_eq_mod)
  moreover have "take_bit 8 k = k"
    using assms int8_range [of "of_char c"] by (intro take_bit_int_eq_self) simp_all
  ultimately show ?thesis
    by simp
qed

lemma lf_continues_delim: "lf_continues cfg \<Longrightarrow> bMultiLine cfg \<Longrightarrow> is_delim cfg c \<Longrightarrow> c = CHR 0x0A"
  using int8_char [of c 10] of_char_eq_iff [of c "CHR 0x0A", where ?'a = int] by (auto simp: lf_continues_def is_delim_def)

lemma body_nxt: "\<not> (bMultiLine cfg \<and> (\<exists>t. f = FLine t) \<and> is_delim cfg c) \<Longrightarrow> frame_body cfg n f c nxt = frame_body cfg n f c nxt'"
  by (cases f) auto

lemma apsnd_nil: "apsnd ((@) []) p = p"
  by (cases p) simp

lemma apsnd_append: "apsnd ((@) (a @ b)) p = apsnd ((@) a) (apsnd ((@) b) p)"
  by (cases p) simp

text \<open>A byte with and without the byte behind it in sight.\<close>

lemma body_lookahead:
  assumes "lf_continues cfg" "frame_body cfg n f c (Some d) = (f1, ts1)" "frame_body cfg n f c None = (f2, ts2)"
  shows "apsnd ((@) ts1) (frame_byte cfg n oct sp f1 d nxt) = apsnd ((@) ts2) (frame_byte cfg n oct sp f2 d nxt)"
proof (cases "bMultiLine cfg \<and> (\<exists>t. f = FLine t) \<and> is_delim cfg c")
  case False
  then have "(f1, ts1) = (f2, ts2)"
    using assms(2,3) body_nxt [of cfg f c n "Some d" None] by simp
  then show ?thesis
    by simp
next
  case True
  then obtain t where "f = FLine t" and c: "c = CHR 0x0A" and "bMultiLine cfg" "is_delim cfg c"
    using lf_continues_delim [OF assms(1)] by blast
  then have "(f1, ts1) = (if d = CHR ''<'' then (FStart, emit t) else (FLine (fill n t c), []))" "(f2, ts2) = (FLineEnd t, [])"
    using assms(2,3) by (auto split: if_splits)
  then show ?thesis
    using c by (cases "d = CHR ''<''") (simp_all add: apsnd_nil del: frame_body.simps)
qed

lemma first_lookahead:
  assumes "lf_continues cfg" "frame_first cfg n oct sp c (Some d) = (f1, ts1)" "frame_first cfg n oct sp c None = (f2, ts2)"
  shows "apsnd ((@) ts1) (frame_byte cfg n oct sp f1 d nxt) = apsnd ((@) ts2) (frame_byte cfg n oct sp f2 d nxt)"
proof (cases "\<not> (isdigit c \<and> oct) \<and> c = CHR '' '' \<and> sp")
  case True
  then show ?thesis
    using assms(2,3) unfolding frame_first_def by auto
next
  case False
  then have "frame_first cfg n oct sp c m = frame_body cfg n (if isdigit c \<and> oct then FCount 0 [] else FLine []) c m" for m
    unfolding frame_first_def by (auto simp del: frame_body.simps)
  then show ?thesis
    using assms(2,3) by (intro body_lookahead [OF assms(1)]) simp_all
qed

lemma byte_lookahead:
  assumes "lf_continues cfg" "frame_byte cfg n oct sp f c (Some d) = (f1, ts1)" "frame_byte cfg n oct sp f c None = (f2, ts2)"
  shows "apsnd ((@) ts1) (frame_byte cfg n oct sp f1 d nxt) = apsnd ((@) ts2) (frame_byte cfg n oct sp f2 d nxt)"
proof (cases f)
  case FStart
  then show ?thesis
    using assms(2,3) first_lookahead [OF assms(1)] by simp
next
  case (FLineEnd t)
  show ?thesis
  proof (cases "c = CHR ''<''")
    case True
    obtain ts3 ts4 where e: "frame_first cfg n oct sp c (Some d) = (f1, ts3)" "frame_first cfg n oct sp c None = (f2, ts4)"
        "ts1 = emit t @ ts3" "ts2 = emit t @ ts4"
      using assms(2,3) FLineEnd True
      by (cases "frame_first cfg n oct sp c (Some d)"; cases "frame_first cfg n oct sp c None") (simp del: frame_body.simps)
    have "apsnd ((@) (emit t)) (apsnd ((@) ts3) (frame_byte cfg n oct sp f1 d nxt))
        = apsnd ((@) (emit t)) (apsnd ((@) ts4) (frame_byte cfg n oct sp f2 d nxt))"
      using first_lookahead [OF assms(1) e(1,2)] by simp
    then show ?thesis
      by (simp add: e(3,4) apsnd_append)
  next
    case False
    then show ?thesis
      using assms(2,3) FLineEnd by (intro body_lookahead [OF assms(1)]) (simp_all del: frame_body.simps)
  qed
qed (use assms(2,3) in \<open>auto intro!: body_lookahead [OF assms(1)] simp del: frame_body.simps\<close>)

lemma read_append:
  assumes "lf_continues cfg" "ys \<noteq> []" "frame_read cfg n oct sp f xs = (f1, ts1)" "frame_read cfg n oct sp f1 ys = (f2, ts2)"
  shows "frame_read cfg n oct sp f (xs @ ys) = (f2, ts1 @ ts2)"
  using assms(3,4)
proof (induction xs arbitrary: f ts1)
  case (Cons x xs)
  obtain y ys' where ys: "ys = y # ys'"
    using assms(2) by (cases ys) auto
  show ?case
  proof (cases xs)
    case Nil
    let ?nxt = "case ys' of [] \<Rightarrow> None | d # _ \<Rightarrow> Some d"
    obtain g us where b: "frame_byte cfg n oct sp f x (Some y) = (g, us)"
      by (rule prod.exhaust)
    have n: "frame_byte cfg n oct sp f x None = (f1, ts1)"
      using Cons.prems(1) Nil by (simp split: prod.splits)
    have "apsnd ((@) us) (frame_byte cfg n oct sp g y ?nxt) = apsnd ((@) ts1) (frame_byte cfg n oct sp f1 y ?nxt)"
      by (rule byte_lookahead [OF assms(1) b n])
    then show ?thesis
      using Cons.prems(2) Nil ys b by (auto split: prod.splits)
  next
    case (Cons x' xs')
    obtain g us where b: "frame_byte cfg n oct sp f x (Some x') = (g, us)"
      by (rule prod.exhaust)
    obtain vs where v: "frame_read cfg n oct sp g xs = (f1, vs)" "ts1 = us @ vs"
      using Cons.prems(1) b \<open>xs = x' # xs'\<close> by (simp split: prod.splits)
    show ?thesis
      using Cons.IH [OF v(1) Cons.prems(2)] b v(2) \<open>xs = x' # xs'\<close> by simp
  qed
qed simp

lemma reads_concat:
  assumes "lf_continues cfg" "\<forall>xs \<in> set xss. xs \<noteq> []"
  shows "frame_reads cfg n oct sp f xss = frame_read cfg n oct sp f (concat xss)"
  using assms(2)
proof (induction xss arbitrary: f)
  case (Cons xs xss)
  obtain f1 ts1 where 1: "frame_read cfg n oct sp f xs = (f1, ts1)"
    by (rule prod.exhaust)
  obtain f2 ts2 where 2: "frame_read cfg n oct sp f1 (concat xss) = (f2, ts2)"
    by (rule prod.exhaust)
  show ?case
  proof (cases "xss = []")
    case True
    then show ?thesis
      using 1 by simp
  next
    case False
    then have "concat xss \<noteq> []"
      using Cons.prems by (cases xss) auto
    then show ?thesis
      using read_append [OF assms(1) _ 1 2] Cons.IH [of f1] Cons.prems 1 2 by simp
  qed
qed simp

section \<open>Sessions\<close>

text \<open>A sequence of reads, each with its time; a read that fails ends the session.\<close>

fun receive ::
    "(nat \<Rightarrow> bool) \<Rightarrow> ('j smsg list \<Rightarrow> rsRetVal) \<Rightarrow> tcps_cfg \<Rightarrow> tcps_sess \<Rightarrow> (syslogTime \<times> int \<times> char list) list
      \<Rightarrow> (tcps_sess \<times> 'j smsg list) option" where
  "receive alloc flush cfg s [] = Some (s, [])"
| "receive alloc flush cfg s ((stTime, genTime, dat) # rs) = do {
     (r, s, ms) \<leftarrow> DataRcvdUncompressed alloc flush cfg stTime genTime s dat True;
     if r \<noteq> RS_RET_OK then Some (s, ms)
     else do { (s, ms') \<leftarrow> receive alloc flush cfg s rs; Some (s, ms @ ms') } }"

definition reads_data :: "(syslogTime \<times> int \<times> char list) list \<Rightarrow> char list list" where
  "reads_data rs = map (\<lambda>(_, _, dat). dat) rs"

text \<open>
  The bytes do not end the session as a TLS handshake: the detection is over, or not active for
  this listener, or the five bytes it looks at, those it has already seen included, are not
  the start of a ClientHello.
\<close>

definition client_hello :: "char list \<Rightarrow> bool" where
  "client_hello bs \<longleftrightarrow> 5 \<le> length bs \<and> isLikelyTlsClientHello (take 5 bs)"

definition probed :: "tcps_sess \<Rightarrow> char list \<Rightarrow> bool" where
  "probed s p \<longleftrightarrow> tlsProbeBytes s = length p \<and> length p \<le> 5 \<and> length (tlsProbeBuf s) = 5
     \<and> buf_read (tlsProbeBuf s) 0 (length p) = Some p"

definition tls_quiet :: "tcps_cfg \<Rightarrow> tcps_sess \<Rightarrow> char list \<Rightarrow> bool" where
  "tls_quiet cfg s bs \<longleftrightarrow> tlsProbeDone s \<or> pszOrigin cfg \<noteq> Some ''imtcp'' \<or> iDrvrMode cfg \<noteq> 0
     \<or> (\<exists>p. probed s p \<and> \<not> client_hello (p @ bs))"

definition framing :: "tcps_cfg \<Rightarrow> tcps_sess \<Rightarrow> framer \<Rightarrow> char list \<Rightarrow> framer \<times> char list list" where
  "framing cfg s = frame_read cfg (iMaxLine s) (bSuppOctetFram s) (bSPFramingFix s)"

abbreviation probe_upd :: "tcps_sess \<Rightarrow> buf \<Rightarrow> nat \<Rightarrow> bool \<Rightarrow> tcps_sess" where
  "probe_upd s b k d \<equiv> s \<lparr> tlsProbeBuf := b, tlsProbeBytes := k, tlsProbeDone := d \<rparr>"

lemma in_frame_probe [simp]: "in_frame (probe_upd s b k d) f = in_frame s f"
  by (cases f) (simp_all add: held_def)

lemma sess_conf_probe [simp]: "sess_conf s (probe_upd s b k d)"
  by (simp add: sess_conf_def)

lemma framing_conf: "sess_conf s s' \<Longrightarrow> framing cfg s' = framing cfg s"
  by (simp add: framing_def sess_conf_def)

lemma tls_probe_takes:
  assumes "probed s p"
  shows "\<exists>b. tls_probe s dat = Some (s \<lparr> tlsProbeBuf := b, tlsProbeBytes := length (take 5 (p @ dat)) \<rparr>)
    \<and> length b = 5 \<and> buf_read b 0 (length (take 5 (p @ dat))) = Some (take 5 (p @ dat))"
  using assms
proof (induction dat arbitrary: s p)
  case Nil
  then show ?case
    by (intro exI [of _ "tlsProbeBuf s"]) (simp add: probed_def)
next
  case (Cons c dat)
  have p: "tlsProbeBytes s = length p" "length p \<le> 5" "length (tlsProbeBuf s) = 5" "buf_read (tlsProbeBuf s) 0 (length p) = Some p"
    using Cons.prems by (simp_all add: probed_def)
  show ?case
  proof (cases "length p < 5")
    case True
    obtain b where b: "buf_memcpy (tlsProbeBuf s) (length p) [c] = Some b"
      using buf_memcpy_ex [of "length p" "[c]" "tlsProbeBuf s"] True p(3) by auto
    have "buf_read b 0 (length p) = Some p"
      using buf_read_memcpy_before [OF b, of 0 "length p"] p(4) by simp
    moreover have "buf_read b (0 + length p) 1 = Some [c]"
      using buf_read_memcpy_same [OF b] by simp
    ultimately have "buf_read b 0 (length p + 1) = Some (p @ [c])"
      by (rule buf_read_join)
    then have "probed (s \<lparr> tlsProbeBuf := b, tlsProbeBytes := length p + 1 \<rparr>) (p @ [c])"
      using True p(3) buf_memcpy_length [OF b] by (simp add: probed_def)
    from Cons.IH [OF this] show ?thesis
      using True p(1) b by (simp add: buf_put_as_memcpy)
  next
    case False
    then show ?thesis
      using p by (intro exI [of _ "tlsProbeBuf s"]) simp
  qed
qed

lemma detect_quiet:
  assumes "tls_quiet cfg s dat"
  shows "\<exists>b k d. maybeDetectTlsClientHello cfg s dat = Some (RS_RET_OK, probe_upd s b k d)
    \<and> (\<forall>rest. tls_quiet cfg s (dat @ rest) \<longrightarrow> tls_quiet cfg (probe_upd s b k d) rest)"
proof (cases "tlsProbeDone s \<or> pszOrigin cfg \<noteq> Some ''imtcp'' \<or> iDrvrMode cfg \<noteq> 0")
  case True
  then show ?thesis
    by (intro exI [of _ "tlsProbeBuf s"] exI [of _ "tlsProbeBytes s"] exI [of _ True])
      (auto simp: maybeDetectTlsClientHello_def tls_quiet_def)
next
  case active: False
  then obtain p where p: "probed s p" "\<not> client_hello (p @ dat)"
    using assms by (auto simp: tls_quiet_def)
  let ?p = "take 5 (p @ dat)"
  obtain b where b: "tls_probe s dat = Some (s \<lparr> tlsProbeBuf := b, tlsProbeBytes := length ?p \<rparr>)" "length b = 5"
      "buf_read b 0 (length ?p) = Some ?p"
    using tls_probe_takes [OF p(1)] by blast
  show ?thesis
  proof (cases "5 \<le> length (p @ dat)")
    case True
    then have five: "length ?p = 5" and "\<not> isLikelyTlsClientHello ?p"
      using p(2) by (simp_all add: client_hello_def)
    then have "maybeDetectTlsClientHello cfg s dat = Some (RS_RET_OK, probe_upd s b (length ?p) True)"
      using active b(1) b(3) unfolding five by (simp add: maybeDetectTlsClientHello_def)
    then show ?thesis
      by (intro exI [of _ b] exI [of _ "length ?p"] exI [of _ True]) (simp add: tls_quiet_def)
  next
    case False
    then have all: "?p = p @ dat"
      by simp
    have "maybeDetectTlsClientHello cfg s dat = Some (RS_RET_OK, probe_upd s b (length ?p) (tlsProbeDone s))"
      using active False b(1) by (simp add: maybeDetectTlsClientHello_def)
    moreover have "tls_quiet cfg (probe_upd s b (length ?p) (tlsProbeDone s)) rest" if q: "tls_quiet cfg s (dat @ rest)" for rest
    proof -
      obtain p' where p': "probed s p'" "\<not> client_hello (p' @ dat @ rest)"
        using q active by (auto simp: tls_quiet_def)
      moreover have "p' = p"
        using p(1) p'(1) by (simp add: probed_def)
      moreover have "probed (probe_upd s b (length ?p) (tlsProbeDone s)) (p @ dat)"
        using False b(2,3) unfolding all by (simp add: probed_def)
      ultimately show ?thesis
        by (auto simp: tls_quiet_def)
    qed
    ultimately show ?thesis
      by blast
  qed
qed

lemma tls_quiet_env: "sess_env s s' \<Longrightarrow> tls_quiet cfg s' = tls_quiet cfg s"
  by (intro ext) (simp add: tls_quiet_def sess_env_def probed_def)

lemma tls_quiet_prefix:
  assumes "tls_quiet cfg s (xs @ ys)"
  shows "tls_quiet cfg s xs"
proof -
  have "client_hello (p @ xs @ ys)" if "client_hello (p @ xs)" for p
    using that by (simp add: client_hello_def)
  then show ?thesis
    using assms unfolding tls_quiet_def by blast
qed

lemma detect_sim:
  assumes "tls \<longrightarrow> tls_quiet cfg s dat"
  shows "\<exists>b k d. (if tls then maybeDetectTlsClientHello cfg s dat else Some (RS_RET_OK, s)) = Some (RS_RET_OK, probe_upd s b k d)
    \<and> (\<forall>rest. tls \<longrightarrow> tls_quiet cfg s (dat @ rest) \<longrightarrow> tls_quiet cfg (probe_upd s b k d) rest)"
proof (cases tls)
  case True
  then show ?thesis
    using detect_quiet assms by simp
next
  case False
  then show ?thesis
    by (intro exI [of _ "tlsProbeBuf s"] exI [of _ "tlsProbeBytes s"] exI [of _ "tlsProbeDone s"]) simp
qed

lemma data_sim:
  assumes "in_frame s f" "\<not> bHasStartRegex cfg" "tls \<longrightarrow> tls_quiet cfg s dat" "framing cfg s f dat = (f', ts)"
  shows "\<exists>s' ms :: 'j smsg list. DataRcvdUncompressed alloc flush cfg stTime genTime s dat tls = Some (flush ms, s', ms)
    \<and> in_frame s' f' \<and> sess_conf s s' \<and> msgs_of alloc cfg stTime s ts ms
    \<and> (\<forall>rest. tls \<longrightarrow> tls_quiet cfg s (dat @ rest) \<longrightarrow> tls_quiet cfg s' rest)"
proof -
  obtain b k d s1 where s1: "s1 = probe_upd s b k d"
      "(if tls then maybeDetectTlsClientHello cfg s dat else Some (RS_RET_OK, s)) = Some (RS_RET_OK, s1)"
      "\<forall>rest. tls \<longrightarrow> tls_quiet cfg s (dat @ rest) \<longrightarrow> tls_quiet cfg s1 rest"
    using detect_sim [OF assms(3)] by blast
  have f: "in_frame s1 f" "sess_conf s s1"
    using assms(1) unfolding s1(1) by simp_all
  have "agrees alloc cfg stTime s1 (data_loop alloc cfg stTime genTime s1 dat :: (tcps_sess \<times> 'j smsg list) option) (f', ts)"
    using read_sim [OF f(1) assms(2), of alloc stTime genTime dat] assms(4) framing_conf [OF f(2), of cfg] by (simp add: framing_def)
  then obtain s' and ms :: "'j smsg list" where r: "data_loop alloc cfg stTime genTime s1 dat = Some (s', ms)" "in_frame s' f'" "sess_env s1 s'"
      "msgs_of alloc cfg stTime s1 ts ms"
    by (auto simp: agrees_def)
  then have "DataRcvdUncompressed alloc flush cfg stTime genTime s dat tls = Some (flush ms, s', ms)"
    using s1(2) by (simp add: DataRcvdUncompressed_def)
  moreover have "\<forall>rest. tls \<longrightarrow> tls_quiet cfg s (dat @ rest) \<longrightarrow> tls_quiet cfg s' rest"
    using s1(3) tls_quiet_env [OF r(3), of cfg] by simp
  ultimately show ?thesis
    using r(2,4) sess_conf_trans [OF f(2) sess_env_conf [OF r(3)]] unfolding msgs_of_conf [OF f(2)] by blast
qed

lemma msgs_of_raw:
  assumes "msgs_of alloc cfg stTime s ts ms"
  shows "map getRawMsg ms = map Some (concat (map (delivered alloc) ts))"
proof -
  have "list_all2 (\<lambda>t m. getRawMsg m = Some t) (concat (map (delivered alloc) ts)) ms"
    using assms unfolding msgs_of_def by (rule list_all2_mono) (simp add: msg_of_def getRawMsg_ok)
  then show ?thesis
    by (induction rule: list_all2_induct) simp_all
qed

lemma receive_sim:
  assumes "in_frame s f" "\<not> bHasStartRegex cfg" "tls_quiet cfg s (concat (reads_data rs))" "\<forall>ms. flush ms = RS_RET_OK"
    "frame_reads cfg (iMaxLine s) (bSuppOctetFram s) (bSPFramingFix s) f (reads_data rs) = (f', ts)"
  shows "\<exists>s' ms :: 'j smsg list. receive alloc flush cfg s rs = Some (s', ms) \<and> in_frame s' f'
    \<and> map getRawMsg ms = map Some (concat (map (delivered alloc) ts))"
  using assms
proof (induction rs arbitrary: s f ts)
  case Nil
  then show ?case
    by (simp add: reads_data_def)
next
  case (Cons r rs)
  obtain st g dat where r: "r = (st, g, dat)"
    by (cases r)
  have quiet: "tls_quiet cfg s (dat @ concat (reads_data rs))"
    using Cons.prems(3) by (simp add: reads_data_def r)
  obtain f1 ts1 where 1: "framing cfg s f dat = (f1, ts1)"
    by (rule prod.exhaust)
  obtain s1 and ms1 :: "'j smsg list" where s1: "DataRcvdUncompressed alloc flush cfg st g s dat True = Some (flush ms1, s1, ms1)"
    "in_frame s1 f1" "sess_conf s s1" "msgs_of alloc cfg st s ts1 ms1" "tls_quiet cfg s1 (concat (reads_data rs))"
    using data_sim [OF Cons.prems(1,2) _ 1, of True alloc flush st g] tls_quiet_prefix [OF quiet] quiet by blast
  obtain ts2 where 2: "frame_reads cfg (iMaxLine s1) (bSuppOctetFram s1) (bSPFramingFix s1) f1 (reads_data rs) = (f', ts2)" "ts = ts1 @ ts2"
    using Cons.prems(5) 1 r s1(3) by (simp add: reads_data_def framing_def sess_conf_def split: prod.splits)
  obtain s2 and ms2 :: "'j smsg list" where "receive alloc flush cfg s1 rs = Some (s2, ms2)" "in_frame s2 f'"
    "map getRawMsg ms2 = map Some (concat (map (delivered alloc) ts2))"
    using Cons.IH [OF s1(2) Cons.prems(2) s1(5) Cons.prems(4) 2(1)] by blast
  then show ?case
    using r s1(1) [unfolded Cons.prems(4) [rule_format, of ms1]] 2(2) msgs_of_raw [OF s1(4)] by simp
qed

lemma receive_framing:
  assumes "in_frame s f" "\<not> bHasStartRegex cfg" "tls_quiet cfg s (concat (reads_data rs))" "\<forall>ms. flush ms = RS_RET_OK"
    "lf_continues cfg" "[] \<notin> set (reads_data rs)" "framing cfg s f (concat (reads_data rs)) = (f', ts)"
  shows "\<exists>s' ms :: 'j smsg list. receive alloc flush cfg s rs = Some (s', ms) \<and> in_frame s' f'
    \<and> map getRawMsg ms = map Some (concat (map (delivered alloc) ts))"
proof (rule receive_sim [OF assms(1-4)])
  have "\<forall>xs \<in> set (reads_data rs). xs \<noteq> []"
    using assms(6) by blast
  then show "frame_reads cfg (iMaxLine s) (bSuppOctetFram s) (bSPFramingFix s) f (reads_data rs) = (f', ts)"
    using reads_concat [OF assms(5)] assms(7) by (simp add: framing_def)
qed

section \<open>What a sender frames arrives\<close>

fun wire :: "TCPFRAMINGMODE \<times> char list \<Rightarrow> char list" where
  "wire (TCP_FRAMING_OCTET_COUNTING, t) = udec (length t) @ CHR '' '' # t"
| "wire (TCP_FRAMING_OCTET_STUFFING, t) = t @ [CHR 0x0A]"

text \<open>
  The messages a listener can take: not empty, of the size of a message at most, counted only if
  the listener accepts that and up to the size of a frame, and otherwise free of delimiters
  and not starting like the count or like the space that is skipped in front of a frame.
\<close>

fun sendable :: "tcps_cfg \<Rightarrow> tcps_sess \<Rightarrow> TCPFRAMINGMODE \<times> char list \<Rightarrow> bool" where
  "sendable cfg s (TCP_FRAMING_OCTET_COUNTING, t) \<longleftrightarrow> t \<noteq> [] \<and> int (length t) \<le> iMaxLine s \<and> bSuppOctetFram s
     \<and> int (length t) \<le> maxFrameSize cfg \<and> length t \<le> 2000000009"
| "sendable cfg s (TCP_FRAMING_OCTET_STUFFING, t) \<longleftrightarrow> t \<noteq> [] \<and> int (length t) \<le> iMaxLine s \<and> \<not> bMultiLine cfg
     \<and> \<not> bDisableLFDelim cfg \<and> (\<forall>c \<in> set t. \<not> is_delim cfg c) \<and> \<not> (isdigit (hd t) \<and> bSuppOctetFram s)
     \<and> \<not> (hd t = CHR '' '' \<and> bSPFramingFix s)"

lemma udec_digits: "\<forall>d \<in> set (udec k). isdigit d"
proof (induction k rule: udec.induct)
  case (1 n)
  then show ?case
    by (subst udec.simps) (auto simp: isdigit_def digit_chr_def of_char_of)
qed

lemma udec_val: "dec_val 0 (udec k) = int k"
proof (induction k rule: udec.induct)
  case (1 n)
  have "digit_val (digit_chr (int m)) = int m" if "m < 10" for m
    using that by (simp add: digit_val_def digit_chr_def of_char_of nat_add_distrib)
  moreover have "int (n div 10) * 10 + int (n mod 10) = int n"
    by (metis div_mult_mod_eq of_nat_add of_nat_mult of_nat_numeral)
  ultimately show ?case
    using 1 by (subst udec.simps) (simp add: dec_val_append del: of_nat_div of_nat_mod)
qed

lemma udec_nonempty: "udec k \<noteq> []"
  by (subst udec.simps) simp

lemma read_digits:
  assumes "\<forall>d \<in> set ds. isdigit d" "0 \<le> v" "dec_val v ds \<le> 2000000009"
  shows "\<exists>u'. frame_read cfg n oct sp (FCount v u) (ds @ xs) = frame_read cfg n oct sp (FCount (dec_val v ds) u') xs"
  using assms
proof (induction ds arbitrary: v u)
  case (Cons d ds)
  have b: "0 \<le> digit_val d" "digit_val d \<le> 9"
    using Cons.prems(1) digit_val_bounds [of d] by simp_all
  have "v * 10 + digit_val d \<le> dec_val (v * 10 + digit_val d) ds"
    using Cons.prems b by (intro dec_val_ge) simp_all
  then have v: "v \<le> 200000000"
    using Cons.prems(3) b(1) by simp
  have "\<exists>u'. frame_read cfg n oct sp (FCount (v * 10 + digit_val d) (fill n u d)) (ds @ xs)
      = frame_read cfg n oct sp (FCount (dec_val (v * 10 + digit_val d) ds) u') xs"
    using Cons.prems b by (intro Cons.IH) simp_all
  then show ?case
    using v Cons.prems(1) by (simp add: mult.commute)
qed auto

lemma read_octets:
  "t \<noteq> [] \<Longrightarrow> int (length u) + int (length t) \<le> n \<Longrightarrow>
    frame_read cfg n oct sp (FOctets (int (length t)) u) t = (FStart, [u @ t])"
proof (induction t arbitrary: u)
  case (Cons c t)
  then show ?case
    using Cons.IH [of "u @ [c]"] by (cases "t = []") simp_all
qed simp

lemma read_line:
  "int (length u) + int (length t) \<le> n \<Longrightarrow> \<forall>c \<in> set t. \<not> is_delim cfg c \<Longrightarrow>
    frame_read cfg n oct sp (FLine u) (t @ xs) = frame_read cfg n oct sp (FLine (u @ t)) xs"
proof (induction t arbitrary: u)
  case (Cons c t)
  then show ?case
    using Cons.IH [of "u @ [c]"] by simp
qed simp

lemma read_wire:
  assumes "sendable cfg s (mode, t)"
  shows "framing cfg s FStart (wire (mode, t)) = (FStart, [t])"
proof (cases mode)
  case TCP_FRAMING_OCTET_COUNTING
  obtain d ds where d: "udec (length t) = d # ds"
    using udec_nonempty by (cases "udec (length t)") auto
  have dig: "\<forall>d \<in> set (udec (length t)). isdigit d" and val: "dec_val 0 (udec (length t)) = int (length t)"
    by (rule udec_digits, rule udec_val)
  have t: "t \<noteq> []" "int (length t) \<le> iMaxLine s" "bSuppOctetFram s" "int (length t) \<le> maxFrameSize cfg" "length t \<le> 2000000009"
    using assms TCP_FRAMING_OCTET_COUNTING by auto
  have first: "framing cfg s FStart (udec (length t) @ xs) = framing cfg s (FCount 0 []) (udec (length t) @ xs)" for xs
    using d dig t(3) by (simp add: framing_def frame_first_def)
  obtain u where "framing cfg s (FCount 0 []) (udec (length t) @ CHR '' '' # t) = framing cfg s (FCount (int (length t)) u) (CHR '' '' # t)"
    using read_digits [OF dig, of 0 cfg "iMaxLine s" "bSuppOctetFram s" "bSPFramingFix s" "[]" "CHR '' '' # t"] t(5) val
    unfolding framing_def by (auto simp del: frame_read.simps)
  moreover have "framing cfg s (FCount (int (length t)) u) (CHR '' '' # t) = framing cfg s (FOctets (int (length t)) []) t"
    using t by (simp add: framing_def)
  ultimately show ?thesis
    using TCP_FRAMING_OCTET_COUNTING first read_octets [of t "[]"] t by (simp add: framing_def)
next
  case TCP_FRAMING_OCTET_STUFFING
  have t: "t \<noteq> []" "int (length t) \<le> iMaxLine s" "\<not> bMultiLine cfg" "\<not> bDisableLFDelim cfg" "\<forall>c \<in> set t. \<not> is_delim cfg c"
    "\<not> (isdigit (hd t) \<and> bSuppOctetFram s)" "\<not> (hd t = CHR '' '' \<and> bSPFramingFix s)"
    using assms TCP_FRAMING_OCTET_STUFFING by auto
  have "framing cfg s FStart (t @ xs) = framing cfg s (FLine []) (t @ xs)" for xs
    using t(1,6,7) by (cases t) (auto simp: framing_def frame_first_def simp del: frame_body.simps)
  moreover have "framing cfg s (FLine []) (t @ [CHR 0x0A]) = framing cfg s (FLine t) [CHR 0x0A]"
    using read_line [of "[]" t] t unfolding framing_def by simp
  moreover have "framing cfg s (FLine t) [CHR 0x0A] = (FStart, [t])"
    using t by (simp add: framing_def is_delim_def emit_def)
  ultimately show ?thesis
    using TCP_FRAMING_OCTET_STUFFING by simp
qed

lemma wire_nonempty: "wire m \<noteq> []"
  by (cases m rule: wire.cases) simp_all

lemma framing_wires:
  assumes "lf_continues cfg" "\<forall>m \<in> set ms. sendable cfg s m"
  shows "framing cfg s FStart (concat (map wire ms)) = (FStart, map snd ms)"
proof -
  have "frame_reads cfg (iMaxLine s) (bSuppOctetFram s) (bSPFramingFix s) FStart (map wire ms) = (FStart, map snd ms)"
    using assms(2)
  proof (induction ms)
    case (Cons m ms)
    then show ?case
      using read_wire [of cfg s "fst m" "snd m"] by (simp add: framing_def)
  qed simp
  moreover have "\<forall>xs \<in> set (map wire ms). xs \<noteq> []"
    using wire_nonempty by auto
  ultimately show ?thesis
    using reads_concat [OF assms(1)] by (simp add: framing_def)
qed

lemma delivered_all: "\<forall>n. alloc n \<Longrightarrow> concat (map (delivered alloc) ts) = ts"
  by (induction ts) (simp_all add: delivered_def)

section \<open>The start of a frame is reached again\<close>

text \<open>The states along an endless input, without multi-line messages and with the line feed as a delimiter.\<close>

fun octets_left :: "framer \<Rightarrow> nat" where
  "octets_left (FOctets k t) = nat k"
| "octets_left (FSkipOctets k) = nat k"
| "octets_left f = 0"

fun in_octets :: "framer \<Rightarrow> bool" where
  "in_octets (FOctets k t) = True"
| "in_octets (FSkipOctets k) = True"
| "in_octets f = False"

fun in_line :: "framer \<Rightarrow> bool" where
  "in_line (FLine t) = True"
| "in_line FSkipLine = True"
| "in_line f = False"

lemma octets_step: "in_octets f \<Longrightarrow> (f', ts) = frame_byte cfg n oct sp f c nxt \<Longrightarrow>
    f' = FStart \<or> in_octets f' \<and> octets_left f' < octets_left f"
  by (cases f) (auto split: if_splits)

lemma line_step: "in_line f \<Longrightarrow> \<not> bMultiLine cfg \<Longrightarrow> (f', ts) = frame_byte cfg n oct sp f c nxt \<Longrightarrow>
    f' = FStart \<or> in_line f' \<and> \<not> is_delim cfg c"
  by (cases f) (auto split: if_splits)

lemma count_step: "(f', ts) = frame_byte cfg n oct sp (FCount v t) c nxt \<Longrightarrow>
    in_octets f' \<or> in_line f' \<or> isdigit c \<and> (\<exists>v t. f' = FCount v t)"
  by (auto split: if_splits)

lemma body_no_wait: "\<not> bMultiLine cfg \<Longrightarrow> f \<noteq> FLineEnd t \<Longrightarrow> fst (frame_body cfg n f c nxt) \<noteq> FLineEnd t"
  by (cases f) auto

lemma byte_no_wait: "\<not> bMultiLine cfg \<Longrightarrow> (f', ts) = frame_byte cfg n oct sp f c nxt \<Longrightarrow> f' \<noteq> FLineEnd t"
proof -
  assume a: "\<not> bMultiLine cfg" and f': "(f', ts) = frame_byte cfg n oct sp f c nxt"
  have "fst (frame_first cfg n oct sp c nxt) \<noteq> FLineEnd t"
    using body_no_wait [OF a, of _ t n c nxt] by (simp add: frame_first_def del: frame_body.simps)
  then have "fst (frame_byte cfg n oct sp f c nxt) \<noteq> FLineEnd t"
    using body_no_wait [OF a, of _ t n c nxt] by (cases f) (auto simp del: frame_body.simps)
  then show ?thesis
    using f' by (metis fst_conv)
qed

text \<open>The state after each number of bytes.\<close>

definition frame_states :: "tcps_cfg \<Rightarrow> tcps_sess \<Rightarrow> framer \<Rightarrow> (nat \<Rightarrow> char) \<Rightarrow> nat \<Rightarrow> framer" where
  "frame_states cfg s f inp n = fst (framing cfg s f (map inp [0..<n]))"

lemma frame_states_Suc:
  assumes "\<not> bMultiLine cfg"
  obtains ts where "(frame_states cfg s f inp (Suc n), ts)
    = frame_byte cfg (iMaxLine s) (bSuppOctetFram s) (bSPFramingFix s) (frame_states cfg s f inp n) (inp n) None"
proof -
  let ?b = "frame_byte cfg (iMaxLine s) (bSuppOctetFram s) (bSPFramingFix s) (frame_states cfg s f inp n) (inp n) None"
  obtain f1 ts1 where 1: "framing cfg s f (map inp [0..<n]) = (f1, ts1)"
    by (rule prod.exhaust)
  obtain f2 ts2 where 2: "framing cfg s f1 [inp n] = (f2, ts2)"
    by (rule prod.exhaust)
  have "framing cfg s f (map inp [0..<n] @ [inp n]) = (f2, ts1 @ ts2)"
    unfolding framing_def
    by (rule read_append [OF _ _ 1 [unfolded framing_def] 2 [unfolded framing_def]]) (simp_all add: lf_continues_def assms)
  then have "(frame_states cfg s f inp (Suc n), ts2) = ?b"
    using 1 2 by (simp add: frame_states_def framing_def split: prod.splits)
  then show thesis
    by (rule that)
qed

definition restarts :: "tcps_cfg \<Rightarrow> tcps_sess \<Rightarrow> framer \<Rightarrow> (nat \<Rightarrow> char) \<Rightarrow> nat \<Rightarrow> bool" where
  "restarts cfg s f inp n \<longleftrightarrow> (\<exists>m\<ge>n. frame_states cfg s f inp m = FStart)"

lemma restarts_now: "frame_states cfg s f inp n = FStart \<Longrightarrow> restarts cfg s f inp n"
  by (auto simp: restarts_def)

lemma restarts_Suc: "restarts cfg s f inp (Suc n) \<Longrightarrow> restarts cfg s f inp n"
  unfolding restarts_def by (meson Suc_leD)

lemma octets_finish:
  assumes "\<not> bMultiLine cfg"
  shows "in_octets (frame_states cfg s f inp n) \<Longrightarrow> restarts cfg s f inp n"
proof (induction "octets_left (frame_states cfg s f inp n)" arbitrary: n rule: less_induct)
  case less
  obtain ts where "(frame_states cfg s f inp (Suc n), ts)
      = frame_byte cfg (iMaxLine s) (bSuppOctetFram s) (bSPFramingFix s) (frame_states cfg s f inp n) (inp n) None"
    by (rule frame_states_Suc [OF assms])
  from octets_step [OF less.prems this] have "restarts cfg s f inp (Suc n)"
    using less.hyps [of "Suc n"] restarts_now [of cfg s f inp "Suc n"] by blast
  then show ?case
    by (rule restarts_Suc)
qed

lemma line_finish:
  assumes "\<not> bMultiLine cfg"
  shows "in_line (frame_states cfg s f inp n) \<Longrightarrow> is_delim cfg (inp (n + d)) \<Longrightarrow> restarts cfg s f inp n"
proof (induction d arbitrary: n)
  case (0 n)
  obtain ts where "(frame_states cfg s f inp (Suc n), ts)
      = frame_byte cfg (iMaxLine s) (bSuppOctetFram s) (bSPFramingFix s) (frame_states cfg s f inp n) (inp n) None"
    by (rule frame_states_Suc [OF assms])
  from line_step [OF 0(1) assms this] have "frame_states cfg s f inp (Suc n) = FStart"
    using 0(2) by simp
  then show ?case
    by (rule restarts_Suc [OF restarts_now])
next
  case (Suc d n)
  obtain ts where "(frame_states cfg s f inp (Suc n), ts)
      = frame_byte cfg (iMaxLine s) (bSuppOctetFram s) (bSPFramingFix s) (frame_states cfg s f inp n) (inp n) None"
    by (rule frame_states_Suc [OF assms])
  from line_step [OF Suc.prems(1) assms this] have "restarts cfg s f inp (Suc n)"
  proof
    assume "frame_states cfg s f inp (Suc n) = FStart"
    then show ?thesis
      by (rule restarts_now)
  next
    assume "in_line (frame_states cfg s f inp (Suc n)) \<and> \<not> is_delim cfg (inp n)"
    then show ?thesis
      using Suc.prems(2) by (intro Suc.IH) simp_all
  qed
  then show ?case
    by (rule restarts_Suc)
qed

lemma body_finish:
  assumes "\<not> bMultiLine cfg" and lf: "\<And>n. \<exists>d. is_delim cfg (inp (n + d))"
    and "in_octets (frame_states cfg s f inp n) \<or> in_line (frame_states cfg s f inp n)"
  shows "restarts cfg s f inp n"
proof -
  obtain d where "is_delim cfg (inp (n + d))"
    using lf by blast
  then show ?thesis
    using assms(3) line_finish [OF assms(1), of s f inp n d] octets_finish [OF assms(1), of s f inp n] by blast
qed

lemma count_finish:
  assumes "\<not> bMultiLine cfg" and lf: "\<And>n. \<exists>d. is_delim cfg (inp (n + d))"
  shows "frame_states cfg s f inp n = FCount v t \<Longrightarrow> \<not> isdigit (inp (n + d)) \<Longrightarrow> restarts cfg s f inp n"
proof (induction d arbitrary: n v t)
  case (0 n v t)
  obtain ts where "(frame_states cfg s f inp (Suc n), ts)
      = frame_byte cfg (iMaxLine s) (bSuppOctetFram s) (bSPFramingFix s) (FCount v t) (inp n) None"
    using frame_states_Suc [OF assms(1), of s f inp n] 0(1) by auto
  from count_step [OF this] have "restarts cfg s f inp (Suc n)"
    using 0(2) body_finish [OF assms] by simp
  then show ?case
    by (rule restarts_Suc)
next
  case (Suc d n v t)
  obtain ts where "(frame_states cfg s f inp (Suc n), ts)
      = frame_byte cfg (iMaxLine s) (bSuppOctetFram s) (bSPFramingFix s) (FCount v t) (inp n) None"
    using frame_states_Suc [OF assms(1), of s f inp n] Suc.prems(1) by auto
  from count_step [OF this] have "restarts cfg s f inp (Suc n)"
    using body_finish [OF assms, of s f "Suc n"] Suc.IH [of "Suc n"] Suc.prems(2) by auto
  then show ?case
    by (rule restarts_Suc)
qed

lemma lf_nodigit: "\<not> isdigit (CHR 0x0A)"
  by (simp add: isdigit_def)

lemma start_again:
  assumes "\<not> bMultiLine cfg" "\<not> bDisableLFDelim cfg" and lf: "\<And>n. \<exists>m\<ge>n. inp m = CHR 0x0A"
  shows "restarts cfg s f inp n"
proof -
  have at: "\<exists>d. inp (n + d) = CHR 0x0A" for n
    using lf [of n] le_Suc_ex by blast
  have delim: "\<exists>d. is_delim cfg (inp (n + d))" for n
    using at [of n] assms(2) by (auto simp: is_delim_def)
  have nodigit: "\<exists>d. \<not> isdigit (inp (n + d))" for n
    using at [of n] lf_nodigit by metis
  have main: "restarts cfg s f inp n" if no: "\<And>t. frame_states cfg s f inp n \<noteq> FLineEnd t" for n
  proof (cases "frame_states cfg s f inp n")
    case FStart
    then show ?thesis
      by (rule restarts_now)
  next
    case (FCount v t)
    then show ?thesis
      using nodigit [of n] by (elim exE) (rule count_finish [OF assms(1) delim FCount])
  qed (use no body_finish [OF assms(1) delim, of s f n] in auto)
  obtain ts where "(frame_states cfg s f inp (Suc n), ts)
      = frame_byte cfg (iMaxLine s) (bSuppOctetFram s) (bSPFramingFix s) (frame_states cfg s f inp n) (inp n) None"
    by (rule frame_states_Suc [OF assms(1)])
  then have "frame_states cfg s f inp (Suc n) \<noteq> FLineEnd t" for t
    using byte_no_wait [OF assms(1)] by metis
  then show ?thesis
    by (rule restarts_Suc [OF main])
qed

section \<open>Framing by a regular expression\<close>

text \<open>
  The lines of the message so far, and the line being received. When the start of this line
  matches, the lines before it are a message; the line feed in front of it is dropped.
\<close>

fun regex_byte :: "(char list \<Rightarrow> bool) \<Rightarrow> int \<Rightarrow> char list \<times> char list \<Rightarrow> char \<Rightarrow> (char list \<times> char list) \<times> char list list" where
  "regex_byte match n (p, l) c =
     (let (ts, p, l) = (if 2 * n \<le> int (length (p @ l)) then (emit (p @ l), [], []) else ([], p, l)) in
      if c = CHR 0x0A then ((p @ l @ [c], []), ts)
      else if p \<noteq> [] \<and> match (takeWhile (\<lambda>c. c \<noteq> NUL) (l @ [c])) then (([], l @ [c]), ts @ emit (butlast p))
      else ((p, l @ [c]), ts))"

fun regex_read :: "(char list \<Rightarrow> bool) \<Rightarrow> int \<Rightarrow> char list \<times> char list \<Rightarrow> char list \<Rightarrow> (char list \<times> char list) \<times> char list list" where
  "regex_read match n q [] = (q, [])"
| "regex_read match n q (c # cs) =
     (let (q, ts) = regex_byte match n q c; (q, ts') = regex_read match n q cs in (q, ts @ ts'))"

fun in_regex :: "tcps_sess \<Rightarrow> char list \<times> char list \<Rightarrow> bool" where
  "in_regex s (p, l) \<longleftrightarrow> inputState s = eAtStrtFram \<and> iMsg s = int (length (p @ l)) \<and> iCurrLine s = int (length p)
     \<and> int (length (p @ l)) \<le> 2 * iMaxLine s \<and> buf_read (pMsg s) 0 (length (p @ l)) = Some (p @ l)
     \<and> length (pMsg s) = nat (iMaxLine s) * 2 + 1 \<and> (\<exists>b. pMsg_save s = Some b \<and> length b = nat (iMaxLine s) * 2 + 1)
     \<and> 0 < iMaxLine s \<and> 2 * iMaxLine s < 2 ^ 31 - 1"

definition regex_agrees ::
    "(nat \<Rightarrow> bool) \<Rightarrow> tcps_cfg \<Rightarrow> syslogTime \<Rightarrow> tcps_sess \<Rightarrow> (tcps_sess \<times> 'j smsg list) option \<Rightarrow> (char list \<times> char list) \<times> char list list \<Rightarrow> bool" where
  "regex_agrees alloc cfg stTime s r F \<longleftrightarrow> (\<exists>s' ms. r = Some (s', ms) \<and> in_regex s' (fst F) \<and> sess_env s s'
     \<and> msgs_of alloc cfg stTime s (snd F) ms)"

text \<open>Writing the byte with a terminator behind it.\<close>

lemma put_terminated:
  assumes "buf_read b 0 (length t) = Some t" "length t + 1 < length b"
  shows "\<exists>b1 b2. buf_put b (length t) c = Some b1 \<and> buf_put b1 (length t + 1) NUL = Some b2
    \<and> length b2 = length b \<and> buf_read b2 0 (length t + 2) = Some (t @ [c, NUL])"
proof -
  obtain b1 where b1: "buf_memcpy b (length t) [c] = Some b1"
    using buf_memcpy_ex [of "length t" "[c]" b] assms(2) by auto
  obtain b2 where b2: "buf_memcpy b1 (length t + 1) [NUL] = Some b2"
    using buf_memcpy_ex [of "length t + 1" "[NUL]" b1] assms(2) buf_memcpy_length [OF b1] by auto
  have "buf_memcpy b (length t) ([c] @ [NUL]) = Some b2"
    using buf_memcpy_twice [OF b1, of "[NUL]"] b2 by simp
  then have m: "buf_memcpy b (length t) [c, NUL] = Some b2"
    by simp
  have "buf_read b2 0 (length t) = Some t"
    using buf_read_memcpy_before [OF m, of 0 "length t"] assms(1) by simp
  moreover have "buf_read b2 (0 + length t) 2 = Some [c, NUL]"
    using buf_read_memcpy_same [OF m, of 2] by simp
  ultimately have "buf_read b2 0 (length t + 2) = Some (t @ [c, NUL])"
    by (rule buf_read_join)
  then show ?thesis
    using b1 b2 buf_memcpy_length [OF m] by (auto simp: buf_put_as_memcpy)
qed

lemma buf_sz_terminated:
  assumes "buf_read b 0 (length (p @ l) + 1) = Some (p @ l @ [NUL])"
  shows "buf_sz (drop (length p) b) = Some (takeWhile (\<lambda>c. c \<noteq> NUL) l)"
proof -
  have "buf_read b (0 + length p) (length l + 1) = Some (take (length l + 1) (drop (length p) (p @ l @ [NUL])))"
    by (rule buf_read_part [OF assms]) simp
  then have r: "buf_read b (length p) (length l + 1) = Some (l @ [NUL])"
    by simp
  then have t: "take (length l + 1) (drop (length p) b) = map Some (l @ [NUL])" and le: "length p + (length l + 1) \<le> length b"
    by (simp_all add: buf_read_Some_iff)
  have "take (length l) (take (length l + 1) (drop (length p) b)) = map Some l"
    unfolding t by simp
  moreover have "take (length l + 1) (drop (length p) b) ! length l = Some NUL"
    unfolding t by (simp add: nth_append)
  ultimately have "take (length l) (drop (length p) b) = map Some l" "drop (length p) b ! length l = Some NUL"
    by simp_all
  then show ?thesis
    using buf_sz_prefix [of "length l" "drop (length p) b" l] le by simp
qed

lemma regex_full_sim:
  assumes "in_regex s (p, l)"
  shows "\<exists>s' p' l' ts ms. regex_full alloc cfg stTime genTime s = Some (s', ms :: 'j smsg list) \<and> in_regex s' (p', l')
    \<and> int (length (p' @ l')) < 2 * iMaxLine s' \<and> sess_env s s' \<and> msgs_of alloc cfg stTime s ts ms
    \<and> (if 2 * iMaxLine s \<le> int (length (p @ l)) then (emit (p @ l), [], []) else ([], p, l)) = (ts, p', l')"
proof (cases "2 * iMaxLine s \<le> int (length (p @ l))")
  case True
  have "iMsg s = int (length (p @ l))" "buf_read (pMsg s) 0 (length (p @ l)) = Some (p @ l)" "int (length (p @ l)) < 2 ^ 31 - 1"
    using assms by simp_all
  from submit_text [OF this] obtain ms :: "'j smsg list"
    where "defaultDoSubmitMessage alloc cfg stTime genTime s = Some (s \<lparr> iMsg := 0, bFrameOversize := False \<rparr>, ms)"
      "msgs_of alloc cfg stTime s (emit (p @ l)) ms"
    by blast
  then show ?thesis
    using True assms by (simp add: regex_full_def buf_read_def sess_env_def)
next
  case False
  then show ?thesis
    using assms by (simp add: regex_full_def)
qed

text \<open>The line being received becomes the start of the next message.\<close>

lemma regex_match_sim:
  assumes s: "iMsg s = int (length (p @ l))" "iCurrLine s = int (length p)" "p \<noteq> []" "int (length (p @ l)) \<le> 2 * iMaxLine s"
    and b: "buf_read (pMsg s) 0 (length (p @ l)) = Some (p @ l)" "length (pMsg s) = nat (iMaxLine s) * 2 + 1"
    and sv: "pMsg_save s = Some sv" "length sv = nat (iMaxLine s) * 2 + 1"
    and n: "0 < iMaxLine s" "2 * iMaxLine s < 2 ^ 31 - 1" and st: "inputState s = eAtStrtFram"
  shows "regex_agrees alloc cfg stTime s (regex_match alloc cfg stTime genTime s :: (tcps_sess \<times> 'j smsg list) option) (([], l), emit (butlast p))"
proof -
  have le: "length p + length l \<le> nat (iMaxLine s) * 2"
    using s(4) n by simp
  have saved: "buf_read (pMsg s) (length p) (length l) = Some l"
    using buf_read_part [OF b(1), of "length p" "length l"] by simp
  obtain v where v: "buf_memcpy sv 0 l = Some v"
    using buf_memcpy_ex [of 0 l sv] le sv(2) by auto
  obtain w where w: "buf_memcpy v (length l) [NUL] = Some w"
    using buf_memcpy_ex [of "length l" "[NUL]" v] le sv(2) buf_memcpy_length [OF v] by auto
  have lw: "length w = nat (iMaxLine s) * 2 + 1"
    using buf_memcpy_length [OF v] buf_memcpy_length [OF w] sv(2) by simp
  have "buf_read w 0 (length l) = Some l"
    using buf_read_memcpy_before [OF w, of 0 "length l"] buf_read_memcpy_same [OF v] by simp
  moreover have "buf_read w (0 + length l) 1 = Some [NUL]"
    using buf_read_memcpy_same [OF w] by simp
  ultimately have rw: "buf_read w 0 (length l + 1) = Some (l @ [NUL])"
    by (rule buf_read_join)
  let ?s = "s \<lparr> iMsg := int (length p) - 1, pMsg_save := Some w \<rparr>"
  have "buf_read (pMsg s) (0 + 0) (length p - 1) = Some (take (length p - 1) (drop 0 (p @ l)))"
    by (rule buf_read_part [OF b(1)]) simp
  then have "iMsg ?s = int (length (butlast p))" "buf_read (pMsg ?s) 0 (length (butlast p)) = Some (butlast p)"
    "int (length (butlast p)) < 2 ^ 31 - 1"
    using s(3,4) n by (simp_all add: butlast_conv_take of_nat_diff Suc_le_eq)
  from submit_text [OF this] obtain ms :: "'j smsg list"
    where sub: "defaultDoSubmitMessage alloc cfg stTime genTime ?s = Some (?s \<lparr> iMsg := 0, bFrameOversize := False \<rparr>, ms)"
      "msgs_of alloc cfg stTime ?s (emit (butlast p)) ms"
    by blast
  obtain b2 where b2: "buf_memcpy (pMsg s) 0 (l @ [NUL]) = Some b2"
    using buf_memcpy_ex [of 0 "l @ [NUL]" "pMsg s"] le b(2) by auto
  have "buf_read b2 0 (length l + 1) = Some (l @ [NUL])"
    using buf_read_memcpy_same [OF b2] by simp
  then have "buf_read b2 (0 + 0) (length l) = Some (take (length l) (drop 0 (l @ [NUL])))"
    by (rule buf_read_part) simp
  then show ?thesis
    using s sv st saved v w rw sub b2 lw le n b(2) buf_memcpy_length [OF b2] msgs_of_env [of s ?s, where ?'a = 'j]
    by (simp add: regex_match_def regex_agrees_def Let_def buf_put_as_memcpy sess_env_def)
qed

lemma regex_agrees_env: "regex_agrees alloc cfg stTime s r F \<Longrightarrow> sess_env s0 s \<Longrightarrow> regex_agrees alloc cfg stTime s0 r F"
  by (auto simp: regex_agrees_def msgs_of_env intro: sess_env_trans)

lemma regex_agrees_prepend:
  "regex_agrees alloc cfg stTime s r (q, ts') \<Longrightarrow> msgs_of alloc cfg stTime s ts ms \<Longrightarrow>
    regex_agrees alloc cfg stTime s (do { (s, ms') \<leftarrow> r; Some (s, ms @ ms') }) (q, ts @ ts')"
  by (auto simp: regex_agrees_def msgs_of_append)

lemma regex_sim:
  assumes s: "in_regex s q" and rx: "bHasStartRegex cfg"
  shows "regex_agrees alloc cfg stTime s (processDataRcvd alloc cfg stTime genTime s c nxt :: (tcps_sess \<times> 'j smsg list) option)
    (regex_byte (start_preg cfg) (iMaxLine s) q c)"
proof -
  obtain p0 l0 where q: "q = (p0, l0)"
    by (cases q)
  obtain s1 p l ts and ms :: "'j smsg list" where f: "regex_full alloc cfg stTime genTime s = Some (s1, ms)" "in_regex s1 (p, l)"
      "int (length (p @ l)) < 2 * iMaxLine s1" "sess_env s s1" "msgs_of alloc cfg stTime s ts ms"
      "(if 2 * iMaxLine s \<le> int (length (p0 @ l0)) then (emit (p0 @ l0), [], []) else ([], p0, l0)) = (ts, p, l)"
    using regex_full_sim [of s p0 l0] s q by blast
  have r: "iMsg s1 = int (length (p @ l))" "iCurrLine s1 = int (length p)" "buf_read (pMsg s1) 0 (length (p @ l)) = Some (p @ l)"
      "length (pMsg s1) = nat (iMaxLine s1) * 2 + 1" "inputState s1 = eAtStrtFram" "0 < iMaxLine s1" "2 * iMaxLine s1 < 2 ^ 31 - 1"
      "iMaxLine s1 = iMaxLine s"
    using f(2,4) by (simp_all add: sess_env_def)
  obtain sv where sv: "pMsg_save s1 = Some sv" "length sv = nat (iMaxLine s1) * 2 + 1"
    using f(2) by auto
  have "length (p @ l) + 1 < length (pMsg s1)"
    using f(3) r(4) by linarith
  from put_terminated [OF r(3) this, of c] obtain b1 b2 where b: "buf_put (pMsg s1) (length (p @ l)) c = Some b1"
      "buf_put b1 (length (p @ l) + 1) NUL = Some b2" "length b2 = length (pMsg s1)"
      "buf_read b2 0 (length (p @ l) + 2) = Some ((p @ l) @ [c, NUL])"
    by blast
  let ?s = "s1 \<lparr> iMsg := int (length (p @ l)) + 1, pMsg := b2 \<rparr>"
  have rd: "buf_read b2 0 (length (p @ l @ [c])) = Some (p @ l @ [c])"
    using buf_read_part [OF b(4), of 0 "length (p @ l) + 1"] by simp
  have line: "buf_sz (drop (length p) b2) = Some (takeWhile (\<lambda>c. c \<noteq> NUL) (l @ [c]))"
    using b(4) by (intro buf_sz_terminated) simp
  have step: "processDataRcvd alloc cfg stTime genTime s c nxt =
      (if c = CHR 0x0A then Some (?s \<lparr> iCurrLine := iMsg ?s \<rparr>, ms)
       else if p \<noteq> [] \<and> start_preg cfg (takeWhile (\<lambda>c. c \<noteq> NUL) (l @ [c]))
       then do { (s, ms') \<leftarrow> regex_match alloc cfg stTime genTime ?s; Some (s, ms @ ms') }
       else Some (?s, ms))"
  proof -
    have st: "sess_store s1 c = Some (s1 \<lparr> pMsg := b1, iMsg := int (length (p @ l)) + 1 \<rparr>)"
      using r(1) b(1) by (simp add: sess_store_def del: length_append)
    have "nat (int (length (p @ l)) + 1) = length (p @ l) + 1"
      by simp
    then show ?thesis
      unfolding processDataRcvd_def processDataRcvd_regexFraming_def
      using rx f(1) st b(2) line r(2) by (simp add: Let_def del: takeWhile_append length_append)
  qed
  have F: "regex_byte (start_preg cfg) (iMaxLine s) q c =
      (if c = CHR 0x0A then ((p @ l @ [c], []), ts)
       else if p \<noteq> [] \<and> start_preg cfg (takeWhile (\<lambda>c. c \<noteq> NUL) (l @ [c])) then (([], l @ [c]), ts @ emit (butlast p))
       else ((p, l @ [c]), ts))"
    using f(6) q by simp
  have le: "int (length (p @ l @ [c])) \<le> 2 * iMaxLine ?s"
    using f(3) by simp
  have m: "regex_agrees alloc cfg stTime ?s (regex_match alloc cfg stTime genTime ?s :: (tcps_sess \<times> 'j smsg list) option)
      (([], l @ [c]), emit (butlast p))" if "p \<noteq> []"
    by (rule regex_match_sim [where sv = sv, OF _ _ that le]) (use r sv b(3) rd in simp_all)
  have e: "sess_env s ?s"
    using f(4) by simp
  have "regex_agrees alloc cfg stTime s (Some (?s \<lparr> iCurrLine := iMsg ?s \<rparr>, ms)) ((p @ l @ [c], []), ts)"
    "regex_agrees alloc cfg stTime s (Some (?s, ms)) ((p, l @ [c]), ts)"
    using r sv b(3) rd le e f(5) by (simp_all add: sess_env_def regex_agrees_def)
  then show ?thesis
    using regex_agrees_prepend [OF regex_agrees_env [OF m e] f(5)] unfolding step F by presburger
qed

lemma regex_read_sim:
  assumes "in_regex s q" "bHasStartRegex cfg"
  shows "regex_agrees alloc cfg stTime s (data_loop alloc cfg stTime genTime s cs :: (tcps_sess \<times> 'j smsg list) option)
    (regex_read (start_preg cfg) (iMaxLine s) q cs)"
  using assms
proof (induction cs arbitrary: s q)
  case Nil
  then show ?case
    by (simp add: regex_agrees_def)
next
  case (Cons c cs)
  let ?nxt = "case cs of [] \<Rightarrow> None | d # _ \<Rightarrow> Some d"
  obtain q1 ts1 where F1: "regex_byte (start_preg cfg) (iMaxLine s) q c = (q1, ts1)"
    by (rule prod.exhaust)
  obtain q2 ts2 where F2: "regex_read (start_preg cfg) (iMaxLine s) q1 cs = (q2, ts2)"
    by (rule prod.exhaust)
  obtain s1 and ms1 :: "'j smsg list" where 1: "processDataRcvd alloc cfg stTime genTime s c ?nxt = Some (s1, ms1)" "in_regex s1 q1"
      "sess_env s s1" "msgs_of alloc cfg stTime s ts1 ms1"
    using regex_sim [OF Cons.prems, of alloc stTime genTime c ?nxt, where ?'j = 'j] F1 by (auto simp: regex_agrees_def)
  obtain s2 and ms2 :: "'j smsg list" where "data_loop alloc cfg stTime genTime s1 cs = Some (s2, ms2)" "in_regex s2 q2"
      "sess_env s1 s2" "msgs_of alloc cfg stTime s1 ts2 ms2"
    using Cons.IH [OF 1(2) Cons.prems(2)] 1(3) F2 by (auto simp: regex_agrees_def sess_env_def)
  then show ?case
    using 1 F1 F2 sess_env_trans [OF 1(3)] by (simp add: regex_agrees_def msgs_of_env [OF 1(3)] msgs_of_append)
qed

lemma in_regex_probe [simp]: "in_regex (probe_upd s b k d) q = in_regex s q"
  by (cases q) simp

lemma regex_data_sim:
  assumes "in_regex s q" "bHasStartRegex cfg" "tls_quiet cfg s dat" "regex_read (start_preg cfg) (iMaxLine s) q dat = (q', ts)"
  shows "\<exists>s' ms :: 'j smsg list. DataRcvdUncompressed alloc flush cfg stTime genTime s dat True = Some (flush ms, s', ms)
    \<and> in_regex s' q' \<and> sess_conf s s' \<and> msgs_of alloc cfg stTime s ts ms
    \<and> (\<forall>rest. tls_quiet cfg s (dat @ rest) \<longrightarrow> tls_quiet cfg s' rest)"
proof -
  obtain b k d s1 where s1: "s1 = probe_upd s b k d" "maybeDetectTlsClientHello cfg s dat = Some (RS_RET_OK, s1)"
      "\<forall>rest. tls_quiet cfg s (dat @ rest) \<longrightarrow> tls_quiet cfg s1 rest"
    using detect_quiet [OF assms(3)] by blast
  have f: "in_regex s1 q" "sess_conf s s1"
    using assms(1) unfolding s1(1) by simp_all
  have "regex_agrees alloc cfg stTime s1 (data_loop alloc cfg stTime genTime s1 dat :: (tcps_sess \<times> 'j smsg list) option) (q', ts)"
    using regex_read_sim [OF f(1) assms(2), of alloc stTime genTime dat] assms(4) f(2) by (simp add: sess_conf_def)
  then obtain s' and ms :: "'j smsg list" where r: "data_loop alloc cfg stTime genTime s1 dat = Some (s', ms)" "in_regex s' q'" "sess_env s1 s'"
      "msgs_of alloc cfg stTime s1 ts ms"
    by (auto simp: regex_agrees_def)
  then have "DataRcvdUncompressed alloc flush cfg stTime genTime s dat True = Some (flush ms, s', ms)"
    using s1(2) by (simp add: DataRcvdUncompressed_def)
  moreover have "\<forall>rest. tls_quiet cfg s (dat @ rest) \<longrightarrow> tls_quiet cfg s' rest"
    using s1(3) tls_quiet_env [OF r(3), of cfg] by simp
  ultimately show ?thesis
    using r(2,4) sess_conf_trans [OF f(2) sess_env_conf [OF r(3)]] unfolding msgs_of_conf [OF f(2)] by blast
qed

lemma regex_read_append: "regex_read match n q (xs @ ys) =
    (let (q, ts) = regex_read match n q xs; (q, ts') = regex_read match n q ys in (q, ts @ ts'))"
  by (induction xs arbitrary: q) (simp_all split: prod.split)

lemma regex_receive_sim:
  assumes "in_regex s q" "bHasStartRegex cfg" "tls_quiet cfg s (concat (reads_data rs))" "\<forall>ms. flush ms = RS_RET_OK"
    "regex_read (start_preg cfg) (iMaxLine s) q (concat (reads_data rs)) = (q', ts)"
  shows "\<exists>s' ms :: 'j smsg list. receive alloc flush cfg s rs = Some (s', ms) \<and> in_regex s' q'
    \<and> map getRawMsg ms = map Some (concat (map (delivered alloc) ts))"
  using assms
proof (induction rs arbitrary: s q ts)
  case Nil
  then show ?case
    by (simp add: reads_data_def)
next
  case (Cons r rs)
  obtain st g dat where r: "r = (st, g, dat)"
    by (cases r)
  have quiet: "tls_quiet cfg s (dat @ concat (reads_data rs))"
    using Cons.prems(3) by (simp add: reads_data_def r)
  obtain q1 ts1 where 1: "regex_read (start_preg cfg) (iMaxLine s) q dat = (q1, ts1)"
    by (rule prod.exhaust)
  obtain s1 and ms1 :: "'j smsg list" where s1: "DataRcvdUncompressed alloc flush cfg st g s dat True = Some (flush ms1, s1, ms1)"
    "in_regex s1 q1" "sess_conf s s1" "msgs_of alloc cfg st s ts1 ms1" "tls_quiet cfg s1 (concat (reads_data rs))"
    using regex_data_sim [OF Cons.prems(1,2) tls_quiet_prefix [OF quiet] 1, of alloc flush st g] quiet by blast
  obtain ts2 where 2: "regex_read (start_preg cfg) (iMaxLine s1) q1 (concat (reads_data rs)) = (q', ts2)" "ts = ts1 @ ts2"
    using Cons.prems(5) 1 r s1(3) regex_read_append [of "start_preg cfg" "iMaxLine s" q dat "concat (reads_data rs)"]
    by (simp add: reads_data_def sess_conf_def split: prod.splits)
  obtain s2 and ms2 :: "'j smsg list" where "receive alloc flush cfg s1 rs = Some (s2, ms2)" "in_regex s2 q'"
    "map getRawMsg ms2 = map Some (concat (map (delivered alloc) ts2))"
    using Cons.IH [OF s1(2) Cons.prems(2) s1(5) Cons.prems(4) 2(1)] by blast
  then show ?case
    using r s1(1) [unfolded Cons.prems(4) [rule_format, of ms1]] 2(2) msgs_of_raw [OF s1(4)] by simp
qed

section \<open>Properties\<close>

text \<open>A new session is at the start of a frame, in either mode.\<close>

lemma new_session:
  assumes "tcps_sessConstruct alloc n = (RS_RET_OK, Some s)" "0 < n" "n < 2 ^ 31 - 1"
  shows "in_frame (SetLstnInfo s oct sp) FStart"
  using assms by (auto simp: tcps_sessConstruct_def SetLstnInfo_def held_def buf_read_def buf_new_def split: if_splits)

lemma new_regex_session:
  assumes "tcps_sessConstruct alloc n = (RS_RET_OK, Some s)" "0 < n" "tcps_sessConstructFinalize realloc_ok alloc' fin cfg (SetLstnInfo s oct sp) = (RS_RET_OK, s')"
    "bHasStartRegex cfg"
  shows "in_regex s' ([], [])"
  using assms
  by (auto simp: tcps_sessConstruct_def tcps_sessConstructFinalize_def SetLstnInfo_def buf_read_def buf_new_def buf_realloc_def Let_def
      split: if_splits option.splits)

lemma new_quiet:
  assumes "tcps_sessConstruct alloc n = (RS_RET_OK, Some s)" "\<not> client_hello bs"
  shows "tls_quiet cfg (SetLstnInfo s oct sp) bs"
proof -
  have "probed (SetLstnInfo s oct sp) []"
    using assms(1) by (auto simp: tcps_sessConstruct_def SetLstnInfo_def probed_def buf_read_def split: if_splits)
  then show ?thesis
    using assms(2) unfolding tls_quiet_def by (metis append_Nil)
qed

definition demo_cfg :: tcps_cfg where
  "demo_cfg = \<lparr> bDisableLFDelim = False, addtlFrameDelim = TCPSRV_NO_ADDTL_DELIMITER, discardTruncatedMsg = False,
     maxFrameSize = 200000, bMultiLine = False, bHasStartRegex = False, start_preg = (\<lambda>t. False), pszOrigin = Some ''imtcp'',
     iDrvrMode = 0, cnf_pInputName = None, cnf_pRuleset = None \<rparr>"

definition demo_sess :: tcps_sess where
  "demo_sess = SetLstnInfo (the (snd (tcps_sessConstruct (\<lambda>n. True) 8))) True True"

lemma demo_sess_ok: "in_frame demo_sess FStart" "\<not> bHasStartRegex demo_cfg" "lf_continues demo_cfg"
  "\<not> bMultiLine demo_cfg" "\<not> bDisableLFDelim demo_cfg"
proof -
  show "in_frame demo_sess FStart"
    unfolding demo_sess_def by (rule new_session [of "\<lambda>n. True" 8]) (simp_all add: tcps_sessConstruct_def)
qed (simp_all add: lf_continues_def demo_cfg_def)

lemma demo_quiet:
  assumes "length bs < 5 \<or> hd bs \<noteq> CHR 0x16"
  shows "tls_quiet demo_cfg demo_sess bs"
proof -
  have "\<not> client_hello bs"
  proof
    assume h: "client_hello bs"
    then obtain c cs where "bs = c # cs"
      by (cases bs) (simp_all add: client_hello_def)
    then have "of_char c = (0x16 :: nat)"
      using h by (simp add: client_hello_def isLikelyTlsClientHello_def)
    then have "c = char_of (0x16 :: nat)"
      by (metis char_of_char)
    then show False
      using h assms \<open>bs = c # cs\<close> by (auto simp: client_hello_def char_of_def bit_iff_odd)
  qed
  then show ?thesis
    unfolding demo_sess_def by (intro new_quiet [of "\<lambda>n. True" 8]) (simp_all add: tcps_sessConstruct_def)
qed

text \<open>
  C6: Reading from a TCP session implements the framing automaton: whatever the bytes, in every
  state of a frame and with any amount of memory, a read that does not look like the start of a TLS
  handshake on a listener that probes for it is processed without access outside the buffer and without overflow of the octet count; the
  session ends in the state of the automaton, and the messages handed on are those for the texts
  the automaton completes, in this order, each with the peer, the input name and the time of
  the read. The result of the read is the one of handing its messages to the queue. A text that cannot be stored in full is cut at 100 bytes, and lost when the message
  object itself cannot be allocated.
\<close>
theorem tcp_read_refines:
  assumes "in_frame s f" "\<not> bHasStartRegex cfg" "tls \<longrightarrow> tls_quiet cfg s dat"
  shows "\<exists>s' (ms :: 'j smsg list) f' ts. framing cfg s f dat = (f', ts)
    \<and> DataRcvdUncompressed alloc flush cfg stTime genTime s dat tls = Some (flush ms, s', ms) \<and> in_frame s' f'
    \<and> list_all2 (msg_of cfg stTime s) (concat (map (delivered alloc) ts)) ms"
proof -
  obtain f' ts where F: "framing cfg s f dat = (f', ts)"
    by (rule prod.exhaust)
  obtain s' and ms :: "'j smsg list" where "DataRcvdUncompressed alloc flush cfg stTime genTime s dat tls = Some (flush ms, s', ms)"
      "in_frame s' f'" "msgs_of alloc cfg stTime s ts ms"
    using data_sim [OF assms F] by blast
  then show ?thesis
    using F unfolding msgs_of_def by blast
qed

theorem tcp_read_refines_witness:
  "\<exists>s' (ms :: unit smsg list) f' ts. framing demo_cfg demo_sess FStart ''5 <7>ab<8>x'' = (f', ts)
    \<and> DataRcvdUncompressed (\<lambda>n. True) (\<lambda>_. RS_RET_OK) demo_cfg zero_time 0 demo_sess ''5 <7>ab<8>x'' True = Some (RS_RET_OK, s', ms)
    \<and> in_frame s' f' \<and> list_all2 (msg_of demo_cfg zero_time demo_sess) (concat (map (delivered (\<lambda>n. True)) ts)) ms"
  by (rule tcp_read_refines [OF demo_sess_ok(1,2)]) (simp add: demo_quiet)

text \<open>
  C8: The messages do not depend on how the network splits the bytes: two sequences of reads
  with the same bytes in total leave the session in the same state of the automaton and hand
  on messages with the same texts. This holds as long as the queue takes the messages, and under
  two conditions. On a plain listener of imtcp the first five bytes of the connection do not look like a TLS
  ClientHello, as a session whose first bytes do is ended by the read that completes them, and what was
  received before depends on the split. With multi-line messages a line feed is the only delimiter, as a
  session adds a line feed to the message, whatever the delimiter was, when a read ends at a delimiter.
\<close>
theorem tcp_split_irrelevant:
  assumes "in_frame s f" "\<not> bHasStartRegex cfg" "tls_quiet cfg s (concat (reads_data rs))" "lf_continues cfg" "\<forall>ms. flush ms = RS_RET_OK"
    "[] \<notin> set (reads_data rs)" "[] \<notin> set (reads_data rs')" "concat (reads_data rs) = concat (reads_data rs')"
  shows "\<exists>s1 (ms1 :: 'j smsg list) s2 (ms2 :: 'j smsg list) g. receive alloc flush cfg s rs = Some (s1, ms1)
    \<and> receive alloc flush cfg s rs' = Some (s2, ms2) \<and> in_frame s1 g \<and> in_frame s2 g \<and> map getRawMsg ms1 = map getRawMsg ms2"
proof -
  obtain g ts where F: "framing cfg s f (concat (reads_data rs)) = (g, ts)"
    by (rule prod.exhaust)
  obtain s1 and ms1 :: "'j smsg list" where 1: "receive alloc flush cfg s rs = Some (s1, ms1)" "in_frame s1 g"
      "map getRawMsg ms1 = map Some (concat (map (delivered alloc) ts))"
    using receive_framing [OF assms(1-3,5,4,6) F] by blast
  obtain s2 and ms2 :: "'j smsg list" where 2: "receive alloc flush cfg s rs' = Some (s2, ms2)" "in_frame s2 g"
      "map getRawMsg ms2 = map Some (concat (map (delivered alloc) ts))"
    using receive_framing [OF assms(1,2) assms(3) [unfolded assms(8)] assms(5,4,7) F [unfolded assms(8)]] by blast
  show ?thesis
    by (intro exI conjI, rule 1(1), rule 2(1), rule 1(2), rule 2(2), simp only: 1(3) 2(3))
qed

theorem tcp_split_irrelevant_witness:
  "\<exists>s1 (ms1 :: unit smsg list) s2 (ms2 :: unit smsg list) g.
    receive (\<lambda>n. True) (\<lambda>_. RS_RET_OK) demo_cfg demo_sess [(zero_time, 0, ''<7>a''), (zero_time, 0, ''b'' @ [CHR 0x0A])] = Some (s1, ms1)
    \<and> receive (\<lambda>n. True) (\<lambda>_. RS_RET_OK) demo_cfg demo_sess [(zero_time, 0, ''<7>ab'' @ [CHR 0x0A])] = Some (s2, ms2)
    \<and> in_frame s1 g \<and> in_frame s2 g \<and> map getRawMsg ms1 = map getRawMsg ms2"
  by (rule tcp_split_irrelevant [OF demo_sess_ok(1,2) _ demo_sess_ok(3)]) (simp_all add: reads_data_def demo_quiet)

text \<open>
  C2: What a sender frames arrives: a sequence of messages, each framed by its length or by a
  line feed and within the limits of the listener, sent over a session at the start of a
  frame and received in reads of any size, results in messages with exactly these texts in
  this order, and leaves the session at the start of a frame, provided that there is memory, that the queue
  takes the messages and that the bytes do not start like a TLS ClientHello on a listener that probes for it.
\<close>
theorem framed_messages_arrive:
  assumes "in_frame s FStart" "\<not> bHasStartRegex cfg" "tls_quiet cfg s (concat (map wire msgs))" "lf_continues cfg"
    "[] \<notin> set (reads_data rs)" "concat (reads_data rs) = concat (map wire msgs)" "\<forall>m \<in> set msgs. sendable cfg s m" "\<forall>n. alloc n"
    "\<forall>ms. flush ms = RS_RET_OK"
  shows "\<exists>s' (ms :: 'j smsg list). receive alloc flush cfg s rs = Some (s', ms) \<and> in_frame s' FStart
    \<and> map getRawMsg ms = map (\<lambda>m. Some (snd m)) msgs"
proof -
  have "framing cfg s FStart (concat (reads_data rs)) = (FStart, map snd msgs)"
    using framing_wires [OF assms(4,7)] assms(6) by simp
  then obtain s' and ms :: "'j smsg list" where r: "receive alloc flush cfg s rs = Some (s', ms)" "in_frame s' FStart"
      "map getRawMsg ms = map Some (concat (map (delivered alloc) (map snd msgs)))"
    using receive_framing [OF assms(1,2) _ assms(9,4,5)] assms(3,6) by metis
  have "map getRawMsg ms = map (\<lambda>m. Some (snd m)) msgs"
    using r(3) unfolding delivered_all [OF assms(8)] by simp
  then show ?thesis
    using r(1,2) by blast
qed

theorem framed_messages_arrive_witness:
  "\<exists>s' (ms :: unit smsg list). receive (\<lambda>n. True) (\<lambda>_. RS_RET_OK) demo_cfg demo_sess
      [(zero_time, 0, ''<7>''), (zero_time, 0, ''ab'' @ [CHR 0x0A, CHR ''5'']), (zero_time, 0, '' <8>'' @ [CHR 0x0A, CHR ''c''])] = Some (s', ms)
    \<and> in_frame s' FStart \<and> map getRawMsg ms = [Some ''<7>ab'', Some (''<8>'' @ [CHR 0x0A, CHR ''c''])]"
proof -
  let ?rs = "[(zero_time, 0, ''<7>''), (zero_time, 0, ''ab'' @ [CHR 0x0A, CHR ''5'']), (zero_time, 0, '' <8>'' @ [CHR 0x0A, CHR ''c''])]"
  let ?ms = "[(TCP_FRAMING_OCTET_STUFFING, ''<7>ab''), (TCP_FRAMING_OCTET_COUNTING, ''<8>'' @ [CHR 0x0A, CHR ''c''])]"
  have u: "udec (Suc (Suc (Suc (Suc (Suc 0))))) = ''5''"
    by (simp add: udec.simps digit_chr_def char_of_def bit_iff_odd)
  have c: "concat (reads_data ?rs) = concat (map wire ?ms)"
    by (simp add: reads_data_def u)
  have m: "\<forall>m \<in> set ?ms. sendable demo_cfg demo_sess m"
    by (simp add: demo_cfg_def demo_sess_def tcps_sessConstruct_def SetLstnInfo_def is_delim_def TCPSRV_NO_ADDTL_DELIMITER_def isdigit_def)
  have "\<exists>s' (ms :: unit smsg list). receive (\<lambda>n. True) (\<lambda>_. RS_RET_OK) demo_cfg demo_sess ?rs = Some (s', ms) \<and> in_frame s' FStart
      \<and> map getRawMsg ms = map (\<lambda>m. Some (snd m)) ?ms"
    by (rule framed_messages_arrive [OF demo_sess_ok(1,2) _ demo_sess_ok(3) _ c m]) (simp_all add: reads_data_def demo_quiet)
  then show ?thesis
    by (simp only: list.map snd_conv)
qed

text \<open>
  C9: A session comes back to the start of a frame: on an endless input in which line feeds keep
  coming, without multi-line messages and with the line feed as a delimiter, from any state and
  after any number of bytes there is a later point at which the session is at the start of a
  frame, however the bytes up to there are split into reads. No octet count a peer sends, and
  no oversize message, takes a session out of step for good. The input does not start like a TLS ClientHello
  on a listener that probes for it, and the queue takes the messages; otherwise the session ends.
\<close>
theorem tcp_frame_start_again:
  assumes "in_frame s f" "\<not> bHasStartRegex cfg" "\<forall>m. tls_quiet cfg s (map inp [0..<m])" "\<not> bMultiLine cfg"
    "\<not> bDisableLFDelim cfg" "\<forall>n. \<exists>m\<ge>n. inp m = CHR 0x0A" "\<forall>ms. flush ms = RS_RET_OK"
  shows "\<exists>m\<ge>n. \<forall>rs. [] \<notin> set (reads_data rs) \<longrightarrow> concat (reads_data rs) = map inp [0..<m] \<longrightarrow>
    (\<exists>s' (ms :: 'j smsg list). receive alloc flush cfg s rs = Some (s', ms) \<and> inputState s' = eAtStrtFram)"
proof -
  have "restarts cfg s f inp n"
    using assms(6) by (intro start_again [OF assms(4,5)]) blast
  then obtain m where m: "m \<ge> n" "frame_states cfg s f inp m = FStart"
    unfolding restarts_def by blast
  obtain ts where F: "framing cfg s f (map inp [0..<m]) = (FStart, ts)"
    using m(2) by (cases "framing cfg s f (map inp [0..<m])") (simp add: frame_states_def)
  have lf: "lf_continues cfg"
    using assms(4) by (simp add: lf_continues_def)
  have "\<exists>s' (ms :: 'j smsg list). receive alloc flush cfg s rs = Some (s', ms) \<and> inputState s' = eAtStrtFram"
    if "[] \<notin> set (reads_data rs)" "concat (reads_data rs) = map inp [0..<m]" for rs
    using receive_framing [OF assms(1,2) assms(3) [rule_format, of m, folded that(2)] assms(7) lf that(1) F [folded that(2)]] by fastforce
  then show ?thesis
    using m(1) by blast
qed

theorem tcp_frame_start_again_witness:
  "\<exists>m\<ge>3. \<forall>rs. [] \<notin> set (reads_data rs) \<longrightarrow> concat (reads_data rs) = map (\<lambda>i. if even i then CHR ''9'' else CHR 0x0A) [0..<m] \<longrightarrow>
    (\<exists>s' (ms :: unit smsg list). receive (\<lambda>n. True) (\<lambda>_. RS_RET_OK) demo_cfg demo_sess rs = Some (s', ms) \<and> inputState s' = eAtStrtFram)"
proof (rule tcp_frame_start_again [OF demo_sess_ok(1,2) _ demo_sess_ok(4,5)])
  show "\<forall>m. tls_quiet demo_cfg demo_sess (map (\<lambda>i. if even i then CHR ''9'' else CHR 0x0A) [0..<m])"
  proof
    fix m
    show "tls_quiet demo_cfg demo_sess (map (\<lambda>i. if even i then CHR ''9'' else CHR 0x0A) [0..<m])"
      by (rule demo_quiet) (cases "m = 0", simp_all add: hd_map)
  qed
  show "\<forall>n :: nat. \<exists>m\<ge>n. (if even m then CHR ''9'' else CHR 0x0A) = CHR 0x0A"
  proof
    fix n :: nat
    show "\<exists>m\<ge>n. (if even m then CHR ''9'' else CHR 0x0A) = CHR 0x0A"
      by (rule exI [of _ "2 * n + 1"]) simp
  qed
qed simp

text \<open>
  C37: The end of a stream: what is held of a line, also of one that waits for the next line of a
  multi-line message, is submitted as a message; a counted frame, or a count, that is not
  complete is dropped, and at the start of a frame nothing is left.
\<close>
theorem close_submits_line:
  assumes "in_frame s f"
  shows "\<exists>s' (ms :: 'j smsg list). PrepareClose alloc cfg stTime genTime s = Some (s', ms)
    \<and> map getRawMsg ms = map Some (concat (map (delivered alloc) (case f of FLine t \<Rightarrow> emit t | FLineEnd t \<Rightarrow> emit t | _ \<Rightarrow> [])))"
proof (cases "\<exists>t. f = FLine t \<or> f = FLineEnd t")
  case True
  then obtain t where f: "f = FLine t \<or> f = FLineEnd t"
    by blast
  then have t: "held s t"
    using assms by auto
  obtain s' and ms :: "'j smsg list" where sub: "defaultDoSubmitMessage alloc cfg stTime genTime s = Some (s', ms)"
      "msgs_of alloc cfg stTime s (emit t) ms"
    using submit_ok [OF t] by blast
  have "PrepareClose alloc cfg stTime genTime s = Some (s', ms)"
    using f assms sub(1) by (auto simp: PrepareClose_def)
  then show ?thesis
    using f msgs_of_raw [OF sub(2)] by auto
next
  case False
  then have "PrepareClose alloc cfg stTime genTime s = (if f = FSkipLine then defaultDoSubmitMessage alloc cfg stTime genTime s else Some (s, [] :: 'j smsg list))"
    using assms by (cases f) (simp_all add: PrepareClose_def)
  moreover have "defaultDoSubmitMessage alloc cfg stTime genTime s = Some (s \<lparr> iMsg := 0, bFrameOversize := False \<rparr>, [] :: 'j smsg list)" if "f = FSkipLine"
    using assms that by (simp add: defaultDoSubmitMessage_def held_def)
  ultimately show ?thesis
    using False by (cases f) simp_all
qed

theorem close_submits_line_witness:
  "\<exists>s s' (ms0 :: unit smsg list) (ms :: unit smsg list).
      DataRcvdUncompressed (\<lambda>n. True) (\<lambda>_. RS_RET_OK) demo_cfg zero_time 0 demo_sess ''<7>a'' True = Some (RS_RET_OK, s, ms0)
    \<and> PrepareClose (\<lambda>n. True) demo_cfg zero_time 0 s = Some (s', ms) \<and> map getRawMsg ms = [Some ''<7>a'']"
proof -
  have F: "framing demo_cfg demo_sess FStart ''<7>a'' = (FLine ''<7>a'', [])"
    by (simp add: framing_def frame_first_def is_delim_def demo_cfg_def demo_sess_def tcps_sessConstruct_def SetLstnInfo_def
        TCPSRV_NO_ADDTL_DELIMITER_def isdigit_def)
  obtain s and ms0 :: "unit smsg list" where s: "in_frame s (FLine ''<7>a'')"
      "DataRcvdUncompressed (\<lambda>n. True) (\<lambda>_. RS_RET_OK) demo_cfg zero_time 0 demo_sess ''<7>a'' True = Some (RS_RET_OK, s, ms0)"
    using data_sim [OF demo_sess_ok(1,2) _ F, of True "\<lambda>n. True" "\<lambda>_. RS_RET_OK" zero_time 0] demo_quiet [of "''<7>a''"] by force
  show ?thesis
    using close_submits_line [OF s(1), of "\<lambda>n. True" demo_cfg zero_time 0, where ?'j = unit] s(2) by (auto simp: emit_def delivered_def)
qed

text \<open>
  C39: A line that is longer than a message is split, but not without loss: of a line with more
  bytes than a message and at most twice as many and one, the first message has the bytes up to
  the limit and the second the bytes behind the one that exceeded it. This byte is in neither. The line does not start like a
  TLS ClientHello on a listener that probes for it.
\<close>
theorem oversize_line_loses_byte:
  assumes "in_frame s FStart" "\<not> bHasStartRegex cfg" "tls \<longrightarrow> tls_quiet cfg s (t @ [CHR 0x0A])" "\<not> discardTruncatedMsg cfg" "\<forall>n. alloc n"
    "\<not> bMultiLine cfg" "\<not> bDisableLFDelim cfg" "\<forall>c \<in> set t. \<not> is_delim cfg c" "\<not> (isdigit (hd t) \<and> bSuppOctetFram s)"
    "\<not> (hd t = CHR '' '' \<and> bSPFramingFix s)" "iMaxLine s + 1 < int (length t)" "int (length t) \<le> 2 * iMaxLine s + 1"
  shows "\<exists>s' (ms :: 'j smsg list). DataRcvdUncompressed alloc flush cfg stTime genTime s (t @ [CHR 0x0A]) tls = Some (flush ms, s', ms)
    \<and> map getRawMsg ms = [Some (take (nat (iMaxLine s)) t), Some (drop (nat (iMaxLine s) + 1) t)]"
proof -
  let ?n = "nat (iMaxLine s)"
  have n: "0 < iMaxLine s" "?n + 1 < length t" "length t \<le> 2 * ?n + 1"
    using assms(1,11,12) by (auto simp: held_def)
  have t: "t = take ?n t @ t ! ?n # drop (?n + 1) t"
    using n(2) by (simp add: id_take_nth_drop)
  have d: "\<forall>c \<in> set (take ?n t). \<not> is_delim cfg c" "\<not> is_delim cfg (t ! ?n)" "\<forall>c \<in> set (drop (?n + 1) t). \<not> is_delim cfg c"
    using assms(8) n(2) by (auto dest: in_set_takeD in_set_dropD)
  have "framing cfg s FStart (t @ [CHR 0x0A]) = framing cfg s (FLine []) (t @ [CHR 0x0A])"
    using assms(9,10) n(2) by (cases t) (auto simp: framing_def frame_first_def simp del: frame_body.simps)
  also have "\<dots> = framing cfg s (FLine []) (take ?n t @ t ! ?n # drop (?n + 1) t @ [CHR 0x0A])"
    using t by (metis append_Cons append_assoc)
  also have "\<dots> = framing cfg s (FLine (take ?n t)) (t ! ?n # drop (?n + 1) t @ [CHR 0x0A])"
    using read_line [of "[]" "take ?n t" "iMaxLine s" cfg] d(1) n unfolding framing_def by (simp del: frame_read.simps)
  also have "\<dots> = apsnd ((@) [take ?n t]) (framing cfg s (FLine []) (drop (?n + 1) t @ [CHR 0x0A]))"
    using n d(2) assms(4) by (auto simp: framing_def emit_def split: prod.splits)
  also have "framing cfg s (FLine []) (drop (?n + 1) t @ [CHR 0x0A]) = framing cfg s (FLine (drop (?n + 1) t)) [CHR 0x0A]"
    using read_line [of "[]" "drop (?n + 1) t" "iMaxLine s" cfg] d(3) n unfolding framing_def by simp
  also have "\<dots> = (FStart, [drop (?n + 1) t])"
    using assms(6,7) n(2) by (simp add: framing_def is_delim_def emit_def)
  finally have F: "framing cfg s FStart (t @ [CHR 0x0A]) = (FStart, [take ?n t, drop (?n + 1) t])"
    by simp
  obtain s' and ms :: "'j smsg list" where "DataRcvdUncompressed alloc flush cfg stTime genTime s (t @ [CHR 0x0A]) tls = Some (flush ms, s', ms)"
      "msgs_of alloc cfg stTime s [take ?n t, drop (?n + 1) t] ms"
    using data_sim [OF assms(1-3) F] by blast
  then show ?thesis
    using msgs_of_raw [of alloc cfg stTime s "[take ?n t, drop (?n + 1) t]" ms] assms(5) by (simp add: delivered_def)
qed

theorem oversize_line_loses_byte_witness:
  "\<exists>s' (ms :: unit smsg list). DataRcvdUncompressed (\<lambda>n. True) (\<lambda>_. RS_RET_OK) demo_cfg zero_time 0 demo_sess (''<7>abcdefgh'' @ [CHR 0x0A]) True
      = Some (RS_RET_OK, s', ms)
    \<and> map getRawMsg ms = [Some ''<7>abcde'', Some ''gh'']"
proof -
  have n: "iMaxLine demo_sess = 8"
    by (simp add: demo_sess_def tcps_sessConstruct_def SetLstnInfo_def)
  show ?thesis
    using oversize_line_loses_byte [OF demo_sess_ok(1,2) _ _ _ demo_sess_ok(4,5), of True "''<7>abcdefgh''" "\<lambda>n. True" "\<lambda>_. RS_RET_OK"]
      demo_quiet [of "''<7>abcdefgh'' @ [CHR 0x0A]"]
    by (simp add: n is_delim_def demo_cfg_def TCPSRV_NO_ADDTL_DELIMITER_def isdigit_def)
qed

text \<open>
  C38: Framing by a regular expression: from a session that holds the lines and the line being
  received, every sequence of reads is processed inside the two buffers, with the texts of its
  specification. When the session is closed afterwards nothing is submitted: the text held,
  the last message of the stream, is lost, as the state of the session is still that of the
  start of a frame. The queue takes the messages, and the bytes do not start like a TLS ClientHello on a
  listener that probes for it.
\<close>
theorem regex_framing_and_close:
  assumes "in_regex s q" "bHasStartRegex cfg" "tls_quiet cfg s (concat (reads_data rs))" "\<forall>ms. flush ms = RS_RET_OK"
  shows "\<exists>s' (ms :: 'j smsg list) q' ts. regex_read (start_preg cfg) (iMaxLine s) q (concat (reads_data rs)) = (q', ts)
    \<and> receive alloc flush cfg s rs = Some (s', ms) \<and> map getRawMsg ms = map Some (concat (map (delivered alloc) ts))
    \<and> in_regex s' q' \<and> PrepareClose alloc cfg stTime genTime s' = Some (s', [] :: 'j smsg list)"
proof -
  obtain q' ts where F: "regex_read (start_preg cfg) (iMaxLine s) q (concat (reads_data rs)) = (q', ts)"
    by (rule prod.exhaust)
  obtain s' and ms :: "'j smsg list" where r: "receive alloc flush cfg s rs = Some (s', ms)" "in_regex s' q'"
      "map getRawMsg ms = map Some (concat (map (delivered alloc) ts))"
    using regex_receive_sim [OF assms F] by blast
  have "PrepareClose alloc cfg stTime genTime s' = Some (s', [] :: 'j smsg list)"
    using r(2) by (cases q') (simp add: PrepareClose_def)
  then show ?thesis
    using F r by blast
qed

definition demo_regex_cfg :: tcps_cfg where
  "demo_regex_cfg = demo_cfg \<lparr> bHasStartRegex := True, start_preg := (\<lambda>t. take 1 t = ''<'') \<rparr>"

definition demo_regex_sess :: tcps_sess where
  "demo_regex_sess = snd (tcps_sessConstructFinalize (\<lambda>n. True) (\<lambda>n. True) None demo_regex_cfg demo_sess)"

theorem regex_framing_and_close_witness:
  "\<exists>s' (ms :: unit smsg list) q' ts.
      regex_read (start_preg demo_regex_cfg) (iMaxLine demo_regex_sess) ([], []) (concat (reads_data [(zero_time, 0, ''<7>a'' @ [CHR 0x0A]), (zero_time, 0, ''<8>b'')])) = (q', ts)
    \<and> receive (\<lambda>n. True) (\<lambda>_. RS_RET_OK) demo_regex_cfg demo_regex_sess [(zero_time, 0, ''<7>a'' @ [CHR 0x0A]), (zero_time, 0, ''<8>b'')] = Some (s', ms)
    \<and> map getRawMsg ms = map Some (concat (map (delivered (\<lambda>n. True)) ts))
    \<and> in_regex s' q' \<and> PrepareClose (\<lambda>n. True) demo_regex_cfg zero_time 0 s' = Some (s', [] :: unit smsg list)"
proof (rule regex_framing_and_close)
  let ?s = "the (snd (tcps_sessConstruct (\<lambda>n. True) 8))"
  show "in_regex demo_regex_sess ([], [])"
  proof (rule new_regex_session)
    show "tcps_sessConstruct (\<lambda>n. True) 8 = (RS_RET_OK, Some ?s)" "(0 :: int) < 8" "bHasStartRegex demo_regex_cfg"
      by (simp_all add: tcps_sessConstruct_def demo_regex_cfg_def)
    show "tcps_sessConstructFinalize (\<lambda>n. True) (\<lambda>n. True) None demo_regex_cfg (SetLstnInfo ?s True True) = (RS_RET_OK, demo_regex_sess)"
      by (simp add: demo_regex_sess_def demo_sess_def tcps_sessConstruct_def tcps_sessConstructFinalize_def SetLstnInfo_def Let_def)
  qed
  have "tls_quiet demo_cfg demo_sess (''<7>a'' @ [CHR 0x0A] @ ''<8>b'')"
    by (rule demo_quiet) simp
  then show "tls_quiet demo_regex_cfg demo_regex_sess (concat (reads_data [(zero_time, 0, ''<7>a'' @ [CHR 0x0A]), (zero_time, 0, ''<8>b'')]))"
    by (simp add: reads_data_def tls_quiet_def probed_def demo_regex_sess_def demo_regex_cfg_def tcps_sessConstructFinalize_def Let_def)
qed (simp_all add: demo_regex_cfg_def)

end
