(* ===== verification/Pm_Rfc5424.thy ===== *)
theory Pm_Rfc5424
imports Segdisk_Record
begin

text \<open>
  The parser for messages in the format of RFC 5424, \<^verbatim>\<open>tools/pmrfc5424.c\<close>: version, time stamp,
  HOSTNAME, APP-NAME, PROCID, MSGID and STRUCTURED-DATA are taken from the raw message and set
  on the message object; the rest is MSG. The fields are collected in a work buffer with the
  size of the message. The lemmas show that no input leads outside of the raw message or the
  work buffer, and that a message printed in this format is parsed back.
\<close>

unbundle bit_operations_syntax

section \<open>Fields\<close>

definition MSG_RFC5424_PROTOCOL :: int where "MSG_RFC5424_PROTOCOL = 1"
definition IGNDATE :: "32 word" where "IGNDATE = 0x004"

text \<open>The loop over the bytes of a field; the number is the place in the work buffer.\<close>

fun field_loop :: "char list \<Rightarrow> int \<Rightarrow> buf \<Rightarrow> nat \<Rightarrow> (cursor \<times> buf \<times> nat) option" where
  "field_loop [] n b i = (if 0 < n then None else Some (([], n), b, i))"
| "field_loop (c # s) n b i =
     (if 0 < n \<and> c \<noteq> CHR '' '' then do { b \<leftarrow> buf_put b i c; field_loop s (n - 1) b (i + 1) }
      else Some ((c # s, n), b, i))"

text \<open>The space behind a field, which is missing at the end of the text.\<close>

definition eat_sp :: "cursor \<Rightarrow> (int \<times> cursor) option" where
  "eat_sp p = (case p of (s, n) \<Rightarrow>
     if 0 < n then (case s of [] \<Rightarrow> None | c # s' \<Rightarrow> if c = CHR '' '' then Some (0, s', n - 1) else Some (1, s, n))
     else Some (1, s, n))"

definition parseRFCField :: "cursor \<Rightarrow> buf \<Rightarrow> (int \<times> cursor \<times> buf) option" where
  "parseRFCField p b = do {
     (p, b, i) \<leftarrow> field_loop (fst p) (snd p) b 0;
     (r, p) \<leftarrow> eat_sp p;
     b \<leftarrow> buf_put b i NUL;
     Some (r, p, b) }"

text \<open>
  Structured data ends at a closing bracket that is followed by a space or by the end of the
  text and is not escaped by a backslash.
\<close>

fun sd_loop :: "char list \<Rightarrow> int \<Rightarrow> buf \<Rightarrow> nat \<Rightarrow> (int \<times> cursor \<times> buf \<times> nat) option" where
  "sd_loop [] n b i = (if 0 < n then None else Some (1, ([], n), b, i))"
| "sd_loop (c # s) n b i =
     (if n < 2
      then if 0 < n \<and> c = CHR '']'' then do { b \<leftarrow> buf_put b i c; Some (0, (s, n - 1), b, i + 1) }
        else Some (1, (c # s, n), b, i)
      else if c = CHR 0x5C \<or> c = CHR '']''
      then (case s of
          [] \<Rightarrow> None
        | d # s' \<Rightarrow>
            if c = CHR 0x5C \<and> d = CHR '']''
            then do { b \<leftarrow> buf_put b i c; b \<leftarrow> buf_put b (i + 1) d; sd_loop s' (n - 2) b (i + 2) }
            else if c = CHR '']'' \<and> d = CHR '' '' then do { b \<leftarrow> buf_put b i c; Some (0, (s, n - 1), b, i + 1) }
            else do { b \<leftarrow> buf_put b i c; sd_loop s (n - 1) b (i + 1) })
      else do { b \<leftarrow> buf_put b i c; sd_loop s (n - 1) b (i + 1) })"

definition parseRFCStructuredData :: "cursor \<Rightarrow> buf \<Rightarrow> (int \<times> cursor \<times> buf) option" where
  "parseRFCStructuredData p b = (case p of (s, n) \<Rightarrow>
     if n = 0 then Some (1, p, b)
     else case s of
       [] \<Rightarrow> None
     | c # s' \<Rightarrow>
         if c \<noteq> CHR ''['' \<and> c \<noteq> CHR ''-'' then Some (1, p, b)
         else do {
           (r, p, b, i) \<leftarrow> (if c = CHR ''-'' then do { b \<leftarrow> buf_put b 0 c; Some (0, (s', n - 1), b, 1) } else sd_loop s n b 0);
           (r', p) \<leftarrow> eat_sp p;
           b \<leftarrow> buf_put b i NUL;
           Some (if r' = 0 then r else 1, p, b) })"

section \<open>The parser\<close>

text \<open>The text at the parse position, and the position moved by a number of bytes.\<close>

definition looking_at :: "char list \<Rightarrow> cursor \<Rightarrow> bool" where
  "looking_at w p \<longleftrightarrow> int (length w) \<le> snd p \<and> take (length w) (fst p) = w"

definition advance :: "nat \<Rightarrow> cursor \<Rightarrow> cursor" where
  "advance k p = (drop k (fst p), snd p - int k)"

definition parse_timestamp :: "'j smsg \<Rightarrow> cursor \<Rightarrow> (bool \<times> 'j smsg \<times> cursor) option" where
  "parse_timestamp m p =
     (if looking_at ''- '' p then Some (True, m \<lparr> tTIMESTAMP := tRcvdAt m \<rparr>, advance 2 p)
      else case ParseTIMESTAMP3339 (tTIMESTAMP m) p of
        None \<Rightarrow> None
      | Some (Inl _) \<Rightarrow> Some (False, m, p)
      | Some (Inr (t, p)) \<Rightarrow> Some (True, m \<lparr> tTIMESTAMP := (if msgFlags m AND IGNDATE \<noteq> 0 then tRcvdAt m else t) \<rparr>, p))"

definition parse_fields :: "(nat \<Rightarrow> bool) \<Rightarrow> 'j smsg \<Rightarrow> cursor \<Rightarrow> buf \<Rightarrow> ('j smsg \<times> cursor) option" where
  "parse_fields alloc m p b = do {
     (_, p, b) \<leftarrow> parseRFCField p b;
     s \<leftarrow> buf_sz b;
     m \<leftarrow> MsgSetHOSTNAME alloc m s;
     (_, p, b) \<leftarrow> parseRFCField p b;
     s \<leftarrow> buf_sz b;
     (_, m) \<leftarrow> MsgSetAPPNAME alloc m s;
     (_, p, b) \<leftarrow> parseRFCField p b;
     s \<leftarrow> buf_sz b;
     (_, m) \<leftarrow> MsgSetPROCID alloc m s;
     (_, p, b) \<leftarrow> parseRFCField p b;
     s \<leftarrow> buf_sz b;
     (_, m) \<leftarrow> MsgSetMSGID alloc m s;
     (_, p, b) \<leftarrow> parseRFCStructuredData p b;
     s \<leftarrow> buf_sz b;
     let (_, m) = MsgSetStructuredData alloc m s;
     Some (m, p) }"

definition parse_rfc5424 :: "(nat \<Rightarrow> bool) \<Rightarrow> 'j smsg \<Rightarrow> (rsRetVal \<times> 'j smsg) option" where
  "parse_rfc5424 alloc m = do {
     b \<leftarrow> raw_buf m;
     if offAfterPRI m < 0 \<or> iLenRawMsg m < 0 then None
     else do {
       raw \<leftarrow> buf_read b 0 (nat (iLenRawMsg m) + 1);
       let p = (drop (nat (offAfterPRI m)) raw, iLenRawMsg m - offAfterPRI m);
       if \<not> looking_at ''1 '' p then Some (RS_RET_COULD_NOT_PARSE, m)
       else do {
         let m = setProtocolVersion m MSG_RFC5424_PROTOCOL;
         let p = advance 2 p;
         if \<not> alloc (nat (snd p) + 1) then Some (RS_RET_OUT_OF_MEMORY, m)
         else do {
           (bContParse, m, p) \<leftarrow> parse_timestamp m p;
           (m, p) \<leftarrow> (if bContParse then parse_fields alloc m p (buf_new (nat (iLenRawMsg m - offAfterPRI m - 2) + 1)) else Some (m, p));
           m \<leftarrow> MsgSetMSGoffs m (iLenRawMsg m + 1 - int (length (fst p)));
           Some (RS_RET_OK, m) } } } }"

section \<open>The work buffer\<close>

lemma put_extend:
  assumes "buf_read b 0 (length w) = Some w" "length w < length b"
  shows "\<exists>b'. buf_put b (length w) c = Some b' \<and> length b' = length b \<and> buf_read b' 0 (length w + 1) = Some (w @ [c])"
proof -
  obtain b' where b': "buf_memcpy b (length w) [c] = Some b'"
    using buf_memcpy_ex [of "length w" "[c]" b] assms(2) by auto
  have "buf_read b' 0 (length w) = Some w"
    using buf_read_memcpy_before [OF b', of 0 "length w"] assms(1) by simp
  moreover have "buf_read b' (0 + length w) 1 = Some [c]"
    using buf_read_memcpy_same [OF b'] by simp
  ultimately have "buf_read b' 0 (length w + 1) = Some (w @ [c])"
    by (rule buf_read_join)
  then show ?thesis
    using b' buf_memcpy_length [OF b'] by (simp add: buf_put_as_memcpy)
qed

text \<open>The buffer holds a terminated text.\<close>

definition holds_text :: "buf \<Rightarrow> char list \<Rightarrow> bool" where
  "holds_text b w \<longleftrightarrow> buf_read b 0 (length w + 1) = Some (w @ [NUL])"

lemma holds_text_sz: "holds_text b w \<Longrightarrow> buf_sz b = Some (takeWhile (\<lambda>c. c \<noteq> NUL) w)"
proof -
  assume "holds_text b w"
  then have t: "take (length w + 1) b = map Some (w @ [NUL])" and l: "length w < length b"
    by (simp_all add: holds_text_def buf_read_Some_iff)
  have "take (length w) (take (length w + 1) b) = map Some w" "take (length w + 1) b ! length w = Some NUL"
    unfolding t by (simp_all add: nth_append)
  then show ?thesis
    using buf_sz_prefix [of "length w" b w] l by simp
qed

lemma terminate_text:
  assumes "buf_read b 0 (length w) = Some w" "length w < length b"
  shows "\<exists>b'. buf_put b (length w) NUL = Some b' \<and> length b' = length b \<and> holds_text b' w"
  using put_extend [OF assms, of NUL] by (simp add: holds_text_def)

section \<open>The position in the text\<close>

text \<open>The rest of the raw message with its terminator.\<close>

definition at_text :: "cursor \<Rightarrow> char list \<Rightarrow> bool" where
  "at_text p t \<longleftrightarrow> p = (t @ [NUL], int (length t))"

definition field_end :: "char list \<Rightarrow> char list" where
  "field_end t = tl (dropWhile (\<lambda>c. c \<noteq> CHR '' '') t)"

lemma field_loop_spec:
  assumes "buf_read b 0 (length w) = Some w" "length w + length t < length b"
  shows "\<exists>b'. field_loop (t @ [NUL]) (int (length t)) b (length w)
      = Some ((dropWhile (\<lambda>c. c \<noteq> CHR '' '') t @ [NUL], int (length (dropWhile (\<lambda>c. c \<noteq> CHR '' '') t))), b',
          length (w @ takeWhile (\<lambda>c. c \<noteq> CHR '' '') t))
    \<and> length b' = length b \<and> buf_read b' 0 (length (w @ takeWhile (\<lambda>c. c \<noteq> CHR '' '') t)) = Some (w @ takeWhile (\<lambda>c. c \<noteq> CHR '' '') t)"
  using assms
proof (induction t arbitrary: b w)
  case Nil
  then show ?case
    by simp
next
  case (Cons c t)
  show ?case
  proof (cases "c = CHR '' ''")
    case True
    then show ?thesis
      using Cons.prems by simp
  next
    case False
    obtain b1 where b1: "buf_put b (length w) c = Some b1" "length b1 = length b" "buf_read b1 0 (length (w @ [c])) = Some (w @ [c])"
      using put_extend [OF Cons.prems(1), of c] Cons.prems(2) by auto
    have "length (w @ [c]) + length t < length b1"
      using Cons.prems(2) b1(2) by simp
    then show ?thesis
      using Cons.IH [OF b1(3)] b1(1,2) False by simp
  qed
qed

lemma eat_sp_spec:
  "t = [] \<or> hd t = CHR '' '' \<Longrightarrow> \<exists>r. eat_sp (t @ [NUL], int (length t)) = Some (r, tl t @ [NUL], int (length (tl t)))"
  by (cases t) (simp_all add: eat_sp_def)

lemma parseRFCField_spec:
  assumes "at_text p t" "length t < length b"
  shows "\<exists>r p' b'. parseRFCField p b = Some (r, p', b') \<and> at_text p' (field_end t) \<and> length b' = length b
    \<and> holds_text b' (takeWhile (\<lambda>c. c \<noteq> CHR '' '') t)"
proof -
  let ?u = "takeWhile (\<lambda>c. c \<noteq> CHR '' '') t" and ?d = "dropWhile (\<lambda>c. c \<noteq> CHR '' '') t"
  have "buf_read b 0 (length []) = Some []"
    by (simp add: buf_read_def)
  from field_loop_spec [OF this, of t] obtain b1 where b1: "field_loop (t @ [NUL]) (int (length t)) b 0 = Some ((?d @ [NUL], int (length ?d)), b1, length ?u)"
      "length b1 = length b" "buf_read b1 0 (length ?u) = Some ?u"
    using assms(2) by auto
  have "?d = [] \<or> hd ?d = CHR '' ''"
    using hd_dropWhile [of "\<lambda>c. c \<noteq> CHR '' ''" t] by blast
  then obtain r where r: "eat_sp (?d @ [NUL], int (length ?d)) = Some (r, tl ?d @ [NUL], int (length (tl ?d)))"
    using eat_sp_spec by blast
  have "length ?u < length b1"
    using length_takeWhile_le [of "\<lambda>c. c \<noteq> CHR '' ''" t] assms(2) b1(2) by simp
  then obtain b2 where "buf_put b1 (length ?u) NUL = Some b2" "length b2 = length b1" "holds_text b2 ?u"
    using terminate_text [OF b1(3)] by blast
  then show ?thesis
    using assms(1) b1(1,2) r by (simp add: parseRFCField_def at_text_def field_end_def)
qed

lemma field_end_length: "length (field_end t) \<le> length t"
  using length_dropWhile_le [of "\<lambda>c. c \<noteq> CHR '' ''" t] by (simp add: field_end_def)

lemma field_end_suffix: "\<exists>u. t = u @ field_end t"
proof (cases "dropWhile (\<lambda>c. c \<noteq> CHR '' '') t")
  case Nil
  have "field_end t = []"
    unfolding field_end_def Nil by simp
  then show ?thesis
    by simp
next
  case (Cons x xs)
  then have "t = takeWhile (\<lambda>c. c \<noteq> CHR '' '') t @ x # field_end t"
    by (simp add: field_end_def) (metis takeWhile_dropWhile_id)
  then show ?thesis
    by (metis append_Cons append_Nil append_assoc)
qed

lemma eat_sp_total: "\<exists>r t'. eat_sp (t @ [NUL], int (length t)) = Some (r, t' @ [NUL], int (length t')) \<and> (\<exists>u. t = u @ t')"
proof (cases "t = [] \<or> hd t = CHR '' ''")
  case True
  then show ?thesis
    using eat_sp_spec [of t] by (cases t) fastforce+
next
  case False
  then show ?thesis
    by (cases t) (auto simp: eat_sp_def)
qed

lemma sd_loop_safe:
  assumes "buf_read b 0 (length w) = Some w" "length w + length t < length b"
  shows "\<exists>r t' w' b'. sd_loop (t @ [NUL]) (int (length t)) b (length w) = Some (r, (t' @ [NUL], int (length t')), b', length w')
    \<and> length b' = length b \<and> buf_read b' 0 (length w') = Some w' \<and> length w' < length b \<and> (\<exists>u. t = u @ t')"
  using assms
proof (induction t arbitrary: b w rule: induct_list012)
  case 1
  then show ?case
    by (intro exI [of _ 1] exI [of _ "[]"] exI [of _ w] exI [of _ b]) simp
next
  case (2 c)
  obtain b1 where b1: "buf_put b (length w) c = Some b1" "length b1 = length b" "buf_read b1 0 (length (w @ [c])) = Some (w @ [c])"
    using put_extend [OF 2(1), of c] 2(2) by auto
  show ?case
  proof (cases "c = CHR '']''")
    case True
    then show ?thesis
      using b1 2(2) by (intro exI [of _ 0] exI [of _ "[]"] exI [of _ "w @ [c]"] exI [of _ b1]) simp
  next
    case False
    then show ?thesis
      using 2 by (intro exI [of _ 1] exI [of _ "[c]"] exI [of _ w] exI [of _ b]) simp
  qed
next
  case (3 c d t)
  obtain b1 where b1: "buf_put b (length w) c = Some b1" "length b1 = length b" "buf_read b1 0 (length (w @ [c])) = Some (w @ [c])"
    using put_extend [OF 3(3), of c] 3(4) by auto
  obtain b2 where b2: "buf_put b1 (length (w @ [c])) d = Some b2" "length b2 = length b1"
      "buf_read b2 0 (length (w @ [c, d])) = Some (w @ [c, d])"
    using put_extend [OF b1(3), of d] 3(4) b1(2) by auto
  have one: "\<exists>r t' w' b'. sd_loop ((d # t) @ [NUL]) (int (length (d # t))) b1 (length (w @ [c])) = Some (r, (t' @ [NUL], int (length t')), b', length w')
      \<and> length b' = length b1 \<and> buf_read b' 0 (length w') = Some w' \<and> length w' < length b1 \<and> (\<exists>u. d # t = u @ t')"
    using 3(4) b1 by (intro 3(2)) simp_all
  have two: "\<exists>r t' w' b'. sd_loop (t @ [NUL]) (int (length t)) b2 (length (w @ [c, d])) = Some (r, (t' @ [NUL], int (length t')), b', length w')
      \<and> length b' = length b2 \<and> buf_read b' 0 (length w') = Some w' \<and> length w' < length b2 \<and> (\<exists>u. t = u @ t')"
    using 3(4) b1 b2 by (intro 3(1)) simp_all
  consider (esc) "c = CHR 0x5C" "d = CHR '']''" | (stop) "c = CHR '']''" "d = CHR '' ''"
    | (copy) "\<not> (c = CHR 0x5C \<and> d = CHR '']'')" "\<not> (c = CHR '']'' \<and> d = CHR '' '')"
    by blast
  then show ?case
  proof cases
    case esc
    then have "sd_loop ((c # d # t) @ [NUL]) (int (length (c # d # t))) b (length w) = sd_loop (t @ [NUL]) (int (length t)) b2 (length (w @ [c, d]))"
      using b1(1) b2(1) by simp
    then show ?thesis
      using two b1(2) b2(2) by (metis append_Cons)
  next
    case stop
    then show ?thesis
      using b1 3(4) by (intro exI [of _ 0] exI [of _ "d # t"] exI [of _ "w @ [c]"] exI [of _ b1]) simp
  next
    case copy
    then have "sd_loop ((c # d # t) @ [NUL]) (int (length (c # d # t))) b (length w) = sd_loop ((d # t) @ [NUL]) (int (length (d # t))) b1 (length (w @ [c]))"
      using b1(1) by auto
    then show ?thesis
      using one b1(2) by (metis append_Cons)
  qed
qed

lemma parseRFCStructuredData_safe:
  assumes "at_text p t" "holds_text b w" "length t < length b"
  shows "\<exists>r p' b' t' w'. parseRFCStructuredData p b = Some (r, p', b') \<and> at_text p' t' \<and> holds_text b' w' \<and> (\<exists>u. t = u @ t')"
proof (cases "t = [] \<or> hd t \<noteq> CHR ''['' \<and> hd t \<noteq> CHR ''-''")
  case True
  then have "parseRFCStructuredData p b = Some (1, p, b)"
    using assms(1) by (cases t) (auto simp: parseRFCStructuredData_def at_text_def)
  then show ?thesis
    using assms by blast
next
  case False
  then obtain c t1 where t: "t = c # t1" "c = CHR ''['' \<or> c = CHR ''-''"
    by (cases t) auto
  have z: "buf_read b 0 (length []) = Some []"
    by (simp add: buf_read_def)
  obtain r0 t0 w0 b0 where l: "(if c = CHR ''-'' then do { b \<leftarrow> buf_put b 0 c; Some (0, (t1 @ [NUL], int (length t) - 1), b, 1) }
        else sd_loop (t @ [NUL]) (int (length t)) b 0) = Some (r0, (t0 @ [NUL], int (length t0)), b0, length w0)"
      "length b0 = length b" "buf_read b0 0 (length w0) = Some w0" "length w0 < length b" "\<exists>u. t = u @ t0"
  proof (cases "c = CHR ''-''")
    case True
    obtain b0 where "buf_put b 0 c = Some b0" "length b0 = length b" "buf_read b0 0 (length [c]) = Some [c]"
      using put_extend [OF z, of c] assms(3) by (cases b) auto
    then show thesis
      using that [of 0 t1 b0 "[c]"] True t(1) assms(3) by simp
  next
    case False
    then show thesis
      using sd_loop_safe [OF z, of t] assms(3) that by auto
  qed
  obtain r t' where e: "eat_sp (t0 @ [NUL], int (length t0)) = Some (r, t' @ [NUL], int (length t'))" "\<exists>u. t0 = u @ t'"
    using eat_sp_total by blast
  obtain b' where b': "buf_put b0 (length w0) NUL = Some b'" "holds_text b' w0"
    using terminate_text [OF l(3)] l(2,4) by auto
  have "parseRFCStructuredData p b = Some (if r = 0 then r0 else 1, (t' @ [NUL], int (length t')), b')"
    using assms(1) t l(1) e(1) b'(1) by (auto simp: parseRFCStructuredData_def at_text_def Option.bind_eq_Some_conv simp del: sd_loop.simps)
  moreover have "\<exists>u. t = u @ t'"
    using l(5) e(2) by (metis append_assoc)
  ultimately show ?thesis
    using b'(2) unfolding at_text_def by blast
qed

section \<open>Setting the fields\<close>

text \<open>What the parser leaves of the message object: the raw message, the offset behind PRI and the string objects not yet set.\<close>

definition keeps :: "'j smsg \<Rightarrow> 'j smsg \<Rightarrow> bool" where
  "keeps m m' \<longleftrightarrow> pszRawMsg m' = pszRawMsg m \<and> szRawMsg m' = szRawMsg m \<and> iLenRawMsg m' = iLenRawMsg m \<and> offAfterPRI m' = offAfterPRI m"

lemma keeps_raw: "keeps m m' \<Longrightarrow> raw_ok m t \<Longrightarrow> raw_ok m' t"
  unfolding raw_view keeps_def by simp

lemma keeps_trans: "keeps m m' \<Longrightarrow> keeps m' m'' \<Longrightarrow> keeps m m''"
  by (simp add: keeps_def)

lemma set_hostname_total:
  assumes "length (szHOSTNAME m) = 32" "length s < 2 ^ 31"
  shows "\<exists>p c n. MsgSetHOSTNAME alloc m s = Some (m \<lparr> iLenHOSTNAME := n, pszHOSTNAME := p, szHOSTNAME := c \<rparr>)"
proof -
  have i: "int32 (int (length s)) = int (length s)"
    using assms(2) by (intro int32_id) simp_all
  define own where "own = (int (length s) < 32 \<or> \<not> alloc (length s + 1))"
  define n where "n = (if int (length s) < 32 \<or> alloc (length s + 1) then length s else 31)"
  have if': "(if int (length s) < CONF_HOSTNAME_BUFSIZE then (True, int (length s))
      else if alloc (nat (int (length s)) + 1) then (False, int (length s)) else (True, CONF_HOSTNAME_BUFSIZE - 1)) = (own, int n)"
    by (simp add: own_def n_def CONF_HOSTNAME_BUFSIZE_def)
  let ?b = "if own then szHOSTNAME m else buf_new (n + 1)"
  have n: "n \<le> length s" "n < length ?b"
    using assms(1) by (auto simp: n_def own_def)
  obtain b1 where b1: "buf_memcpy ?b 0 (take n s) = Some b1"
    using buf_memcpy_ex [of 0 "take n s" ?b] n by auto
  have "n < length b1"
    using buf_memcpy_length [OF b1] n(2) by simp
  then obtain b2 where b2: "buf_put b1 n NUL = Some b2"
    by (simp add: buf_put_def)
  have "MsgSetHOSTNAME alloc m s = Some (if own then m \<lparr> iLenHOSTNAME := int n, pszHOSTNAME := Fixed, szHOSTNAME := b2 \<rparr>
      else m \<lparr> iLenHOSTNAME := int n, pszHOSTNAME := Heap b2 \<rparr>)"
    unfolding MsgSetHOSTNAME_def Let_def i if' prod.case using b1 b2 by (cases own) simp_all
  moreover have "m \<lparr> iLenHOSTNAME := int n, pszHOSTNAME := Heap b2 \<rparr> = m \<lparr> iLenHOSTNAME := int n, pszHOSTNAME := Heap b2, szHOSTNAME := szHOSTNAME m \<rparr>"
    by simp
  ultimately show ?thesis
    by metis
qed

lemma set_cstr_total: "\<exists>r c. set_cstr alloc None s = Some (r, c)"
proof (cases "alloc sizeof_cstr \<and> 0 < strlen s \<and> alloc (strlen s + 1)")
  case False
  then show ?thesis
    by (auto simp: set_cstr_def cstrConstruct_def rsCStrSetSzStr_def cstr_empty_def cstrFinalize_def Let_def)
next
  case True
  let ?b = "buf_realloc [] (strlen s + 1)"
  have l: "length ?b = strlen s + 1"
    by (simp add: buf_realloc_def)
  then have "0 + length (take (strlen s) s) \<le> length ?b"
    by simp
  then obtain b1 where b1: "buf_memcpy ?b 0 (take (strlen s) s) = Some b1"
    using buf_memcpy_ex by blast
  have "strlen s < length b1"
    using buf_memcpy_length [OF b1] l by simp
  then show ?thesis
    using True b1 by (simp add: set_cstr_def cstrConstruct_def rsCStrSetSzStr_def cstr_empty_def cstrFinalize_def Let_def cstr_cells_def buf_put_def)
qed

lemma set_app_total: "pCSAPPNAME m = None \<Longrightarrow> \<exists>r x. MsgSetAPPNAME alloc m y = Some (r, m \<lparr> pCSAPPNAME := x \<rparr>)"
  using set_cstr_total [of alloc "if strlen y = 0 then ''-'' else y"] by (auto simp: MsgSetAPPNAME_def)

lemma set_proc_total: "pCSPROCID m = None \<Longrightarrow> \<exists>r x. MsgSetPROCID alloc m y = Some (r, m \<lparr> pCSPROCID := x \<rparr>)"
  using set_cstr_total [of alloc y] by (auto simp: MsgSetPROCID_def)

lemma set_msgid_total: "pCSMSGID m = None \<Longrightarrow> \<exists>r x. MsgSetMSGID alloc m y = Some (r, m \<lparr> pCSMSGID := x \<rparr>)"
  using set_cstr_total [of alloc y] by (auto simp: MsgSetMSGID_def)

lemma set_sd_total: "\<exists>r x. MsgSetStructuredData alloc m y = (r, m \<lparr> pszStrucData := x \<rparr>)"
  by (auto simp: MsgSetStructuredData_def Let_def)

lemma parse_fields_safe:
  assumes p: "at_text p t" "length t < length b" "length b < 2 ^ 31"
    and m: "length (szHOSTNAME m) = 32" "pCSAPPNAME m = None" "pCSPROCID m = None" "pCSMSGID m = None"
  shows "\<exists>m' p' t'. parse_fields alloc m p b = Some (m', p') \<and> keeps m m' \<and> at_text p' t' \<and> (\<exists>u. t = u @ t')"
proof -
  let ?f = "takeWhile (\<lambda>c. c \<noteq> CHR '' '')" and ?z = "takeWhile (\<lambda>c. c \<noteq> NUL)"
  have field: "\<exists>r p' b'. parseRFCField q c = Some (r, p', b') \<and> at_text p' (field_end x) \<and> length b' = length c
      \<and> holds_text b' (?f x) \<and> buf_sz b' = Some (?z (?f x)) \<and> length (field_end x) < length b'" if "at_text q x" "length x < length c" for q x c
    using parseRFCField_spec [OF that] holds_text_sz field_end_length [of x] that(2) by fastforce
  obtain r1 p1 b1 where 1: "parseRFCField p b = Some (r1, p1, b1)" "at_text p1 (field_end t)" "length b1 = length b"
      "buf_sz b1 = Some (?z (?f t))" "length (field_end t) < length b1"
    using field [OF p(1,2)] by blast
  obtain r2 p2 b2 where 2: "parseRFCField p1 b1 = Some (r2, p2, b2)" "at_text p2 (field_end (field_end t))" "length b2 = length b1"
      "buf_sz b2 = Some (?z (?f (field_end t)))" "length (field_end (field_end t)) < length b2"
    using field [OF 1(2,5)] by blast
  obtain r3 p3 b3 where 3: "parseRFCField p2 b2 = Some (r3, p3, b3)" "at_text p3 (field_end (field_end (field_end t)))" "length b3 = length b2"
      "buf_sz b3 = Some (?z (?f (field_end (field_end t))))" "length (field_end (field_end (field_end t))) < length b3"
    using field [OF 2(2,5)] by blast
  obtain r4 p4 b4 where 4: "parseRFCField p3 b3 = Some (r4, p4, b4)" "at_text p4 (field_end (field_end (field_end (field_end t))))"
      "holds_text b4 (?f (field_end (field_end (field_end t))))"
      "buf_sz b4 = Some (?z (?f (field_end (field_end (field_end t)))))" "length (field_end (field_end (field_end (field_end t)))) < length b4"
    using field [OF 3(2,5)] by blast
  obtain r5 p5 b5 t5 w5 where 5: "parseRFCStructuredData p4 b4 = Some (r5, p5, b5)" "at_text p5 t5" "holds_text b5 w5"
      "\<exists>u. field_end (field_end (field_end (field_end t))) = u @ t5"
    using parseRFCStructuredData_safe [OF 4(2,3,5)] by blast
  have "length (?z (?f t)) \<le> length t"
    using length_takeWhile_le [of "\<lambda>c. c \<noteq> NUL" "?f t"] length_takeWhile_le [of "\<lambda>c. c \<noteq> CHR '' ''" t] by linarith
  then have "length (?z (?f t)) < 2 ^ 31"
    using p(2,3) by simp
  then obtain q c n where h: "MsgSetHOSTNAME alloc m (?z (?f t)) = Some (m \<lparr> iLenHOSTNAME := n, pszHOSTNAME := q, szHOSTNAME := c \<rparr>)"
    using set_hostname_total [OF m(1)] by blast
  let ?m1 = "m \<lparr> iLenHOSTNAME := n, pszHOSTNAME := q, szHOSTNAME := c \<rparr>"
  obtain ra xa where a: "MsgSetAPPNAME alloc ?m1 (?z (?f (field_end t))) = Some (ra, ?m1 \<lparr> pCSAPPNAME := xa \<rparr>)"
    using set_app_total [of ?m1 alloc "?z (?f (field_end t))"] m(2) by auto
  let ?m2 = "?m1 \<lparr> pCSAPPNAME := xa \<rparr>"
  obtain rb xb where b: "MsgSetPROCID alloc ?m2 (?z (?f (field_end (field_end t)))) = Some (rb, ?m2 \<lparr> pCSPROCID := xb \<rparr>)"
    using set_proc_total [of ?m2 alloc "?z (?f (field_end (field_end t)))"] m(3) by auto
  let ?m3 = "?m2 \<lparr> pCSPROCID := xb \<rparr>"
  obtain rc xc where c: "MsgSetMSGID alloc ?m3 (?z (?f (field_end (field_end (field_end t))))) = Some (rc, ?m3 \<lparr> pCSMSGID := xc \<rparr>)"
    using set_msgid_total [of ?m3 alloc "?z (?f (field_end (field_end (field_end t))))"] m(4) by auto
  let ?m4 = "?m3 \<lparr> pCSMSGID := xc \<rparr>"
  obtain rd xd where d: "MsgSetStructuredData alloc ?m4 (?z w5) = (rd, ?m4 \<lparr> pszStrucData := xd \<rparr>)"
    using set_sd_total by blast
  have "parse_fields alloc m p b = Some (?m4 \<lparr> pszStrucData := xd \<rparr>, p5)"
    unfolding parse_fields_def using 1(1,4) 2(1,4) 3(1,4) 4(1,4) 5(1) holds_text_sz [OF 5(3)] h a b c d by simp
  moreover have "\<exists>u. t = u @ t5"
    using 5(4) field_end_suffix [of t] field_end_suffix [of "field_end t"] field_end_suffix [of "field_end (field_end t)"]
      field_end_suffix [of "field_end (field_end (field_end t))"] by (metis append_assoc)
  ultimately show ?thesis
    using 5(2) by (auto simp: keeps_def)
qed

lemma at_text_advances:
  assumes "at_text p t" "advances p q"
  shows "\<exists>t'. at_text q t' \<and> (\<exists>u. t = u @ t')"
proof -
  obtain u where u: "t @ [NUL] = u @ fst q" "snd q = int (length t) - int (length u)" "0 \<le> snd q"
    using assms by (auto simp: at_text_def advances_def)
  then have "length u \<le> length t"
    by simp
  then have "t = u @ drop (length u) t" "fst q = drop (length u) t @ [NUL]"
    using u(1) by (metis append_eq_append_conv_if append_take_drop_id, metis append_eq_conv_conj drop_append diff_is_0_eq' drop0)
  moreover have "q = (fst q, snd q)"
    by simp
  ultimately have "at_text q (drop (length u) t)"
    unfolding at_text_def using u(2) \<open>length u \<le> length t\<close> by (metis length_drop of_nat_diff)
  then show ?thesis
    using \<open>t = u @ drop (length u) t\<close> by blast
qed

lemma looking_at_text:
  assumes "at_text p t" "looking_at w p"
  shows "t = w @ drop (length w) t" "at_text (advance (length w) p) (drop (length w) t)"
proof -
  have "length w \<le> length t" "take (length w) (t @ [NUL]) = w"
    using assms by (auto simp: looking_at_def at_text_def)
  then have w: "take (length w) t = w"
    by simp
  show "t = w @ drop (length w) t"
    using append_take_drop_id [of "length w" t] by (simp add: w)
  show "at_text (advance (length w) p) (drop (length w) t)"
    using assms(1) \<open>length w \<le> length t\<close> by (simp add: at_text_def advance_def)
qed

lemma parse_timestamp_safe:
  assumes "at_text p t" "no_int_overflow (first_word t)"
  shows "\<exists>b x p' t'. parse_timestamp m p = Some (b, m \<lparr> tTIMESTAMP := x \<rparr>, p') \<and> at_text p' t' \<and> (\<exists>u. t = u @ t')"
proof (cases "looking_at ''- '' p")
  case True
  have "parse_timestamp m p = Some (True, m \<lparr> tTIMESTAMP := tRcvdAt m \<rparr>, advance 2 p)"
    using True by (simp add: parse_timestamp_def)
  moreover have "at_text (advance 2 p) (drop 2 t)"
    using looking_at_text(2) [OF assms(1) True] by (simp add: eval_nat_numeral)
  moreover have "\<exists>u. t = u @ drop 2 t"
    by (metis append_take_drop_id)
  ultimately show ?thesis
    by blast
next
  case False
  have "inside p"
    using assms by (auto simp: inside_def at_text_def)
  then have safe: "returns (ParseTIMESTAMP3339 (tTIMESTAMP m) p) (\<lambda>(x, q). advances p q)"
    by (rule returns_mono [OF parse_3339_safe]) auto
  then consider e where "ParseTIMESTAMP3339 (tTIMESTAMP m) p = Some (Inl e)"
    | x q where "ParseTIMESTAMP3339 (tTIMESTAMP m) p = Some (Inr (x, q))" "advances p q"
    by (cases "(ParseTIMESTAMP3339 (tTIMESTAMP m) p, \<lambda>(x :: syslogTime, q). advances p q)" rule: returns.cases) auto
  then show ?thesis
  proof cases
    case 1
    then have "parse_timestamp m p = Some (False, m \<lparr> tTIMESTAMP := tTIMESTAMP m \<rparr>, p)"
      using False by (simp add: parse_timestamp_def)
    then show ?thesis
      using assms(1) by blast
  next
    case 2
    then have "parse_timestamp m p = Some (True, m \<lparr> tTIMESTAMP := (if msgFlags m AND IGNDATE \<noteq> 0 then tRcvdAt m else x) \<rparr>, q)"
      using False by (simp add: parse_timestamp_def)
    then show ?thesis
      using at_text_advances [OF assms(1) 2(2)] by blast
  qed
qed

text \<open>The part behind the protocol version.\<close>

lemma parse_rfc5424_safe:
  assumes raw: "raw_ok m t" "raw_buf m \<noteq> None" "int (length t) < 2 ^ 31 - 1" and off: "0 \<le> offAfterPRI m" "offAfterPRI m \<le> int (length t)"
    and m: "length (szHOSTNAME m) = 32" "pCSAPPNAME m = None" "pCSPROCID m = None" "pCSMSGID m = None"
    and num: "no_int_overflow (first_word (drop 2 (drop (nat (offAfterPRI m)) t)))"
  shows "\<exists>r m'. parse_rfc5424 alloc m = Some (r, m') \<and> raw_ok m' t \<and> (r = RS_RET_OK \<longrightarrow> part_ok m' \<and> offAfterPRI m \<le> offMSG m')"
proof -
  obtain b where b: "raw_buf m = Some b" "buf_read b 0 (length t + 1) = Some (t @ [NUL])" "iLenRawMsg m = int (length t)"
    using raw(1,2) by (auto simp: raw_ok_def split: option.splits)
  define o' where "o' = nat (offAfterPRI m)"
  have o': "offAfterPRI m = int o'" "o' \<le> length t"
    using off by (simp_all add: o'_def)
  let ?p = "(drop o' (t @ [NUL]), iLenRawMsg m - offAfterPRI m)"
  have p: "at_text ?p (drop o' t)"
    using o' b(3) by (simp add: at_text_def)
  show ?thesis
  proof (cases "looking_at ''1 '' ?p")
    case False
    then show ?thesis
      using b o' raw(1) off by (simp add: parse_rfc5424_def Let_def)
  next
    case True
    let ?m = "setProtocolVersion m MSG_RFC5424_PROTOCOL"
    let ?q = "advance 2 ?p" and ?t = "drop 2 (drop o' t)"
    have q: "at_text ?q ?t" "length ?t = length t - o' - 2" "\<exists>u. drop o' t = u @ ?t"
      using looking_at_text(2) [OF p True] append_take_drop_id [of 2 "drop o' t"] by (simp_all add: eval_nat_numeral del: append_take_drop_id) metis
    have k: "keeps m ?m" "szHOSTNAME ?m = szHOSTNAME m" "pCSAPPNAME ?m = None" "pCSPROCID ?m = None" "pCSMSGID ?m = None"
      using m by (simp_all add: setProtocolVersion_def keeps_def)
    obtain c x p1 t1 where 1: "parse_timestamp ?m ?q = Some (c, ?m \<lparr> tTIMESTAMP := x \<rparr>, p1)" "at_text p1 t1" "\<exists>u. ?t = u @ t1"
      using parse_timestamp_safe [OF q(1)] num o'_def by blast
    let ?m1 = "?m \<lparr> tTIMESTAMP := x \<rparr>" and ?b = "buf_new (nat (iLenRawMsg m - offAfterPRI m - 2) + 1)"
    have "length t1 \<le> length ?t"
      using 1(3) by (metis le_add2 length_append)
    then have fits: "length t1 < length ?b" "length ?b < 2 ^ 31"
      using q(2) b(3) o' raw(3) by simp_all
    obtain m2 p2 t2 where 2: "(if c then parse_fields alloc ?m1 p1 ?b else Some (?m1, p1)) = Some (m2, p2)" "keeps ?m1 m2" "at_text p2 t2" "\<exists>u. t1 = u @ t2"
    proof (cases c)
      case True
      then show thesis
        using parse_fields_safe [OF 1(2) fits, of ?m1 alloc] k m(1) that by auto
    next
      case False
      then show thesis
        using that 1(2) by (simp add: keeps_def)
    qed
    have k2: "keeps m m2"
      using k(1) 2(2) by (simp add: keeps_def)
    have "\<exists>u. drop o' t = u @ t2"
      using q(3) 1(3) 2(4) by (metis append_assoc)
    then have l2: "length t2 \<le> length t - o'"
      by (metis le_add2 length_append length_drop)
    have l: "iLenRawMsg m2 = int (length t)"
      using k2 b(3) by (simp add: keeps_def)
    let ?off = "iLenRawMsg m2 + 1 - int (length (fst p2))"
    have off2: "?off = int (length t) - int (length t2)"
      using 2(3) l by (simp add: at_text_def)
    then have "MsgSetMSGoffs m2 ?off = Some (m2 \<lparr> offMSG := ?off, iLenMSG := int (length t2) \<rparr>)"
      using raw(3) l l2 unfolding off2 by (simp add: MsgSetMSGoffs_def ck_int_def Let_def)
    moreover have "raw_ok (m2 \<lparr> offMSG := ?off, iLenMSG := int (length t2) \<rparr>) t"
      using keeps_raw [OF k2 raw(1)] unfolding raw_view by simp
    moreover have "part_ok (m2 \<lparr> offMSG := ?off, iLenMSG := int (length t2) \<rparr>)" "offAfterPRI m \<le> ?off"
      using l l2 o' unfolding off2 by (auto simp: part_ok_def)
    ultimately have fin: "\<exists>m'. MsgSetMSGoffs m2 ?off = Some m' \<and> raw_ok m' t \<and> part_ok m' \<and> offAfterPRI m \<le> offMSG m'"
      by auto
    have "iLenRawMsg ?m1 = iLenRawMsg m" "offAfterPRI ?m1 = offAfterPRI m"
      by (simp_all add: setProtocolVersion_def)
    then have step: "parse_rfc5424 alloc m = (if alloc (nat (snd ?q) + 1)
        then do { m \<leftarrow> MsgSetMSGoffs m2 ?off; Some (RS_RET_OK, m) } else Some (RS_RET_OUT_OF_MEMORY, ?m))"
      unfolding parse_rfc5424_def using b o' off True 1(1) 2(1) by (cases c) (simp_all add: Let_def)
    show ?thesis
    proof (cases "alloc (nat (snd ?q) + 1)")
      case True
      then show ?thesis
        using step fin by auto
    next
      case False
      then show ?thesis
        using step keeps_raw [OF k(1) raw(1)] by simp
    qed
  qed
qed

section \<open>Structured data\<close>

text \<open>
  Elements in brackets, each a sequence of characters other than the closing bracket and the
  backslash, and of pairs of a backslash and any character. The last pair is not an escaped
  backslash: a parameter ends with its quotation mark.
\<close>

definition sd_tok :: "char list \<Rightarrow> bool" where
  "sd_tok w \<longleftrightarrow> NUL \<notin> set w \<and> ((\<exists>c. w = [c] \<and> c \<noteq> CHR '']'' \<and> c \<noteq> CHR 0x5C) \<or> (\<exists>c. w = [CHR 0x5C, c]))"

definition sd_element :: "char list list \<Rightarrow> char list" where
  "sd_element ws = CHR ''['' # concat ws @ '']''"

definition sd_element_ok :: "char list list \<Rightarrow> bool" where
  "sd_element_ok ws \<longleftrightarrow> (\<forall>w \<in> set ws. sd_tok w) \<and> (ws = [] \<or> last ws \<noteq> [CHR 0x5C, CHR 0x5C])"

text \<open>The loop copies a text and goes on with what is behind it.\<close>

definition sd_copies :: "char list \<Rightarrow> char list \<Rightarrow> bool" where
  "sd_copies u t \<longleftrightarrow> (\<forall>b w. buf_read b 0 (length w) = Some w \<longrightarrow> length w + length (u @ t) < length b \<longrightarrow>
     (\<exists>b'. length b' = length b \<and> buf_read b' 0 (length (w @ u)) = Some (w @ u)
       \<and> sd_loop ((u @ t) @ [NUL]) (int (length (u @ t))) b (length w) = sd_loop (t @ [NUL]) (int (length t)) b' (length (w @ u))))"

lemma sd_copies_nil: "sd_copies [] t"
  by (auto simp: sd_copies_def)

lemma sd_copies_append:
  assumes "sd_copies u (v @ t)" "sd_copies v t"
  shows "sd_copies (u @ v) t"
  unfolding sd_copies_def
proof (intro allI impI)
  fix b w
  assume b: "buf_read b 0 (length w) = Some w" "length w + length ((u @ v) @ t) < length b"
  then obtain b1 where b1: "length b1 = length b" "buf_read b1 0 (length (w @ u)) = Some (w @ u)"
      "sd_loop ((u @ v @ t) @ [NUL]) (int (length (u @ v @ t))) b (length w) = sd_loop ((v @ t) @ [NUL]) (int (length (v @ t))) b1 (length (w @ u))"
    using assms(1) unfolding sd_copies_def by (metis append_assoc)
  then obtain b2 where "length b2 = length b1" "buf_read b2 0 (length ((w @ u) @ v)) = Some ((w @ u) @ v)"
      "sd_loop ((v @ t) @ [NUL]) (int (length (v @ t))) b1 (length (w @ u)) = sd_loop (t @ [NUL]) (int (length t)) b2 (length ((w @ u) @ v))"
    using assms(2) b(2) unfolding sd_copies_def by (metis (no_types, lifting) add.assoc length_append)
  then show "\<exists>b'. length b' = length b \<and> buf_read b' 0 (length (w @ u @ v)) = Some (w @ u @ v)
      \<and> sd_loop (((u @ v) @ t) @ [NUL]) (int (length ((u @ v) @ t))) b (length w) = sd_loop (t @ [NUL]) (int (length t)) b' (length (w @ u @ v))"
    using b1 by (intro exI [of _ b2]) (simp only: append_assoc)
qed

lemma sd_copies_char:
  assumes "c \<noteq> CHR 0x5C \<or> d \<noteq> CHR '']''" "c \<noteq> CHR '']'' \<or> d \<noteq> CHR '' ''"
  shows "sd_copies [c] (d # t)"
  unfolding sd_copies_def
proof (intro allI impI)
  fix b w
  assume "buf_read b 0 (length w) = Some w" "length w + length ([c] @ d # t) < length b"
  then obtain b1 where "buf_put b (length w) c = Some b1" "length b1 = length b" "buf_read b1 0 (length (w @ [c])) = Some (w @ [c])"
    using put_extend [of b w c] by auto
  then show "\<exists>b'. length b' = length b \<and> buf_read b' 0 (length (w @ [c])) = Some (w @ [c])
      \<and> sd_loop (([c] @ d # t) @ [NUL]) (int (length ([c] @ d # t))) b (length w) = sd_loop ((d # t) @ [NUL]) (int (length (d # t))) b' (length (w @ [c]))"
    using assms by (intro exI [of _ b1]) auto
qed

lemma sd_copies_escape: "sd_copies [CHR 0x5C, CHR '']''] t"
  unfolding sd_copies_def
proof (intro allI impI)
  fix b w
  let ?c = "CHR 0x5C" and ?d = "CHR '']''"
  assume b: "buf_read b 0 (length w) = Some w" "length w + length ([?c, ?d] @ t) < length b"
  then obtain b1 where b1: "buf_put b (length w) ?c = Some b1" "length b1 = length b" "buf_read b1 0 (length (w @ [?c])) = Some (w @ [?c])"
    using put_extend [of b w ?c] by auto
  then obtain b2 where "buf_put b1 (length (w @ [?c])) ?d = Some b2" "length b2 = length b1"
      "buf_read b2 0 (length (w @ [?c, ?d])) = Some (w @ [?c, ?d])"
    using put_extend [of b1 "w @ [?c]" ?d] b(2) by auto
  then show "\<exists>b'. length b' = length b \<and> buf_read b' 0 (length (w @ [?c, ?d])) = Some (w @ [?c, ?d])
      \<and> sd_loop (([?c, ?d] @ t) @ [NUL]) (int (length ([?c, ?d] @ t))) b (length w) = sd_loop (t @ [NUL]) (int (length t)) b' (length (w @ [?c, ?d]))"
    using b1 by (intro exI [of _ b2]) simp
qed

lemma sd_copies_tok:
  assumes "sd_tok w" "w = [CHR 0x5C, CHR 0x5C] \<Longrightarrow> d \<noteq> CHR '']''"
  shows "sd_copies w (d # t)"
proof -
  consider c where "w = [c]" "c \<noteq> CHR '']''" "c \<noteq> CHR 0x5C" | "w = [CHR 0x5C, CHR '']'']" | c where "w = [CHR 0x5C] @ [c]" "c \<noteq> CHR '']''"
    using assms(1) unfolding sd_tok_def by auto
  then show ?thesis
  proof cases
    case 1
    then show ?thesis
      using sd_copies_char [of c d t] by simp
  next
    case 2
    then show ?thesis
      using sd_copies_escape by simp
  next
    case 3
    have "sd_copies [CHR 0x5C] ([c] @ d # t)" "sd_copies [c] (d # t)"
      using sd_copies_char [of "CHR 0x5C" c "d # t"] sd_copies_char [of c d t] 3 assms(2) by auto
    then show ?thesis
      unfolding 3(1) by (rule sd_copies_append)
  qed
qed

lemma sd_copies_toks:
  assumes "\<forall>w \<in> set ws. sd_tok w" "ws = [] \<or> last ws \<noteq> [CHR 0x5C, CHR 0x5C]"
  shows "sd_copies (concat ws) (CHR '']'' # t)"
  using assms
proof (induction ws)
  case Nil
  then show ?case
    by (simp add: sd_copies_nil)
next
  case (Cons w ws)
  obtain d s where d: "concat ws @ CHR '']'' # t = d # s" "w = [CHR 0x5C, CHR 0x5C] \<longrightarrow> d \<noteq> CHR '']''"
  proof (cases ws)
    case Nil
    then show thesis
      using that Cons.prems(2) by simp
  next
    case (Cons v vs)
    then obtain d s where "v = d # s" "d \<noteq> CHR '']''"
      using Cons.prems(1) by (auto simp: sd_tok_def)
    then show thesis
      using that \<open>ws = v # vs\<close> by simp
  qed
  have "sd_copies w (concat ws @ CHR '']'' # t)"
    using Cons.prems(1) d by (simp add: sd_copies_tok)
  moreover have "sd_copies (concat ws) (CHR '']'' # t)"
    using Cons.IH Cons.prems by (cases ws) auto
  ultimately show ?case
    using sd_copies_append [of w "concat ws"] by simp
qed

lemma sd_copies_elements:
  assumes "\<forall>ws \<in> set es. sd_element_ok ws" "es \<noteq> []"
  shows "\<exists>u. concat (map sd_element es) = CHR ''['' # u @ '']'' \<and> sd_copies (CHR ''['' # u) ('']'' @ '' '' @ t)"
  using assms
proof (induction es)
  case (Cons ws es)
  have open': "sd_copies (CHR ''['' # concat ws) (CHR '']'' # s)" for s
  proof -
    obtain d s' where "concat ws @ CHR '']'' # s = d # s'"
      by (cases "concat ws @ CHR '']'' # s") auto
    then have "sd_copies [CHR ''[''] (concat ws @ CHR '']'' # s)"
      by (simp add: sd_copies_char)
    then have "sd_copies ([CHR ''[''] @ concat ws) (CHR '']'' # s)"
      using Cons.prems(1) by (intro sd_copies_append sd_copies_toks) (simp_all add: sd_element_ok_def)
    then show ?thesis
      by simp
  qed
  show ?case
  proof (cases "es = []")
    case True
    then show ?thesis
      using open' [of "'' '' @ t"] by (simp add: sd_element_def)
  next
    case False
    then obtain u where u: "concat (map sd_element es) = CHR ''['' # u @ '']''" "sd_copies (CHR ''['' # u) ('']'' @ '' '' @ t)"
      using Cons by auto
    have "sd_copies '']'' ((CHR ''['' # u) @ '']'' @ '' '' @ t)"
      by (simp add: sd_copies_char)
    then have 1: "sd_copies ('']'' @ CHR ''['' # u) ('']'' @ '' '' @ t)"
      using u(2) by (rule sd_copies_append)
    have "sd_copies (CHR ''['' # concat ws) (('']'' @ CHR ''['' # u) @ '']'' @ '' '' @ t)"
      using open' [of "(CHR ''['' # u) @ '']'' @ '' '' @ t"] by simp
    then have "sd_copies ((CHR ''['' # concat ws) @ '']'' @ CHR ''['' # u) ('']'' @ '' '' @ t)"
      using 1 by (rule sd_copies_append)
    then show ?thesis
      using u(1) by (intro exI [of _ "concat ws @ '']'' @ CHR ''['' # u"]) (simp add: sd_element_def [of ws])
  qed
qed simp

definition sd_text :: "char list list list \<Rightarrow> char list" where
  "sd_text es = (if es = [] then ''-'' else concat (map sd_element es))"

lemma parse_sd_text:
  assumes "\<forall>ws \<in> set es. sd_element_ok ws" "at_text p (sd_text es @ CHR '' '' # t)" "length (sd_text es @ CHR '' '' # t) < length b"
  shows "\<exists>p' b'. parseRFCStructuredData p b = Some (0, p', b') \<and> at_text p' t \<and> holds_text b' (sd_text es)"
proof -
  have z: "buf_read b 0 (length []) = Some []"
    by (simp add: buf_read_def)
  have p: "p = ((sd_text es @ CHR '' '' # t) @ [NUL], int (length (sd_text es @ CHR '' '' # t)))"
    using assms(2) by (simp add: at_text_def)
  have e: "eat_sp (CHR '' '' # t @ [NUL], int (length t) + 1) = Some (0, t @ [NUL], int (length t))"
    by (simp add: eat_sp_def)
  show ?thesis
  proof (cases "es = []")
    case True
    obtain b1 where b1: "buf_put b 0 (CHR ''-'') = Some b1" "length b1 = length b" "buf_read b1 0 (length ''-'') = Some ''-''"
      using put_extend [OF z, of "CHR ''-''"] assms(3) by (cases b) auto
    then obtain b2 where "buf_put b1 (length ''-'') NUL = Some b2" "holds_text b2 ''-''"
      using terminate_text [OF b1(3)] assms(3) True by (auto simp: sd_text_def)
    then show ?thesis
      using True p b1 e by (simp add: parseRFCStructuredData_def sd_text_def at_text_def add.commute)
  next
    case False
    obtain u where u: "sd_text es = CHR ''['' # u @ '']''" "sd_copies (CHR ''['' # u) ('']'' @ '' '' @ t)"
      using sd_copies_elements [OF assms(1) False, of t] False by (auto simp: sd_text_def)
    let ?s = "(CHR ''['' # u) @ '']'' @ '' '' @ t"
    have s: "sd_text es @ CHR '' '' # t = ?s"
      using u(1) by simp
    obtain b1 where b1: "length b1 = length b" "buf_read b1 0 (length (CHR ''['' # u)) = Some (CHR ''['' # u)"
        "sd_loop (?s @ [NUL]) (int (length ?s)) b 0 = sd_loop (('']'' @ '' '' @ t) @ [NUL]) (int (length ('']'' @ '' '' @ t))) b1 (length (CHR ''['' # u))"
      using u(2) z assms(3) unfolding sd_copies_def s by (metis append_Nil list.size(3) plus_nat.add_0)
    obtain b2 where b2: "buf_put b1 (length (CHR ''['' # u)) (CHR '']'') = Some b2" "length b2 = length b1"
        "buf_read b2 0 (length (sd_text es)) = Some (sd_text es)"
      using put_extend [OF b1(2), of "CHR '']''"] b1(1) assms(3) u(1) by auto
    have loop: "sd_loop (?s @ [NUL]) (int (length ?s)) b 0 = Some (0, (CHR '' '' # t @ [NUL], int (length t) + 1), b2, length (sd_text es))"
      unfolding b1(3) using b2(1) u(1) by simp
    obtain b3 where "buf_put b2 (length (sd_text es)) NUL = Some b3" "holds_text b3 (sd_text es)"
      using terminate_text [OF b2(3)] b1(1) b2(2) assms(3) by auto
    moreover have "parseRFCStructuredData p b = do {
        (r, p, b, i) \<leftarrow> sd_loop (?s @ [NUL]) (int (length ?s)) b 0;
        (r', p) \<leftarrow> eat_sp p;
        b \<leftarrow> buf_put b i NUL;
        Some (if r' = 0 then r else 1, p, b) }"
      unfolding p s parseRFCStructuredData_def by (simp del: sd_loop.simps)
    ultimately show ?thesis
      unfolding loop using e by (simp add: at_text_def)
  qed
qed

lemma sd_text_no_NUL: "\<forall>ws \<in> set es. sd_element_ok ws \<Longrightarrow> NUL \<notin> set (sd_text es)"
  by (auto simp: sd_text_def sd_element_def sd_element_ok_def sd_tok_def)

section \<open>Messages in the format\<close>

definition rfc5424_header :: "syslogTime \<Rightarrow> char list \<Rightarrow> char list \<Rightarrow> char list \<Rightarrow> char list \<Rightarrow> char list option" where
  "rfc5424_header ts host app procid msgid = do {
     (out, _) \<leftarrow> formatTimestamp3339 ts;
     Some (''1 '' @ butlast out @ CHR '' '' # host @ CHR '' '' # app @ CHR '' '' # procid @ CHR '' '' # msgid @ '' '') }"

text \<open>The text behind the header has structured data, or is taken for it, and then MSG; what the buffer holds is MSGID.\<close>

definition sd_parsed :: "char list \<Rightarrow> char list \<Rightarrow> char list \<Rightarrow> char list \<Rightarrow> bool" where
  "sd_parsed msgid t sd msg \<longleftrightarrow> NUL \<notin> set sd \<and> length msg \<le> length t
     \<and> (\<forall>p b. at_text p t \<longrightarrow> length t < length b \<longrightarrow> holds_text b msgid \<longrightarrow>
          (\<exists>r p' b'. parseRFCStructuredData p b = Some (r, p', b') \<and> at_text p' msg \<and> holds_text b' sd))"

lemma sd_parsed_text:
  assumes "\<forall>ws \<in> set es. sd_element_ok ws"
  shows "sd_parsed msgid (sd_text es @ CHR '' '' # msg) (sd_text es) msg"
  unfolding sd_parsed_def
proof (intro conjI allI impI)
  show "NUL \<notin> set (sd_text es)"
    using assms by (rule sd_text_no_NUL)
  show "length msg \<le> length (sd_text es @ CHR '' '' # msg)"
    by simp
  fix p :: cursor and b :: buf
  assume "at_text p (sd_text es @ CHR '' '' # msg)" "length (sd_text es @ CHR '' '' # msg) < length b"
  from parse_sd_text [OF assms this]
  show "\<exists>r p' b'. parseRFCStructuredData p b = Some (r, p', b') \<and> at_text p' msg \<and> holds_text b' (sd_text es)"
    by blast
qed

lemma sd_parsed_none:
  assumes "NUL \<notin> set msgid" "msg = [] \<or> hd msg \<noteq> CHR ''['' \<and> hd msg \<noteq> CHR ''-''"
  shows "sd_parsed msgid msg msgid msg"
  using assms by (cases msg) (auto simp: sd_parsed_def parseRFCStructuredData_def at_text_def)

text \<open>A field of the header: printable text without spaces.\<close>

definition header_field :: "char list \<Rightarrow> bool" where
  "header_field w \<longleftrightarrow> w \<noteq> [] \<and> NUL \<notin> set w \<and> CHR '' '' \<notin> set w"

lemma takeWhile_field: "header_field w \<Longrightarrow> takeWhile (\<lambda>c. c \<noteq> CHR '' '') (w @ CHR '' '' # t) = w"
  by (subst takeWhile_append2) (auto simp: header_field_def)

lemma field_end_field: "header_field w \<Longrightarrow> field_end (w @ CHR '' '' # t) = t"
  unfolding field_end_def by (subst dropWhile_append2) (auto simp: header_field_def)

lemma parse_header_field:
  assumes "header_field w" "at_text p (w @ CHR '' '' # t)" "length (w @ CHR '' '' # t) < length b"
  shows "\<exists>r p' b'. parseRFCField p b = Some (r, p', b') \<and> at_text p' t \<and> length b' = length b \<and> buf_sz b' = Some w \<and> holds_text b' w"
proof -
  obtain r p' b' where "parseRFCField p b = Some (r, p', b')" "at_text p' t" "length b' = length b" "holds_text b' w"
    using parseRFCField_spec [OF assms(2,3)] takeWhile_field [OF assms(1)] field_end_field [OF assms(1)] by auto
  moreover have "takeWhile (\<lambda>c. c \<noteq> NUL) w = w"
    using assms(1) by (auto simp: header_field_def takeWhile_eq_all_conv)
  ultimately show ?thesis
    using holds_text_sz by fastforce
qed

text \<open>The host name is kept inside the object or on the heap, terminated.\<close>

definition host_text :: "'j smsg \<Rightarrow> char list \<Rightarrow> bool" where
  "host_text m s \<longleftrightarrow> (case pszHOSTNAME m of NullPtr \<Rightarrow> False | Fixed \<Rightarrow> holds_text (szHOSTNAME m) s | Heap b \<Rightarrow> holds_text b s)"

lemma host_text_get: "host_text m s \<Longrightarrow> NUL \<notin> set s \<Longrightarrow> getHOSTNAME alloc cvt m = Some (s, m)"
  using holds_text_sz [of _ s] by (auto simp: host_text_def getHOSTNAME_def takeWhile_eq_all_conv split: cell_store.splits)

lemma set_hostname_sz:
  assumes "length (szHOSTNAME m) = 32" "length s < 2 ^ 31" "\<forall>n. alloc n"
  shows "\<exists>p c n. MsgSetHOSTNAME alloc m s = Some (m \<lparr> iLenHOSTNAME := n, pszHOSTNAME := p, szHOSTNAME := c \<rparr>)
    \<and> host_text (m \<lparr> iLenHOSTNAME := n, pszHOSTNAME := p, szHOSTNAME := c \<rparr>) s"
proof -
  have i: "int32 (int (length s)) = int (length s)"
    using assms(2) by (intro int32_id) simp_all
  define own where "own = (length s < 32)"
  have if': "(if int (length s) < CONF_HOSTNAME_BUFSIZE then (True, int (length s))
      else if alloc (nat (int (length s)) + 1) then (False, int (length s)) else (True, CONF_HOSTNAME_BUFSIZE - 1)) = (own, int (length s))"
    using assms(3) by (simp add: own_def CONF_HOSTNAME_BUFSIZE_def)
  let ?b = "if own then szHOSTNAME m else buf_new (length s + 1)"
  have n: "length s < length ?b"
    using assms(1) by (auto simp: own_def)
  obtain b1 where b1: "buf_memcpy ?b 0 s = Some b1"
    using buf_memcpy_ex [of 0 s ?b] n by auto
  have "buf_read b1 0 (length s) = Some s" "length s < length b1"
    using buf_read_memcpy_same [OF b1] buf_memcpy_length [OF b1] n by simp_all
  then obtain b2 where b2: "buf_put b1 (length s) NUL = Some b2" "holds_text b2 s"
    using terminate_text by blast
  show ?thesis
  proof (cases own)
    case True
    then have "MsgSetHOSTNAME alloc m s = Some (m \<lparr> iLenHOSTNAME := int (length s), pszHOSTNAME := Fixed, szHOSTNAME := b2 \<rparr>)"
      unfolding MsgSetHOSTNAME_def Let_def i if' prod.case using b1 b2(1) by simp
    then show ?thesis
      using b2(2) by (intro exI [of _ Fixed] exI [of _ b2] exI [of _ "int (length s)"]) (simp add: host_text_def)
  next
    case False
    then have "MsgSetHOSTNAME alloc m s = Some (m \<lparr> iLenHOSTNAME := int (length s), pszHOSTNAME := Heap b2 \<rparr>)"
      unfolding MsgSetHOSTNAME_def Let_def i if' prod.case using b1 b2(1) by simp
    then show ?thesis
      using b2(2) by (intro exI [of _ "Heap b2"] exI [of _ "szHOSTNAME m"] exI [of _ "int (length s)"]) (simp add: host_text_def)
  qed
qed

lemma parse_fields_header:
  assumes f: "header_field host" "header_field app" "header_field procid" "header_field msgid" "sd_parsed msgid t sd msg"
    and p: "at_text p (host @ CHR '' '' # app @ CHR '' '' # procid @ CHR '' '' # msgid @ CHR '' '' # t)"
      "length (fst p) \<le> length b" "length b < 2 ^ 31"
    and m: "length (szHOSTNAME m) = 32" "pCSAPPNAME m = None" "pCSPROCID m = None" "pCSMSGID m = None"
  shows "\<exists>n q c p'. let m1 = m \<lparr> iLenHOSTNAME := n, pszHOSTNAME := q, szHOSTNAME := c \<rparr> in
    parse_fields always m p b = Some (m1 \<lparr> pCSAPPNAME := Some (text_cstr app), pCSPROCID := Some (text_cstr procid),
        pCSMSGID := Some (text_cstr msgid), pszStrucData := Some sd \<rparr>, p') \<and> host_text m1 host \<and> at_text p' msg"
proof -
  let ?l = "length b"
  let ?t3 = "msgid @ CHR '' '' # t"
  let ?t2 = "procid @ CHR '' '' # ?t3"
  let ?t1 = "app @ CHR '' '' # ?t2"
  have l: "length (host @ CHR '' '' # ?t1) < ?l"
    using p(1,2) by (simp add: at_text_def)
  obtain r1 p1 b1 where 1: "parseRFCField p b = Some (r1, p1, b1)" "at_text p1 ?t1" "length b1 = ?l" "buf_sz b1 = Some host"
    using parse_header_field [OF f(1) p(1) l] by blast
  obtain r2 p2 b2 where 2: "parseRFCField p1 b1 = Some (r2, p2, b2)" "at_text p2 ?t2" "length b2 = ?l" "buf_sz b2 = Some app"
    using parse_header_field [OF f(2) 1(2), of b1] l 1(3) by auto
  obtain r3 p3 b3 where 3: "parseRFCField p2 b2 = Some (r3, p3, b3)" "at_text p3 ?t3" "length b3 = ?l" "buf_sz b3 = Some procid"
    using parse_header_field [OF f(3) 2(2), of b2] l 2(3) by auto
  obtain r4 p4 b4 where 4: "parseRFCField p3 b3 = Some (r4, p4, b4)" "at_text p4 t" "length b4 = ?l" "buf_sz b4 = Some msgid" "holds_text b4 msgid"
    using parse_header_field [OF f(4) 3(2), of b3] l 3(3) by auto
  obtain r5 p5 b5 where 5: "parseRFCStructuredData p4 b4 = Some (r5, p5, b5)" "at_text p5 msg" "holds_text b5 sd"
  proof -
    have "length t < length b4"
      using l 4(3) by simp
    then show thesis
      using f(5) 4(2,5) that unfolding sd_parsed_def by blast
  qed
  have z: "takeWhile (\<lambda>c. c \<noteq> NUL) sd = sd"
    using f(5) by (auto simp: takeWhile_eq_all_conv sd_parsed_def)
  have sz: "buf_sz b5 = Some sd" "strlen sd = length sd"
    using holds_text_sz [OF 5(3)] unfolding strlen_def z by simp_all
  have "length host < 2 ^ 31"
    using l p(3) by simp
  then obtain q c n where h: "MsgSetHOSTNAME always m host = Some (m \<lparr> iLenHOSTNAME := n, pszHOSTNAME := q, szHOSTNAME := c \<rparr>)"
      "host_text (m \<lparr> iLenHOSTNAME := n, pszHOSTNAME := q, szHOSTNAME := c \<rparr>) host"
    using set_hostname_sz [OF m(1), of host always] by blast
  have c: "set_cstr always None w = Some (RS_RET_OK, Some (text_cstr w))" "strlen w \<noteq> 0" if "header_field w" for w
    using set_cstr_new [of w] that strlen_no_NUL [of w] by (auto simp: header_field_def text_ok_def)
  show ?thesis
    using 1(1,4) 2(1,4) 3(1,4) 4(1,4) 5(1,2) sz h c [OF f(2)] c [OF f(3)] c [OF f(4)] m
    by (intro exI [of _ n] exI [of _ q] exI [of _ c] exI [of _ p5])
      (simp add: parse_fields_def MsgSetAPPNAME_def MsgSetPROCID_def MsgSetMSGID_def MsgSetStructuredData_def Let_def)
qed

lemma format_3339_digit:
  assumes "valid_time ts" "formatTimestamp3339 ts = Some (out @ [NUL], n)"
  shows "out \<noteq> [] \<and> isdigit (hd out)"
proof -
  have d: "digits4 (year ts) = dig (year ts div 1000 mod 10) # drop 1 (digits4 (year ts))"
    using assms(1) by (simp add: digits4_eq valid_time_def)
  obtain x where "out = digits4 (year ts) @ x"
    using assms(2) by (auto simp: formatTimestamp3339_def Let_def Option.bind_eq_Some_conv)
  then have "out = dig (year ts div 1000 mod 10) # drop 1 (digits4 (year ts)) @ x"
    using d by (metis append_Cons)
  then show ?thesis
    using mod10_range [of "year ts div 1000"] by simp
qed

lemma parse_printed:
  assumes pr: "rfc5424_header ts host app procid msgid = Some h" and v: "valid_time ts" "fraction_ok ts"
    and f: "header_field host" "header_field app" "header_field procid" "header_field msgid" "sd_parsed msgid t sd msg"
    and raw: "raw_ok m (pri @ h @ t)" "offAfterPRI m = int (length pri)" "int (length (pri @ h @ t)) < 2 ^ 31 - 1"
    and m: "length (szHOSTNAME m) = 32" "pCSAPPNAME m = None" "pCSPROCID m = None" "pCSMSGID m = None" "msgFlags m AND IGNDATE = 0"
  shows "\<exists>n q c. let m1 = m \<lparr> iProtocolVersion := 1,
      tTIMESTAMP := ts \<lparr> timeType := 2, wday := wday (tTIMESTAMP m), inUTC := inUTC (tTIMESTAMP m) \<rparr>,
      iLenHOSTNAME := n, pszHOSTNAME := q, szHOSTNAME := c, pCSAPPNAME := Some (text_cstr app),
      pCSPROCID := Some (text_cstr procid), pCSMSGID := Some (text_cstr msgid), pszStrucData := Some sd,
      offMSG := int (length (pri @ h @ t)) - int (length msg), iLenMSG := int (length msg) \<rparr>
    in parse_rfc5424 always m = Some (RS_RET_OK, m1) \<and> host_text m1 host"
proof -
  let ?h = "host @ CHR '' '' # app @ CHR '' '' # procid @ CHR '' '' # msgid @ CHR '' '' # t"
  let ?ts = "ts \<lparr> timeType := 2, wday := wday (tTIMESTAMP m), inUTC := inUTC (tTIMESTAMP m) \<rparr>"
  obtain out where out: "formatTimestamp3339 ts = Some (out @ [NUL], int (length out))" 
    "ParseTIMESTAMP3339 (tTIMESTAMP m) (out @ CHR '' '' # ?h @ [NUL], int (length out) + (1 + int (length ?h))) = ret (?ts, ?h @ [NUL], int (length ?h))"
    by (rule roundtrip_3339 [OF v, of "1 + int (length ?h)" "CHR '' '' # ?h @ [NUL]" "tTIMESTAMP m"]) auto
  have tx: "h @ t = ''1 '' @ out @ CHR '' '' # ?h"
    using pr out(1) by (simp add: rfc5424_header_def)
  let ?r = "pri @ h @ t"
  obtain b where b: "raw_buf m = Some b" "buf_read b 0 (length ?r + 1) = Some (?r @ [NUL])" "iLenRawMsg m = int (length ?r)"
    using raw(1) tx by (auto simp: raw_ok_def split: option.splits)
  let ?p = "(drop (length pri) (?r @ [NUL]), int (length ?r) - int (length pri))"
  have at1: "looking_at ''1 '' ?p" "advance 2 ?p = (out @ CHR '' '' # ?h @ [NUL], int (length out) + (1 + int (length ?h)))"
    unfolding tx by (simp_all add: looking_at_def advance_def)
  have nodash: "\<not> looking_at ''- '' (advance 2 ?p)"
    using format_3339_digit [OF v(1) out(1)] unfolding at1(2) by (cases out) (auto simp: looking_at_def isdigit_def)
  let ?m = "setProtocolVersion m MSG_RFC5424_PROTOCOL"
  let ?m1 = "?m \<lparr> tTIMESTAMP := ?ts \<rparr>"
  have ts: "parse_timestamp ?m (advance 2 ?p) = Some (True, ?m1, ?h @ [NUL], int (length ?h))"
    using nodash out(2) m(5) unfolding at1(2) by (simp add: parse_timestamp_def setProtocolVersion_def)
  let ?b = "buf_new (nat (iLenRawMsg m - offAfterPRI m - 2) + 1)"
  have lb: "length (?h @ [NUL]) \<le> length ?b" "length ?b < 2 ^ 31"
    using b(3) raw(2,3) unfolding tx by simp_all
  have "at_text (?h @ [NUL], int (length ?h)) ?h"
    by (simp add: at_text_def)
  moreover have "length (szHOSTNAME ?m1) = 32" "pCSAPPNAME ?m1 = None" "pCSPROCID ?m1 = None" "pCSMSGID ?m1 = None"
    using m by (simp_all add: setProtocolVersion_def)
  ultimately obtain n q c p' where fields: "parse_fields always ?m1 (?h @ [NUL], int (length ?h)) ?b
      = Some (?m1 \<lparr> iLenHOSTNAME := n, pszHOSTNAME := q, szHOSTNAME := c, pCSAPPNAME := Some (text_cstr app), pCSPROCID := Some (text_cstr procid),
          pCSMSGID := Some (text_cstr msgid), pszStrucData := Some sd \<rparr>, p')"
      "host_text (?m1 \<lparr> iLenHOSTNAME := n, pszHOSTNAME := q, szHOSTNAME := c \<rparr>) host" "at_text p' msg"
    using parse_fields_header [OF f, of "(?h @ [NUL], int (length ?h))" ?b ?m1] lb by (auto simp: Let_def)
  have l: "length (fst p') = length msg + 1" "length msg \<le> length ?r"
    using fields(3) f(5) by (simp_all add: at_text_def sd_parsed_def)
  let ?m2 = "?m1 \<lparr> iLenHOSTNAME := n, pszHOSTNAME := q, szHOSTNAME := c, pCSAPPNAME := Some (text_cstr app), pCSPROCID := Some (text_cstr procid),
          pCSMSGID := Some (text_cstr msgid), pszStrucData := Some sd \<rparr>"
  let ?off = "int (length ?r) - int (length msg)"
  have same: "iLenRawMsg ?m1 = int (length ?r)" "offAfterPRI ?m1 = offAfterPRI m" "iLenRawMsg ?m2 = int (length ?r)"
    using b(3) by (simp_all add: setProtocolVersion_def)
  have "parse_rfc5424 always m = do { m \<leftarrow> MsgSetMSGoffs ?m2 (iLenRawMsg ?m2 + 1 - int (length (fst p'))); Some (RS_RET_OK, m) }"
    unfolding parse_rfc5424_def using b raw(2) at1(1) ts fields(1) same(1,2) by (simp add: Let_def del: drop_append length_append append_assoc)
  moreover have "iLenRawMsg ?m2 + 1 - int (length (fst p')) = ?off"
    using same(3) l(1) by simp
  moreover have "MsgSetMSGoffs ?m2 ?off = Some (?m2 \<lparr> offMSG := ?off, iLenMSG := int (length msg) \<rparr>)"
    using same(3) l(2) raw(3) by (simp add: MsgSetMSGoffs_def ck_int_def Let_def del: length_append)
  ultimately have "parse_rfc5424 always m = Some (RS_RET_OK, ?m2 \<lparr> offMSG := ?off, iLenMSG := int (length msg) \<rparr>)"
    by simp
  then show ?thesis
    using fields(2) by (intro exI [of _ n] exI [of _ q] exI [of _ c])
      (cases q; simp add: setProtocolVersion_def MSG_RFC5424_PROTOCOL_def host_text_def Let_def del: length_append)
qed

section \<open>Properties\<close>

text \<open>A message as an input hands it to the parser: the raw message is set, the fields are not.\<close>

definition parser_input :: "'j smsg \<Rightarrow> char list \<Rightarrow> char list \<Rightarrow> bool" where
  "parser_input m pri t \<longleftrightarrow> raw_ok m (pri @ t) \<and> raw_buf m \<noteq> None \<and> offAfterPRI m = int (length pri) \<and> int (length (pri @ t)) < 2 ^ 31 - 1
     \<and> length (szHOSTNAME m) = 32 \<and> pCSAPPNAME m = None \<and> pCSPROCID m = None \<and> pCSMSGID m = None"

lemma base_set_raw:
  assumes "int (length t) < 2 ^ 31 - 1"
  shows "\<exists>m. MsgSetRawMsg always (msgBaseConstruct u :: 'j smsg) t = Some m \<and> raw_ok m t"
proof -
  let ?b = "msgBaseConstruct u :: 'j smsg"
  have "length (szRawMsg ?b) = 101" "iLenRawMsg ?b = 0" "iLenMSG ?b = 0"
    by (simp_all add: msgBaseConstruct_def conf_sizes)
  then show ?thesis
    using set_raw_ok [of ?b t always] assms by auto
qed

lemma getMSG_suffix:
  assumes "raw_ok m (a @ msg)" "offMSG m = int (length a)" "iLenMSG m = int (length msg)"
  shows "getMSG m = Some msg"
proof -
  have "part_ok m"
    using assms by (auto simp: part_ok_def raw_ok_def)
  then show ?thesis
    using getMSG_ok [OF assms(1)] assms(2,3) by simp
qed

lemma new_message_input:
  assumes "MsgSetRawMsg always (msgBaseConstruct u :: 'j smsg) (pri @ t) = Some m" "int (length (pri @ t)) < 2 ^ 31 - 1" "pri \<noteq> []"
  shows "parser_input (m \<lparr> offAfterPRI := int (length pri) \<rparr>) pri t" "msgFlags m = 0" "tTIMESTAMP m = zero_time"
proof -
  have r: "raw_ok m (pri @ t)"
    using base_set_raw [OF assms(2), of u, where ?'j = 'j] assms(1) by auto
  obtain p n b k where m: "m = msgBaseConstruct u \<lparr> pszRawMsg := p, iLenRawMsg := n, szRawMsg := b, iLenMSG := k \<rparr>"
    using set_raw_frame [OF assms(1)] by blast
  have "raw_buf m \<noteq> None"
    using r assms(3) by (auto simp: raw_ok_def split: option.splits)
  then have "raw_buf (m \<lparr> offAfterPRI := int (length pri) \<rparr>) \<noteq> None"
    by (cases "pszRawMsg m") (simp_all add: raw_buf_def)
  moreover have "raw_ok (m \<lparr> offAfterPRI := int (length pri) \<rparr>) (pri @ t)"
    using r unfolding raw_view by simp
  ultimately show "parser_input (m \<lparr> offAfterPRI := int (length pri) \<rparr>) pri t"
    using assms(2) unfolding parser_input_def by (simp add: m msgBaseConstruct_def conf_sizes)
  show "msgFlags m = 0" "tTIMESTAMP m = zero_time"
    by (simp_all add: m msgBaseConstruct_def)
qed

lemma parse_rfc5424_overflow:
  assumes "parser_input m pri (''1 '' @ ds @ rest)" "\<forall>d \<in> set ds. isdigit d" "2147483600 \<le> dec_val 0 ds" "dec_val 0 ds \<le> 2147483629"
  shows "parse_rfc5424 always m = None"
proof -
  let ?t = "pri @ ''1 '' @ ds @ rest"
  obtain b where b: "raw_buf m = Some b" "buf_read b 0 (length ?t + 1) = Some (?t @ [NUL])" "iLenRawMsg m = int (length ?t)" "offAfterPRI m = int (length pri)"
    using assms(1) by (auto simp: parser_input_def raw_ok_def split: option.splits)
  obtain d ds' where ds: "ds = d # ds'" "isdigit d"
    using assms(2,3) by (cases ds) auto
  then have d: "d \<noteq> CHR ''-''"
    by (auto simp: isdigit_def)
  let ?p = "(ds @ rest @ [NUL], int (length (ds @ rest)))"
  have "srSLMGParseInt32_loop 0 (ds @ rest @ [NUL]) (snd ?p) = None"
    using assms(2-4) by (intro num_loop_overflow) simp_all
  then have "parse_timestamp m' ?p = None" for m' :: "'a smsg"
    using ds(1) d by (simp add: parse_timestamp_def looking_at_def ParseTIMESTAMP3339_def srSLMGParseInt32_def del: srSLMGParseInt32_loop.simps)
  then show ?thesis
    unfolding parse_rfc5424_def using b by (simp add: looking_at_def advance_def Let_def nat_add_distrib)
qed



text \<open>
  C4: A message printed in the RFC 5424 format is parsed back: with a valid time stamp, header
  fields that are not empty and have no spaces, and structured data in which brackets and
  backslashes are escaped, the parser succeeds, and the getters of the message return the time
  stamp, HOSTNAME, APP-NAME, PROCID, MSGID, STRUCTURED-DATA and MSG that were printed.
\<close>
theorem rfc5424_roundtrip:
  assumes "rfc5424_header ts host app procid msgid = Some h" "valid_time ts" "fraction_ok ts"
    "header_field host" "header_field app" "header_field procid" "header_field msgid" "\<forall>ws \<in> set es. sd_element_ok ws"
    "parser_input m pri (h @ sd_text es @ CHR '' '' # msg)" "msgFlags m AND IGNDATE = 0"
  shows "\<exists>m'. parse_rfc5424 always m = Some (RS_RET_OK, m')
    \<and> tTIMESTAMP m' = ts \<lparr> timeType := 2, wday := wday (tTIMESTAMP m), inUTC := inUTC (tTIMESTAMP m) \<rparr>
    \<and> getHOSTNAME alloc cvthname m' = Some (host, m') \<and> getAPPNAME alloc slash m' = Some (app, m')
    \<and> getPROCID alloc m' = Some (procid, m') \<and> map_option cstr_val (pCSMSGID m') = Some msgid
    \<and> MsgGetStructuredData m' = sd_text es \<and> getMSG m' = Some msg"
proof -
  let ?t = "h @ sd_text es @ CHR '' '' # msg"
  have i: "raw_ok m (pri @ ?t)" "offAfterPRI m = int (length pri)" "int (length (pri @ ?t)) < 2 ^ 31 - 1"
      "length (szHOSTNAME m) = 32" "pCSAPPNAME m = None" "pCSPROCID m = None" "pCSMSGID m = None"
    using assms(9) by (simp_all add: parser_input_def)
  let ?m1 = "\<lambda>n q c. m \<lparr> iProtocolVersion := 1,
      tTIMESTAMP := ts \<lparr> timeType := 2, wday := wday (tTIMESTAMP m), inUTC := inUTC (tTIMESTAMP m) \<rparr>,
      iLenHOSTNAME := n, pszHOSTNAME := q, szHOSTNAME := c, pCSAPPNAME := Some (text_cstr app),
      pCSPROCID := Some (text_cstr procid), pCSMSGID := Some (text_cstr msgid), pszStrucData := Some (sd_text es),
      offMSG := int (length (pri @ ?t)) - int (length msg), iLenMSG := int (length msg) \<rparr>"
  obtain n q c where r: "parse_rfc5424 always m = Some (RS_RET_OK, ?m1 n q c)" "host_text (?m1 n q c) host"
    using parse_printed [OF assms(1-7) sd_parsed_text [OF assms(8)] i assms(10)] by (auto simp: Let_def)
  have nz: "NUL \<notin> set host" "NUL \<notin> set app" "NUL \<notin> set procid"
    using assms(4-6) by (simp_all add: header_field_def)
  have "getMSG (?m1 n q c) = Some msg"
  proof -
    have "raw_ok (?m1 n q c) (pri @ ?t)"
      using i(1) unfolding raw_view by simp
    then show ?thesis
      by (intro getMSG_suffix [of _ "pri @ h @ sd_text es @ '' ''"]) simp_all
  qed
  moreover have "getHOSTNAME alloc cvthname (?m1 n q c) = Some (host, ?m1 n q c)"
    using host_text_get [OF r(2) nz(1)] .
  moreover have "getAPPNAME alloc slash (?m1 n q c) = Some (app, ?m1 n q c)" "getPROCID alloc (?m1 n q c) = Some (procid, ?m1 n q c)"
    using text_cstr_sz [OF nz(2)] text_cstr_sz [OF nz(3)] by (simp_all add: getAPPNAME_def appname_text_def getPROCID_def)
  ultimately show ?thesis
    using r(1) text_cstr_ok(2) [of msgid] by (intro exI [of _ "?m1 n q c"]) (simp add: MsgGetStructuredData_def)
qed

definition demo_sd :: "char list list list" where
  "demo_sd = [[''i'', ''d'', '' '', ''k'', ''='', [CHR 0x22], [CHR 0x5C, CHR '']''], [CHR 0x22]], [''x'']]"

lemma demo_header:
  obtains h where "rfc5424_header demo_time ''host'' ''app'' ''-'' ''ID47'' = Some h" "length h < 100"
proof -
  obtain out where "formatTimestamp3339 demo_time = Some (out @ [NUL], int (length out))" "length out \<le> 32"
    by (rule roundtrip_3339 [OF demo_time_valid, of 0 "[]"]) auto
  then show thesis
    by (intro that [of "''1 '' @ out @ '' host app - ID47 ''"]) (simp_all add: rfc5424_header_def)
qed

theorem rfc5424_roundtrip_witness:
  "\<exists>h m m'. rfc5424_header demo_time ''host'' ''app'' ''-'' ''ID47'' = Some h
    \<and> MsgSetRawMsg always (msgBaseConstruct 0 :: unit smsg) (''<13>'' @ h @ sd_text demo_sd @ '' hello'') = Some m
    \<and> parse_rfc5424 always (m \<lparr> offAfterPRI := 4 \<rparr>) = Some (RS_RET_OK, m')
    \<and> getPROCID always m' = Some (''-'', m') \<and> MsgGetStructuredData m' = sd_text demo_sd \<and> getMSG m' = Some ''hello''"
proof -
  obtain h where h: "rfc5424_header demo_time ''host'' ''app'' ''-'' ''ID47'' = Some h" "length h < 100"
    by (rule demo_header)
  let ?t = "h @ sd_text demo_sd @ CHR '' '' # ''hello''"
  have l: "int (length (''<13>'' @ ?t)) < 2 ^ 31 - 1"
    using h(2) by (simp add: demo_sd_def sd_text_def sd_element_def)
  obtain m where m: "MsgSetRawMsg always (msgBaseConstruct 0 :: unit smsg) (''<13>'' @ ?t) = Some m"
    using base_set_raw [OF l, of 0, where ?'j = unit] by auto
  note i = new_message_input [OF m l]
  have f: "msgFlags (m \<lparr> offAfterPRI := int (length ''<13>'') \<rparr>) AND IGNDATE = 0"
    using i(2) by simp
  have "\<forall>ws \<in> set demo_sd. sd_element_ok ws"
    by (simp add: demo_sd_def sd_element_ok_def sd_tok_def)
  from rfc5424_roundtrip [OF h(1) demo_time_valid _ _ _ _ this i(1) f, of always "\<lambda>_ _. undefined" False]
  show ?thesis
    using h(1) m by (auto simp: header_field_def)
qed

text \<open>
  C40: A message without structured data, which the format does not allow, is accepted: when the
  text behind MSGID starts neither with a bracket nor with a dash, the parser succeeds and
  takes the text as MSG, but STRUCTURED-DATA is the text of MSGID, which is what the work buffer
  still holds.
\<close>
theorem rfc5424_stale_structured_data:
  assumes "rfc5424_header ts host app procid msgid = Some h" "valid_time ts" "fraction_ok ts"
    "header_field host" "header_field app" "header_field procid" "header_field msgid"
    "msg = [] \<or> hd msg \<noteq> CHR ''['' \<and> hd msg \<noteq> CHR ''-''"
    "parser_input m pri (h @ msg)" "msgFlags m AND IGNDATE = 0"
  shows "\<exists>m'. parse_rfc5424 always m = Some (RS_RET_OK, m') \<and> MsgGetStructuredData m' = msgid \<and> getMSG m' = Some msg"
proof -
  let ?t = "h @ msg"
  have i: "raw_ok m (pri @ ?t)" "offAfterPRI m = int (length pri)" "int (length (pri @ ?t)) < 2 ^ 31 - 1"
      "length (szHOSTNAME m) = 32" "pCSAPPNAME m = None" "pCSPROCID m = None" "pCSMSGID m = None"
    using assms(9) by (simp_all add: parser_input_def)
  have "sd_parsed msgid msg msgid msg"
    using assms(7,8) by (intro sd_parsed_none) (simp_all add: header_field_def)
  from parse_printed [OF assms(1-7) this i assms(10)] obtain m' where r: "parse_rfc5424 always m = Some (RS_RET_OK, m')"
      "pszStrucData m' = Some msgid" "offMSG m' = int (length (pri @ ?t)) - int (length msg)" "iLenMSG m' = int (length msg)"
      "pszRawMsg m' = pszRawMsg m" "szRawMsg m' = szRawMsg m" "iLenRawMsg m' = iLenRawMsg m"
    by (auto simp: Let_def)
  have "raw_ok m' ((pri @ h) @ msg)"
    using i(1) r(5-7) unfolding raw_view by simp
  then have "getMSG m' = Some msg"
    using r(3,4) by (intro getMSG_suffix [of _ "pri @ h"]) simp_all
  then show ?thesis
    using r(1,2) by (simp add: MsgGetStructuredData_def)
qed

theorem rfc5424_stale_structured_data_witness:
  "\<exists>h m m'. rfc5424_header demo_time ''host'' ''app'' ''-'' ''ID47'' = Some h
    \<and> MsgSetRawMsg always (msgBaseConstruct 0 :: unit smsg) (''<13>'' @ h @ ''hello'') = Some m
    \<and> parse_rfc5424 always (m \<lparr> offAfterPRI := 4 \<rparr>) = Some (RS_RET_OK, m') \<and> MsgGetStructuredData m' = ''ID47'' \<and> getMSG m' = Some ''hello''"
proof -
  obtain h where h: "rfc5424_header demo_time ''host'' ''app'' ''-'' ''ID47'' = Some h" "length h < 100"
    by (rule demo_header)
  have l: "int (length (''<13>'' @ h @ ''hello'')) < 2 ^ 31 - 1"
    using h(2) by simp
  obtain m where m: "MsgSetRawMsg always (msgBaseConstruct 0 :: unit smsg) (''<13>'' @ h @ ''hello'') = Some m"
    using base_set_raw [OF l, of 0, where ?'j = unit] by auto
  note i = new_message_input [OF m l]
  have f: "msgFlags (m \<lparr> offAfterPRI := int (length ''<13>'') \<rparr>) AND IGNDATE = 0"
    using i(2) by simp
  from rfc5424_stale_structured_data [OF h(1) demo_time_valid _ _ _ _ _ i(1) f]
  show ?thesis
    using h(1) m by (auto simp: header_field_def)
qed

end
