(* ===== verification/Spec2Isabelle.thy ===== *)
theory Spec2Isabelle
imports Pars Linked_List Hashtable Segdisk_State Msg Segdisk_Record Tcps_Framing Pm_Rfc5424
begin

text \<open>
  A verification development for the core of rsyslog: the data structures of its runtime, the
  message object, the way of a message from a TCP connection through the parser into the disk
  queue, and the time stamps it carries.

  \<^bold>\<open>The program and its parts.\<close> An input hands the bytes of a connection to a session
  (\<^verbatim>\<open>runtime/tcps_sess.c\<close>), which cuts them into messages and creates a message object
  (\<^verbatim>\<open>runtime/msg.c\<close>) for each. A parser (\<^verbatim>\<open>tools/pmrfc5424.c\<close>) takes the header of the message
  apart and sets the fields of the object, among them time stamps
  (\<^verbatim>\<open>runtime/datetime.c\<close>), counted strings (\<^verbatim>\<open>runtime/stringbuf.c\<close>) and shared strings
  (\<^verbatim>\<open>runtime/prop.c\<close>). A message that has to wait on disk is written as a record
  (\<^verbatim>\<open>runtime/segdisk_codec.c\<close>) into a segment; where the queue starts and ends is in two state
  slots (\<^verbatim>\<open>runtime/segdisk_state.c\<close>) that are protected by a checksum
  (\<^verbatim>\<open>runtime/segdisk_crc.c\<close>). Linked lists (\<^verbatim>\<open>runtime/linkedlist.c\<close>), hash tables
  (\<^verbatim>\<open>runtime/hashtable.c\<close>) and the string parser of the configuration code
  (\<^verbatim>\<open>runtime/parse.c\<close>) serve all of them.

  \<^bold>\<open>Conventions.\<close> Undefined behaviour of C is a value: a function into an option type is
  \<^term>\<open>None\<close> where the code would read or write outside of a block, use a byte that was never
  written, follow a null or freed pointer, or overflow a signed integer. So a theorem that says
  that a result is \<^term>\<open>Some\<close> is a theorem on memory safety. A return code of the code is a value
  of \<^typ>\<open>rsRetVal\<close>, beside the new state or in a sum with the result. The allocator is an
  argument that says which sizes it can serve, so every path for a failed allocation is in the
  model. A block of memory is a \<^typ>\<open>buf\<close>, a list of bytes each of which may not be written yet.
  Unsigned integers whose wrap-around matters are words; signed integers and sizes are
  \<^typ>\<open>int\<close> and \<^typ>\<open>nat\<close> with the bounds written out where the code depends on them. External
  code is an argument: the JSON library, the match of a regular expression, name resolution,
  the local time zone.

  \<^bold>\<open>Theories and what they model.\<close>

  \<^item> \<^verbatim>\<open>Rsyslog_Prelude\<close>: return codes (\<^verbatim>\<open>runtime/rsyslog.h\<close>), blocks of memory and the library
    routines on them, \<^verbatim>\<open>ctype.h\<close>, the result monads and the rules on them.

  \<^item> \<^verbatim>\<open>Stringbuf\<close>: \<^verbatim>\<open>cstr_t\<close> with construction, growth, the appends, replacement, finalization,
    trimming, comparison and search. \<^verbatim>\<open>cstr_wf\<close> is the invariant and \<^verbatim>\<open>cstr_val\<close> the text. Any
    sequence of operations is safe with any allocator and does to the text what the same
    sequence does on lists. The locale \<^verbatim>\<open>text_builder\<close> is what the parsers use of a string.

  \<^item> \<^verbatim>\<open>Pars\<close>: \<^verbatim>\<open>rsPars\<close> with integers, delimited and quoted strings, addresses and positions.
    Quoting is inverted by parsing, the exact range of integers that do not overflow is given,
    and the inputs that make the quoted-string parser read behind its buffer.

  \<^item> \<^verbatim>\<open>Linked_List\<close>: \<^verbatim>\<open>linkedList_t\<close> on a heap of cells. \<^verbatim>\<open>ll_rep\<close> says that a header and a heap
    represent a list of keys and data. Walks and destruction terminate, append, find and delete
    are the operations on the list, every element is destroyed once. The locale
    \<^verbatim>\<open>keyed_list\<close> is the interface of the list of rulesets.

  \<^item> \<^verbatim>\<open>Hashtable\<close>: creation, insertion with both ways to grow, search, removal, destruction, and
    the iterator of \<^verbatim>\<open>runtime/hashtable_itr.c\<close>. \<^verbatim>\<open>ht_wf\<close> is the invariant, \<^verbatim>\<open>ht_map\<close> the
    finite map; the locale \<^verbatim>\<open>keyed_map\<close> states the laws of a map and is interpreted on the table.

  \<^item> \<^verbatim>\<open>Segdisk_Bytes\<close>, \<^verbatim>\<open>Segdisk_Crc\<close>, \<^verbatim>\<open>Segdisk_State\<close>: big-endian integers, the table-driven
    CRC-32C with its equality to the bitwise definition, and the state slots: encoding and
    decoding are inverse, a damaged slot is not selected, the order on generations wraps.

  \<^item> \<^verbatim>\<open>Datetime\<close>, \<^verbatim>\<open>Datetime_Calendar\<close>: both parsers of time stamps, the printing routines, the
    conversions to and from seconds, to UTC, and the week numbers. What is printed is parsed
    back, the parsers stay inside the text and accept only times in range, and the conversions
    agree with the Gregorian calendar and with ISO 8601, which are defined without tables.

  \<^item> \<^verbatim>\<open>Prop\<close>, \<^verbatim>\<open>Msg\<close>: the shared strings and the message object with its setters and getters. The
    MSG part stays inside of the raw message along sequences of operations; replacing MSG is a
    splice of texts; PRI is read back as it was set; the cases in which the object is left in
    a state that a later read does not expect are characterised.

  \<^item> \<^verbatim>\<open>Segdisk_Codec\<close>, \<^verbatim>\<open>Segdisk_Record\<close>: the encoder and the decoder of a record, on the message
    object. The content of a message survives a write and a read; what is decoded is
    a sequence of whole fields without duplicates.

  \<^item> \<^verbatim>\<open>Tcps_Sess\<close>, \<^verbatim>\<open>Tcps_Framing\<close>: a session of the TCP server with octet-counted, line-feed,
    multi-line and regular-expression framing, the detection of TLS clients and the close. A
    session is a refinement of an automaton on texts; the split of the bytes into
    reads does not matter; what a sender frames arrives; the start of a frame is reached again.

  \<^item> \<^verbatim>\<open>Pm_Rfc5424\<close>: the parser for RFC 5424. It is safe on every raw message and with every
    allocator, and a header that was printed is parsed back into the fields of the message.

  \<^bold>\<open>Termination and bounds.\<close> No definition has a fuel argument. Loops over a text recurse on the
  text or on the number of bytes left, and loops with another measure carry a termination
  proof. The walks along the pointers of a linked list and the doubling of the encoder's capacity
  are partial functions, and the theorems on them say that they return. The octet count
  of a frame is at most 2000000009 before it is refused, as one digit is added to a value that
  is at most 200000000. The calendar theorems hold for the years of the tables, 1970 to 2100.

  \<^bold>\<open>Left out of the modelled parts.\<close> Locks and reference counts: an operation of a message runs
  under its lock. Debug output, statistics counters and the wording of the program's own error
  messages. The decompression of a TCP stream, for which the code calls zlib and zstd. The
  printf-style operations and the regular-expression match of counted strings. Of the message
  object, the property replacer, the JSON variables and the older serialisation.

  \<^bold>\<open>Not modelled.\<close> Queues and worker pools (\<^verbatim>\<open>runtime/queue.c\<close>, \<^verbatim>\<open>runtime/wtp.c\<close>,
  \<^verbatim>\<open>runtime/wti.c\<close>) are threads and condition variables, whose order of events is up to the
  scheduler. The store of the disk queue (\<^verbatim>\<open>runtime/segdisk_store.c\<close>), streams
  (\<^verbatim>\<open>runtime/stream.c\<close>), network and TLS drivers, outputs and the start-up of the daemon are
  sequences of system calls. The configuration language (\<^verbatim>\<open>grammar/\<close>, \<^verbatim>\<open>runtime/rsconf.c\<close>) is
  generated by flex and bison, and evaluates on objects of an external JSON library. Templates
  (\<^verbatim>\<open>runtime/template.c\<close>), actions (\<^verbatim>\<open>runtime/action.c\<close>) and rulesets (\<^verbatim>\<open>runtime/ruleset.c\<close>) are
  built from that configuration and call loadable modules; of rulesets only the lookup by name
  is modelled. Rate limiting and statistics depend on the time of day and on
  shared counters. Encryption and signatures are calls into cryptographic libraries, and the
  plugins are each built on the library of another system. The heuristics of the RFC 3164 parser
  (\<^verbatim>\<open>tools/pmrfc3164.c\<close>), the sanitising of messages (\<^verbatim>\<open>runtime/parser.c\<close>) and the lookup tables
  (\<^verbatim>\<open>runtime/lookup.c\<close>) would fit the model but are not part of it.
\<close>

end
